(* ===== verification/Kv_Prelude.thy ===== *)
theory Kv_Prelude
  imports Main "HOL-Library.Word" "HOL-Library.List_Lexorder" "HOL-Library.Char_ord"
    "HOL-Library.Code_Target_Nat"
begin

text \<open>
  Shared vocabulary of the development: fixed-width integers, the \<open>rocksdb::Status\<close> values,
  byte buffers and \<open>memcpy\<close>, the \<open>std::map\<close> container as a key-ordered association list, and
  the interface \<open>keyed_store\<close> that every finite-map-like container of the program provides.
\<close>

section \<open>Integers, bytes and status values\<close>

type_synonym u8 = "8 word"
type_synonym u32 = "32 word"
type_synonym u64 = "64 word"

text \<open>A \<open>std::string\<close> and a \<open>char\<close> buffer are both lists of 8-bit characters.\<close>

type_synonym bytes = "char list"

abbreviation zero_byte :: char where
  "zero_byte \<equiv> CHR 0x00"

text \<open>
  The status codes the KVIMR sources build.  The message is the first message argument of the
  constructor; the second one (a path or the text of \<open>strerror\<close>) is left out.
\<close>

datatype Status =
    OK
  | NotFound string
  | Corruption string
  | InvalidArgument string
  | IOError string

named_theorems kv_defs \<open>unfolding rules of the straight-line operations\<close>
named_theorems kv_frame \<open>what an operation leaves unchanged\<close>

section \<open>Buffers\<close>

text \<open>\<open>memcpy(dst + off, src, length src)\<close> into a buffer large enough to hold the copy.\<close>

definition memcpy_at :: "'a list \<Rightarrow> nat \<Rightarrow> 'a list \<Rightarrow> 'a list" where
  "memcpy_at dst off src = take off dst @ src @ drop (off + length src) dst"

definition substr :: "'a list \<Rightarrow> nat \<Rightarrow> nat \<Rightarrow> 'a list" where
  "substr xs pos n = take n (drop pos xs)"

lemma length_memcpy_at [simp]:
  "off + length src \<le> length dst \<Longrightarrow> length (memcpy_at dst off src) = length dst"
  by (simp add: memcpy_at_def)

lemma nth_memcpy_at:
  assumes "off + length src \<le> length dst" and "i < length dst"
  shows "memcpy_at dst off src ! i =
    (if off \<le> i \<and> i < off + length src then src ! (i - off) else dst ! i)"
  using assms by (auto simp: memcpy_at_def nth_append)

lemma memcpy_at_Nil [simp]: "memcpy_at dst off [] = dst"
  by (simp add: memcpy_at_def)

lemma length_substr [simp]: "length (substr xs pos n) = min n (length xs - pos)"
  by (simp add: substr_def)

lemma nth_substr: "i < n \<Longrightarrow> pos + i < length xs \<Longrightarrow> substr xs pos n ! i = xs ! (pos + i)"
  by (simp add: substr_def)

lemma substr_append_mid [simp]: "substr (xs @ ys @ zs) (length xs) (length ys) = ys"
  by (simp add: substr_def)

lemma nth_map_upt_add: "i < n \<Longrightarrow> map f [off..<off + n] ! i = f (off + i)"
  by simp

section \<open>Ordered maps\<close>

text \<open>
  \<open>std::map<K, V>\<close>: an association list in strictly increasing key order, which is the order
  in which the sources iterate over it.
\<close>

type_synonym ('k, 'v) std_map = "('k \<times> 'v) list"

definition map_ok :: "('k::linorder, 'v) std_map \<Rightarrow> bool" where
  "map_ok m \<longleftrightarrow> sorted_wrt (<) (map fst m)"

fun map_put :: "'k::linorder \<Rightarrow> 'v \<Rightarrow> ('k, 'v) std_map \<Rightarrow> ('k, 'v) std_map" where
  "map_put k v [] = [(k, v)]"
| "map_put k v ((k', v') # m) =
     (if k < k' then (k, v) # (k', v') # m
      else if k = k' then (k, v) # m
      else (k', v') # map_put k v m)"

fun map_erase :: "'k::linorder \<Rightarrow> ('k, 'v) std_map \<Rightarrow> ('k, 'v) std_map" where
  "map_erase k [] = []"
| "map_erase k ((k', v') # m) = (if k = k' then m else (k', v') # map_erase k m)"

abbreviation map_find :: "('k::linorder, 'v) std_map \<Rightarrow> 'k \<Rightarrow> 'v option" where
  "map_find m k \<equiv> map_of m k"

lemma map_ok_Nil [simp]: "map_ok []"
  by (simp add: map_ok_def)

lemma map_ok_Cons [simp]: "map_ok ((k, v) # m) \<longleftrightarrow> (\<forall>k' \<in> fst ` set m. k < k') \<and> map_ok m"
  by (auto simp: map_ok_def)

lemma map_find_put [simp]: "map_find (map_put k v m) = (map_find m)(k \<mapsto> v)"
  by (induction m) (auto simp: fun_eq_iff)

lemma keys_map_put [simp]: "fst ` set (map_put k v m) = insert k (fst ` set m)"
  by (induction k v m rule: map_put.induct) (auto simp: image_iff)

lemma map_ok_put [simp]: "map_ok m \<Longrightarrow> map_ok (map_put k v m)"
  by (induction m) (auto, force+)

lemma map_find_erase [simp]: "map_ok m \<Longrightarrow> map_find (map_erase k m) = (map_find m)(k := None)"
proof (induction m)
  case (Cons p m)
  then show ?case
    by (cases p) (auto simp: fun_eq_iff map_of_eq_None_iff)
qed simp

lemma keys_map_erase_subset: "set (map_erase k m) \<subseteq> set m"
  by (induction k m rule: map_erase.induct) auto

lemma map_ok_erase [simp]: "map_ok m \<Longrightarrow> map_ok (map_erase k m)"
proof (induction m)
  case (Cons p m)
  then show ?case
    using keys_map_erase_subset [of k m] by (cases p) auto
qed simp

lemma map_ok_distinct: "map_ok m \<Longrightarrow> distinct (map fst m)"
  by (simp add: map_ok_def strict_sorted_iff)

lemma map_find_iff: "map_ok m \<Longrightarrow> map_find m k = Some v \<longleftrightarrow> (k, v) \<in> set m"
  by (simp add: map_ok_distinct)

lemma sorted_wrt_fst_unique:
  fixes m m' :: "('k::linorder \<times> 'v) list"
  assumes "set m = set m'" "distinct m" "distinct m'"
    "sorted_wrt (\<lambda>p q. fst p < fst q) m" "sorted_wrt (\<lambda>p q. fst p < fst q) m'"
  shows "m = m'"
  using assms
proof (induction m arbitrary: m')
  case (Cons p m)
  then obtain q n where m': "m' = q # n"
    by (cases m') auto
  have "p = q"
    using Cons.prems unfolding m' by (metis list.set_intros(1) not_less_iff_gr_or_eq set_ConsD sorted_wrt.simps(2))
  then show ?case
    using Cons.prems Cons.IH [of n] unfolding m' by (simp add: insert_ident)
qed simp

lemma map_ok_unique:
  assumes "map_ok m" "map_ok m'" "map_find m = map_find m'"
  shows "m = m'"
proof -
  have "set m = set m'"
    using assms by (auto simp: map_find_iff [symmetric])
  moreover have "distinct m" "distinct m'"
    using assms by (auto dest: map_ok_distinct simp: distinct_map)
  moreover have "sorted_wrt (\<lambda>p q. fst p < fst q) m" "sorted_wrt (\<lambda>p q. fst p < fst q) m'"
    using assms by (auto simp: map_ok_def sorted_wrt_map)
  ultimately show ?thesis
    by (intro sorted_wrt_fst_unique)
qed

section \<open>The keyed-store interface\<close>

text \<open>
  What a client relies on when it keeps values under keys: a lookup after a store sees the
  stored value, other keys are untouched, and stores keep the container's invariant.
\<close>

locale keyed_store =
  fixes find :: "'s \<Rightarrow> 'k \<Rightarrow> 'v option"
    and put :: "'k \<Rightarrow> 'v \<Rightarrow> 's \<Rightarrow> 's"
    and inv :: "'s \<Rightarrow> bool"
  assumes find_put: "inv s \<Longrightarrow> find (put k v s) k' = (if k' = k then Some v else find s k')"
    and inv_put: "inv s \<Longrightarrow> inv (put k v s)"
begin

lemma find_put_same: "inv s \<Longrightarrow> find (put k v s) k = Some v"
  by (simp add: find_put)

lemma find_put_other: "inv s \<Longrightarrow> k' \<noteq> k \<Longrightarrow> find (put k v s) k' = find s k'"
  by (simp add: find_put)

lemma inv_puts: "inv s \<Longrightarrow> inv (foldl (\<lambda>s (k, v). put k v s) s kvs)"
  by (induction kvs arbitrary: s) (auto simp: inv_put)

lemma find_puts:
  "inv s \<Longrightarrow> find (foldl (\<lambda>s (k, v). put k v s) s kvs) k' =
     (case map_of (rev kvs) k' of None \<Rightarrow> find s k' | Some v \<Rightarrow> Some v)"
  by (induction kvs arbitrary: s)
    (auto simp: inv_put find_put map_add_def split: option.splits)

end

interpretation smap: keyed_store map_of map_put map_ok
  by unfold_locales auto

end
