(* ===== verification/Track_Allocator.thy ===== *)
theory Track_Allocator
  imports Kv_Prelude
begin

text \<open>
  The level-aware track allocator of \<open>db/kvimr_track_allocator.h\<close> and
  \<open>db/kvimr_track_allocator.cc\<close>: one owner per TOP and per BOTTOM track, a rotating cursor per
  tier, all-or-nothing allocation for one SSTable, release, and the restore used at start-up.
  Track numbers, sectors and byte counts are natural numbers; \<open>allocator_no_wraparound\<close> shows
  that none of the 64-bit computations wraps for a 32-bit zone count, so the two agree.
\<close>

section \<open>Data\<close>

datatype KVIMRTrackType = TOP | BOTTOM

record KVIMRTrackSegment =
  seg_zone :: nat
  seg_group :: nat
  seg_type :: KVIMRTrackType
  logical_sector_start :: nat
  sector_length :: nat

definition kGroupsPerZone :: nat where "kGroupsPerZone = 64"
definition kZoneSectors :: nat where "kZoneSectors = 524288"
definition kGroupSectors :: nat where "kGroupSectors = 8192"
definition kTopSectors :: nat where "kTopSectors = 3648"
definition kBottomSectors :: nat where "kBottomSectors = 4544"

lemmas geometry_defs = kGroupsPerZone_def kZoneSectors_def kGroupSectors_def kTopSectors_def
  kBottomSectors_def

record KVIMRTrackAllocator =
  zones :: nat
  top_owner :: "u64 list"
  bottom_owner :: "u64 list"
  top_cursor :: nat
  bottom_cursor :: nat

type_synonym Reservation = "KVIMRTrackType \<times> nat"

text \<open>The references \<open>owners\<close> and \<open>cursor\<close> that the sources bind to one tier's fields.\<close>

fun owners_of :: "KVIMRTrackType \<Rightarrow> KVIMRTrackAllocator \<Rightarrow> u64 list" where
  "owners_of TOP a = top_owner a"
| "owners_of BOTTOM a = bottom_owner a"

fun cursor_of :: "KVIMRTrackType \<Rightarrow> KVIMRTrackAllocator \<Rightarrow> nat" where
  "cursor_of TOP a = top_cursor a"
| "cursor_of BOTTOM a = bottom_cursor a"

fun set_owners :: "KVIMRTrackType \<Rightarrow> u64 list \<Rightarrow> KVIMRTrackAllocator \<Rightarrow> KVIMRTrackAllocator" where
  "set_owners TOP os a = a\<lparr>top_owner := os\<rparr>"
| "set_owners BOTTOM os a = a\<lparr>bottom_owner := os\<rparr>"

fun set_cursor :: "KVIMRTrackType \<Rightarrow> nat \<Rightarrow> KVIMRTrackAllocator \<Rightarrow> KVIMRTrackAllocator" where
  "set_cursor TOP c a = a\<lparr>top_cursor := c\<rparr>"
| "set_cursor BOTTOM c a = a\<lparr>bottom_cursor := c\<rparr>"

section \<open>Operations\<close>

definition TrackCount :: "nat \<Rightarrow> nat" where
  "TrackCount zone_count = zone_count * kGroupsPerZone"

definition Reset :: "nat \<Rightarrow> KVIMRTrackAllocator \<Rightarrow> KVIMRTrackAllocator" where
  "Reset zone_count a = a\<lparr>zones := zone_count,
     top_owner := replicate (TrackCount zone_count) 0,
     bottom_owner := replicate (TrackCount zone_count) 0,
     top_cursor := 0, bottom_cursor := 0\<rparr>"

definition new_allocator :: "nat \<Rightarrow> KVIMRTrackAllocator" where
  "new_allocator zone_count = Reset zone_count
     \<lparr>zones = 0, top_owner = [], bottom_owner = [], top_cursor = 0, bottom_cursor = 0\<rparr>"

fun track_sectors :: "KVIMRTrackType \<Rightarrow> nat" where
  "track_sectors TOP = kTopSectors"
| "track_sectors BOTTOM = kBottomSectors"

definition SegmentBytes :: "KVIMRTrackType \<Rightarrow> nat" where
  "SegmentBytes ty = track_sectors ty * 512"

definition TierFreeBytes :: "KVIMRTrackType \<Rightarrow> KVIMRTrackAllocator \<Rightarrow> nat" where
  "TierFreeBytes ty a = count_list (owners_of ty a) 0 * SegmentBytes ty"

definition SegmentAt :: "KVIMRTrackType \<Rightarrow> nat \<Rightarrow> KVIMRTrackSegment" where
  "SegmentAt ty index =
     (let zone = index div kGroupsPerZone; group = index mod kGroupsPerZone;
          group_start = zone * kZoneSectors + group * kGroupSectors
      in \<lparr>seg_zone = zone, seg_group = group, seg_type = ty,
          logical_sector_start = group_start + (if ty = TOP then 0 else kTopSectors),
          sector_length = (if ty = TOP then kTopSectors else kBottomSectors)\<rparr>)"

text \<open>
  \<open>ReserveNext\<close>: the first free track at or after the tier's cursor, wrapping around.
  \<open>None\<close> is the result \<open>false\<close>.
\<close>

definition ReserveNext ::
  "KVIMRTrackType \<Rightarrow> u64 \<Rightarrow> KVIMRTrackAllocator \<Rightarrow> KVIMRTrackSegment option \<times> KVIMRTrackAllocator" where
  "ReserveNext ty sstable_id a =
     (let owners = owners_of ty a; n = length owners; cursor = cursor_of ty a
      in if owners = [] then (None, a)
         else case find (\<lambda>index. owners ! index = 0) (map (\<lambda>step. (cursor + step) mod n) [0..<n]) of
             None \<Rightarrow> (None, a)
           | Some index \<Rightarrow>
               (Some (SegmentAt ty index),
                set_cursor ty ((index + 1) mod n) (set_owners ty (owners[index := sstable_id]) a)))"

definition Undo1 :: "u64 \<Rightarrow> Reservation \<Rightarrow> KVIMRTrackAllocator \<Rightarrow> KVIMRTrackAllocator" where
  "Undo1 sstable_id r a =
     (let owners = owners_of (fst r) a
      in if snd r < length owners \<and> owners ! snd r = sstable_id
         then set_owners (fst r) (owners[snd r := 0]) a else a)"

definition Undo :: "Reservation list \<Rightarrow> u64 \<Rightarrow> KVIMRTrackAllocator \<Rightarrow> KVIMRTrackAllocator" where
  "Undo reservations sstable_id a = fold (Undo1 sstable_id) reservations a"

definition seg_index :: "KVIMRTrackSegment \<Rightarrow> nat" where
  "seg_index segment = seg_zone segment * kGroupsPerZone + seg_group segment"

lemma SegmentBytes_pos [simp]: "0 < SegmentBytes ty"
  by (cases ty) (simp_all add: SegmentBytes_def geometry_defs)

lemma SegmentBytes_neq_0 [simp]: "SegmentBytes ty \<noteq> 0"
  using SegmentBytes_pos [of ty] by simp

text \<open>The locals of \<open>Allocate\<close> that its loops update.\<close>

record alloc_locals =
  al_remaining :: nat
  al_alloc :: KVIMRTrackAllocator
  al_segments :: "KVIMRTrackSegment list"
  al_reservations :: "Reservation list"

text \<open>The inner loop \<open>while (remaining > 0)\<close> for one tier.\<close>

function alloc_tier :: "u64 \<Rightarrow> bool \<Rightarrow> nat \<Rightarrow> KVIMRTrackType \<Rightarrow> alloc_locals \<Rightarrow> alloc_locals" where
  "alloc_tier sstable_id bottom_first tier_index ty l =
     (if al_remaining l = 0 then l
      else case ReserveNext ty sstable_id (al_alloc l) of
          (None, a) \<Rightarrow> l\<lparr>al_alloc := a\<rparr>
        | (Some segment, a) \<Rightarrow>
            (let capacity = SegmentBytes ty;
                 remaining = (if al_remaining l > capacity then al_remaining l - capacity else 0);
                 l' = l\<lparr>al_remaining := remaining, al_alloc := a,
                        al_segments := al_segments l @ [segment],
                        al_reservations := al_reservations l @ [(ty, seg_index segment)]\<rparr>
             in if tier_index = 0 \<and> bottom_first \<and> remaining > 0 \<and> TierFreeBytes ty a = 0 then l'
                else if \<not> bottom_first \<and> remaining = 0 then l'
                else alloc_tier sstable_id bottom_first tier_index ty l'))"
  by pat_completeness auto
termination
  by (relation "measure (\<lambda>(_, _, _, _, l). al_remaining l)") auto

declare alloc_tier.simps [simp del]

text \<open>The outer loop over the tiers.\<close>

fun alloc_tiers :: "u64 \<Rightarrow> bool \<Rightarrow> nat \<Rightarrow> KVIMRTrackType list \<Rightarrow> alloc_locals \<Rightarrow> alloc_locals" where
  "alloc_tiers sstable_id bottom_first tier_index [] l = l"
| "alloc_tiers sstable_id bottom_first tier_index (ty # tys) l =
     (if al_remaining l > 0
      then alloc_tiers sstable_id bottom_first (tier_index + 1) tys
             (alloc_tier sstable_id bottom_first tier_index ty l)
      else l)"

definition Allocate ::
  "u64 \<Rightarrow> nat \<Rightarrow> int \<Rightarrow> int \<Rightarrow> KVIMRTrackAllocator
    \<Rightarrow> Status \<times> KVIMRTrackSegment list \<times> KVIMRTrackAllocator" where
  "Allocate sstable_id bytes level effective_largest_level a =
     (if sstable_id = 0 \<or> bytes = 0
      then (InvalidArgument ''invalid KVIMR allocation request'', [], a)
      else
        let bottom_first = (level = effective_largest_level);
            available = TierFreeBytes TOP a + (if bottom_first then TierFreeBytes BOTTOM a else 0)
        in if bytes > available
           then (IOError ''insufficient KVIMR track capacity'', [], a)
           else
             let tiers = (if bottom_first then [BOTTOM, TOP] else [TOP]);
                 l = alloc_tiers sstable_id bottom_first 0 tiers
                       \<lparr>al_remaining = bytes, al_alloc = a, al_segments = [], al_reservations = []\<rparr>
             in if al_remaining l \<noteq> 0
                then (IOError ''insufficient KVIMR track capacity'', [],
                      Undo (al_reservations l) sstable_id (al_alloc l))
                else (OK, al_segments l, al_alloc l))"

definition Release :: "u64 \<Rightarrow> KVIMRTrackAllocator \<Rightarrow> Status \<times> KVIMRTrackAllocator" where
  "Release sstable_id a =
     (if sstable_id = 0 then (InvalidArgument ''invalid KVIMR SSTable ID'', a)
      else
        let free = map (\<lambda>owner. if owner = sstable_id then 0 else owner);
            found = (sstable_id \<in> set (top_owner a) \<or> sstable_id \<in> set (bottom_owner a))
        in (if found then OK else NotFound ''KVIMR allocation not found'',
            a\<lparr>top_owner := free (top_owner a), bottom_owner := free (bottom_owner a)\<rparr>))"

text \<open>The loop of \<open>Restore\<close>; the last component carries \<open>top_last\<close> and \<open>bottom_last\<close>.\<close>

fun restore_loop ::
  "u64 \<Rightarrow> KVIMRTrackSegment list \<Rightarrow> Reservation list \<Rightarrow> nat \<times> nat \<Rightarrow> KVIMRTrackAllocator
    \<Rightarrow> Status \<times> (nat \<times> nat) \<times> KVIMRTrackAllocator" where
  "restore_loop sstable_id [] reservations lasts a = (OK, lasts, a)"
| "restore_loop sstable_id (segment # segments) reservations lasts a =
     (if seg_zone segment \<ge> zones a \<or> seg_group segment \<ge> kGroupsPerZone
      then (InvalidArgument ''invalid KVIMR track geometry'', lasts, a)
      else
        let top = (seg_type segment = TOP);
            expected_start = seg_zone segment * kZoneSectors + seg_group segment * kGroupSectors +
              (if top then 0 else kTopSectors);
            expected_length = (if top then kTopSectors else kBottomSectors)
        in if logical_sector_start segment \<noteq> expected_start \<or> sector_length segment \<noteq> expected_length
           then (InvalidArgument ''invalid KVIMR track segment'', lasts, a)
           else
             let ty = (if top then TOP else BOTTOM); owners = owners_of ty a;
                 index = seg_index segment
             in if owners ! index \<noteq> 0
                then (IOError ''KVIMR track already owned'', lasts, Undo reservations sstable_id a)
                else restore_loop sstable_id segments (reservations @ [(ty, index)])
                       (if top then ((index + 1) mod length (top_owner a), snd lasts)
                        else (fst lasts, (index + 1) mod length (bottom_owner a)))
                       (set_owners ty (owners[index := sstable_id]) a))"

definition Restore ::
  "u64 \<Rightarrow> KVIMRTrackSegment list \<Rightarrow> KVIMRTrackAllocator \<Rightarrow> Status \<times> KVIMRTrackAllocator" where
  "Restore sstable_id segments a =
     (if sstable_id = 0 \<or> segments = []
      then (InvalidArgument ''invalid KVIMR restore request'', a)
      else if top_owner a = [] \<or> bottom_owner a = []
      then (InvalidArgument ''KVIMR allocator has no tracks'', a)
      else case restore_loop sstable_id segments [] (top_cursor a, bottom_cursor a) a of
          (OK, lasts, a') \<Rightarrow> (OK, a'\<lparr>top_cursor := fst lasts, bottom_cursor := snd lasts\<rparr>)
        | (err, _, a') \<Rightarrow> (err, a'))"

section \<open>Invariant and ownership\<close>

definition tier_ok :: "KVIMRTrackType \<Rightarrow> KVIMRTrackAllocator \<Rightarrow> bool" where
  "tier_ok ty a \<longleftrightarrow> length (owners_of ty a) = TrackCount (zones a) \<and>
     (owners_of ty a = [] \<or> cursor_of ty a < length (owners_of ty a))"

definition allocator_ok :: "KVIMRTrackAllocator \<Rightarrow> bool" where
  "allocator_ok a \<longleftrightarrow> tier_ok TOP a \<and> tier_ok BOTTOM a"

text \<open>The tracks an SSTable owns.\<close>

definition track_set :: "KVIMRTrackAllocator \<Rightarrow> (KVIMRTrackType \<times> nat) set" where
  "track_set a = {t. snd t < length (owners_of (fst t) a)}"

definition owner_of :: "KVIMRTrackAllocator \<Rightarrow> KVIMRTrackType \<times> nat \<Rightarrow> u64" where
  "owner_of a t = owners_of (fst t) a ! snd t"

definition owned :: "KVIMRTrackAllocator \<Rightarrow> u64 \<Rightarrow> (KVIMRTrackType \<times> nat) set" where
  "owned a sid = {t \<in> track_set a. owner_of a t = sid}"

fun other_tier :: "KVIMRTrackType \<Rightarrow> KVIMRTrackType" where
  "other_tier TOP = BOTTOM"
| "other_tier BOTTOM = TOP"

lemma allocator_okI: "(\<And>ty. tier_ok ty a) \<Longrightarrow> allocator_ok a"
  by (simp add: allocator_ok_def)

lemma allocator_okD: "allocator_ok a \<Longrightarrow> tier_ok ty a"
  by (cases ty) (simp_all add: allocator_ok_def)

lemma tier_access [simp]:
  "owners_of ty (set_owners ty os a) = os"
  "owners_of ty (set_cursor ty' c a) = owners_of ty a"
  "cursor_of ty (set_cursor ty c a) = c"
  "cursor_of ty (set_owners ty' os a) = cursor_of ty a"
  "zones (set_owners ty os a) = zones a"
  "zones (set_cursor ty c a) = zones a"
  "ty' \<noteq> ty \<Longrightarrow> owners_of ty' (set_owners ty os a) = owners_of ty' a"
  "ty' \<noteq> ty \<Longrightarrow> cursor_of ty' (set_cursor ty c a) = cursor_of ty' a"
  by (cases ty; cases ty'; simp)+

lemma tier_ok_set_owners [intro]:
  "tier_ok ty' a \<Longrightarrow> length os = length (owners_of ty a) \<Longrightarrow> tier_ok ty' (set_owners ty os a)"
  by (cases "ty' = ty") (auto simp: tier_ok_def)

lemma tier_ok_set_cursor [intro]:
  "tier_ok ty' a \<Longrightarrow> c < length (owners_of ty a) \<Longrightarrow> tier_ok ty' (set_cursor ty c a)"
  by (cases "ty' = ty") (auto simp: tier_ok_def)

lemma Reset_ok [simp]: "allocator_ok (Reset z a)"
  by (auto simp: allocator_ok_def tier_ok_def Reset_def)

lemma owners_of_Reset [simp]: "owners_of ty (Reset z a) = replicate (TrackCount z) 0"
  by (cases ty) (simp_all add: Reset_def)

lemma zones_Reset [simp]: "zones (Reset z a) = z"
  by (simp add: Reset_def)

section \<open>One reservation\<close>

text \<open>\<open>grabbed sid ty idxs a a'\<close>: from \<open>a\<close> to \<open>a'\<close> exactly the tracks \<open>idxs\<close> of tier \<open>ty\<close>
  were handed to \<open>sid\<close>.\<close>

definition grabbed ::
  "u64 \<Rightarrow> KVIMRTrackType \<Rightarrow> nat list \<Rightarrow> KVIMRTrackAllocator \<Rightarrow> KVIMRTrackAllocator \<Rightarrow> bool" where
  "grabbed sid ty idxs a a' \<longleftrightarrow>
     zones a' = zones a \<and> owners_of (other_tier ty) a' = owners_of (other_tier ty) a \<and>
     cursor_of (other_tier ty) a' = cursor_of (other_tier ty) a \<and>
     length (owners_of ty a') = length (owners_of ty a) \<and>
     distinct idxs \<and> (\<forall>i \<in> set idxs. i < length (owners_of ty a) \<and> owners_of ty a ! i = 0) \<and>
     (\<forall>i < length (owners_of ty a).
        owners_of ty a' ! i = (if i \<in> set idxs then sid else owners_of ty a ! i))"

lemma other_tier_neq [simp]: "other_tier ty \<noteq> ty" "ty \<noteq> other_tier ty"
  by (cases ty; simp)+

lemma grabbed_Nil [simp]: "grabbed sid ty [] a a"
  by (simp add: grabbed_def)

lemma grabbed_trans:
  assumes "sid \<noteq> 0" "grabbed sid ty xs a a'" "grabbed sid ty ys a' a''"
  shows "grabbed sid ty (xs @ ys) a a''"
  using assms unfolding grabbed_def by (auto split: if_splits)

lemma rotation_covers:
  fixes i n c :: nat
  assumes "i < n"
  shows "i \<in> (\<lambda>step. (c + step) mod n) ` {0..<n}"
proof -
  define s where "s = (i + n - c mod n) mod n"
  have "c mod n < n" using assms by simp
  then have "(c + s) mod n = (c mod n + (i + n - c mod n)) mod n"
    unfolding s_def by (metis mod_add_left_eq mod_add_right_eq)
  also have "c mod n + (i + n - c mod n) = i + n"
    using \<open>c mod n < n\<close> by linarith
  also have "(i + n) mod n = i" using assms by simp
  finally have "(c + s) mod n = i" .
  moreover have "s < n" using assms by (simp add: s_def)
  ultimately show ?thesis by force
qed

lemma ReserveNext_None:
  "ReserveNext ty sid a = (None, a') \<Longrightarrow> a' = a \<and> 0 \<notin> set (owners_of ty a)"
proof -
  assume r: "ReserveNext ty sid a = (None, a')"
  let ?n = "length (owners_of ty a)"
  from r have a': "a' = a" and
    no: "owners_of ty a \<noteq> [] \<Longrightarrow> \<forall>step < ?n. owners_of ty a ! ((cursor_of ty a + step) mod ?n) \<noteq> 0"
    by (auto simp: ReserveNext_def Let_def find_None_iff split: if_splits option.splits)
  have "owners_of ty a ! i \<noteq> 0" if "i < ?n" for i
    using rotation_covers [OF that, of "cursor_of ty a"] that no by fastforce
  then show ?thesis using a' by (auto simp: in_set_conv_nth)
qed

lemma ReserveNext_Some:
  assumes "ReserveNext ty sid a = (Some segment, a')"
  obtains i where "segment = SegmentAt ty i" "grabbed sid ty [i] a a'"
    "cursor_of ty a' < length (owners_of ty a)"
proof -
  let ?n = "length (owners_of ty a)"
  from assms obtain i where
    f: "find (\<lambda>index. owners_of ty a ! index = 0)
          (map (\<lambda>step. (cursor_of ty a + step) mod ?n) [0..<?n]) = Some i"
    and ne: "owners_of ty a \<noteq> []" and seg: "segment = SegmentAt ty i"
    and a': "a' = set_cursor ty ((i + 1) mod ?n) (set_owners ty ((owners_of ty a)[i := sid]) a)"
    by (auto simp: ReserveNext_def Let_def split: if_splits option.splits)
  from f ne have i: "i < ?n" "owners_of ty a ! i = 0"
    by (auto simp: find_Some_iff)
  have "grabbed sid ty [i] a a'"
    using i by (auto simp: grabbed_def a' nth_list_update)
  moreover have "cursor_of ty a' < ?n"
    using ne by (simp add: a')
  ultimately show thesis using that seg by blast
qed

lemma ReserveNext_ok: "tier_ok ty' a \<Longrightarrow> ReserveNext ty sid a = (r, a') \<Longrightarrow> tier_ok ty' a'"
  by (auto simp: ReserveNext_def Let_def split: if_splits option.splits
      intro!: tier_ok_set_cursor tier_ok_set_owners)

section \<open>The allocation loops\<close>

lemma TierFreeBytes_0: "TierFreeBytes ty a = 0 \<longleftrightarrow> 0 \<notin> set (owners_of ty a)"
  by (simp add: TierFreeBytes_def count_list_0_iff)

lemma seg_index_SegmentAt [simp]: "seg_index (SegmentAt ty i) = i"
  by (simp add: seg_index_def SegmentAt_def Let_def)

text \<open>What the inner loop does for one tier: the reserved tracks, how much of the request is
  left, and why it stopped.\<close>

definition tier_result :: "u64 \<Rightarrow> KVIMRTrackType \<Rightarrow> nat list \<Rightarrow> alloc_locals \<Rightarrow> alloc_locals \<Rightarrow> bool" where
  "tier_result sid ty idxs l l' \<longleftrightarrow>
     grabbed sid ty idxs (al_alloc l) (al_alloc l') \<and>
     al_segments l' = al_segments l @ map (SegmentAt ty) idxs \<and>
     al_reservations l' = al_reservations l @ map (Pair ty) idxs \<and>
     al_remaining l' = al_remaining l - length idxs * SegmentBytes ty \<and>
     (idxs \<noteq> [] \<longrightarrow> (length idxs - 1) * SegmentBytes ty < al_remaining l) \<and>
     (al_remaining l' > 0 \<longrightarrow> 0 \<notin> set (owners_of ty (al_alloc l')))"

lemma tier_result_stop:
  assumes "al_remaining l' = al_remaining l - SegmentBytes ty" "0 < al_remaining l"
    "grabbed sid ty [i] (al_alloc l) (al_alloc l')"
    "al_segments l' = al_segments l @ [SegmentAt ty i]"
    "al_reservations l' = al_reservations l @ [(ty, i)]"
    "0 < al_remaining l' \<Longrightarrow> 0 \<notin> set (owners_of ty (al_alloc l'))"
  shows "tier_result sid ty [i] l l'"
  using assms by (auto simp: tier_result_def)

lemma tier_result_step:
  assumes "sid \<noteq> 0" "al_remaining l' = al_remaining l - SegmentBytes ty" "0 < al_remaining l"
    "grabbed sid ty [i] (al_alloc l) (al_alloc l')"
    "al_segments l' = al_segments l @ [SegmentAt ty i]"
    "al_reservations l' = al_reservations l @ [(ty, i)]"
    "tier_result sid ty idxs l' l''"
  shows "tier_result sid ty (i # idxs) l l''"
  using assms grabbed_trans [of sid ty "[i]" "al_alloc l" "al_alloc l'" idxs "al_alloc l''"]
  by (cases idxs) (auto simp: tier_result_def)

lemma alloc_tier_result:
  assumes "sid \<noteq> 0"
  shows "\<exists>idxs. tier_result sid ty idxs l (alloc_tier sid bf k ty l)"
  using assms
proof (induction sid bf k ty l rule: alloc_tier.induct)
  case (1 sid bf k ty l)
  consider (enough) "al_remaining l = 0"
    | (full) a where "0 < al_remaining l" "ReserveNext ty sid (al_alloc l) = (None, a)"
    | (more) segment a where "0 < al_remaining l"
        "ReserveNext ty sid (al_alloc l) = (Some segment, a)"
    by (cases "ReserveNext ty sid (al_alloc l)"; cases "fst (ReserveNext ty sid (al_alloc l))") auto
  then show ?case
  proof cases
    case enough
    then have "tier_result sid ty [] l (alloc_tier sid bf k ty l)"
      by (simp add: alloc_tier.simps [of sid bf k ty l] tier_result_def)
    then show ?thesis ..
  next
    case full
    then have "tier_result sid ty [] l (alloc_tier sid bf k ty l)"
      by (auto simp: alloc_tier.simps [of sid bf k ty l] tier_result_def dest: ReserveNext_None)
    then show ?thesis ..
  next
    case more
    from ReserveNext_Some [OF more(2)] obtain i where
      seg: "segment = SegmentAt ty i" and g: "grabbed sid ty [i] (al_alloc l) a" by metis
    define r where "r = (if al_remaining l > SegmentBytes ty then al_remaining l - SegmentBytes ty else 0)"
    define l' where "l' = l\<lparr>al_remaining := r, al_alloc := a,
        al_segments := al_segments l @ [segment],
        al_reservations := al_reservations l @ [(ty, seg_index segment)]\<rparr>"
    let ?stop = "k = 0 \<and> bf \<and> r > 0 \<and> TierFreeBytes ty a = 0 \<or> \<not> bf \<and> r = 0"
    have eq: "alloc_tier sid bf k ty l = (if ?stop then l' else alloc_tier sid bf k ty l')"
      using more by (auto simp: alloc_tier.simps [of sid bf k ty l] l'_def r_def Let_def)
    have l': "al_remaining l' = al_remaining l - SegmentBytes ty"
      "grabbed sid ty [i] (al_alloc l) (al_alloc l')"
      "al_segments l' = al_segments l @ [SegmentAt ty i]"
      "al_reservations l' = al_reservations l @ [(ty, i)]"
      using g by (auto simp: l'_def r_def seg)
    show ?thesis
    proof (cases ?stop)
      case True
      then have "tier_result sid ty [i] l l'"
        using l' more(1) by (intro tier_result_stop) (auto simp: l'_def TierFreeBytes_0)
      with True show ?thesis by (auto simp: eq)
    next
      case False
      have "\<exists>idxs. tier_result sid ty idxs l' (alloc_tier sid bf k ty l')"
        using "1" more False by (auto simp: l'_def r_def Let_def)
      with False show ?thesis
        using tier_result_step [OF "1.prems" l'(1) more(1) l'(2-4)] by (auto simp: eq)
    qed
  qed
qed

section \<open>Free space accounting\<close>

definition free_tracks :: "KVIMRTrackType \<Rightarrow> KVIMRTrackAllocator \<Rightarrow> nat set" where
  "free_tracks ty a = {i. i < length (owners_of ty a) \<and> owners_of ty a ! i = 0}"

lemma finite_free_tracks [simp]: "finite (free_tracks ty a)"
  by (simp add: free_tracks_def)

lemma TierFreeBytes_card: "TierFreeBytes ty a = card (free_tracks ty a) * SegmentBytes ty"
proof -
  have "{i. i < length (owners_of ty a) \<and> 0 = owners_of ty a ! i} = free_tracks ty a"
    by (auto simp: free_tracks_def)
  then show ?thesis
    by (simp add: TierFreeBytes_def count_list_eq_length_filter length_filter_conv_card)
qed

lemma no_free_tracks: "0 \<notin> set (owners_of ty a) \<longleftrightarrow> free_tracks ty a = {}"
  by (auto simp: free_tracks_def in_set_conv_nth)

lemma grabbed_free:
  assumes "sid \<noteq> 0" "grabbed sid ty idxs a a'"
  shows "set idxs \<subseteq> free_tracks ty a" "free_tracks ty a' = free_tracks ty a - set idxs"
    "card (free_tracks ty a) = card (free_tracks ty a') + length idxs"
proof -
  show sub: "set idxs \<subseteq> free_tracks ty a" and eq: "free_tracks ty a' = free_tracks ty a - set idxs"
    using assms by (auto simp: grabbed_def free_tracks_def split: if_splits)
  have "card (free_tracks ty a') = card (free_tracks ty a) - card (set idxs)"
    using sub by (simp add: eq card_Diff_subset)
  moreover have "card (set idxs) \<le> card (free_tracks ty a)"
    using sub by (simp add: card_mono)
  moreover have "card (set idxs) = length idxs"
    using assms by (simp add: grabbed_def distinct_card)
  ultimately show "card (free_tracks ty a) = card (free_tracks ty a') + length idxs"
    by simp
qed

lemma grabbed_free_other: "grabbed sid ty idxs a a' \<Longrightarrow> free_tracks (other_tier ty) a' = free_tracks (other_tier ty) a"
  by (simp add: grabbed_def free_tracks_def)

lemma grabbed_tier_ok: 
  assumes "grabbed sid ty idxs a a'" "cursor_of ty a' < length (owners_of ty a) \<or> owners_of ty a = []"
    "allocator_ok a"
  shows "allocator_ok a'"
proof (rule allocator_okI)
  fix ty'
  show "tier_ok ty' a'"
    using assms allocator_okD [OF assms(3), of ty'] 
    by (cases ty; cases ty') (auto simp: grabbed_def tier_ok_def)
qed

lemma tier_result_exhausts:
  assumes "sid \<noteq> 0" "tier_result sid ty idxs l l'" "0 < al_remaining l'"
  shows "al_remaining l' = al_remaining l - TierFreeBytes ty (al_alloc l)"
    "free_tracks ty (al_alloc l') = {}"
proof -
  from assms have "free_tracks ty (al_alloc l') = {}"
    by (simp add: tier_result_def no_free_tracks)
  moreover from this have "length idxs = card (free_tracks ty (al_alloc l))"
    using grabbed_free(3) [OF assms(1), of ty idxs "al_alloc l" "al_alloc l'"] assms(2)
    by (simp add: tier_result_def)
  ultimately show "al_remaining l' = al_remaining l - TierFreeBytes ty (al_alloc l)"
    "free_tracks ty (al_alloc l') = {}"
    using assms(2) by (simp_all add: tier_result_def TierFreeBytes_card)
qed

lemma alloc_tier_ok: "allocator_ok (al_alloc l) \<Longrightarrow> allocator_ok (al_alloc (alloc_tier sid bf k ty l))"
proof (induction sid bf k ty l rule: alloc_tier.induct)
  case (1 sid bf k ty l)
  obtain r a where r: "ReserveNext ty sid (al_alloc l) = (r, a)"
    by (cases "ReserveNext ty sid (al_alloc l)")
  have a: "allocator_ok a"
    using ReserveNext_ok [OF allocator_okD [OF "1.prems"] r] by (rule allocator_okI)
  show ?case
    using "1" a r by (cases r) (auto simp: alloc_tier.simps [of sid bf k ty l] Let_def)
qed

section \<open>Allocate, Release and Restore as a whole\<close>

definition tier_bytes :: "nat list \<Rightarrow> nat list \<Rightarrow> nat" where
  "tier_bytes bs ts = length bs * SegmentBytes BOTTOM + length ts * SegmentBytes TOP"

text \<open>The space an allocation may use: the TOP tier, and for the largest level BOTTOM too.\<close>

definition available_bytes :: "int \<Rightarrow> int \<Rightarrow> KVIMRTrackAllocator \<Rightarrow> nat" where
  "available_bytes level largest a =
     TierFreeBytes TOP a + (if level = largest then TierFreeBytes BOTTOM a else 0)"

lemma Allocate_top_only:
  assumes "sid \<noteq> 0" "bytes \<noteq> 0" "level \<noteq> largest" "bytes \<le> TierFreeBytes TOP a"
  obtains ts a' where "Allocate sid bytes level largest a = (OK, map (SegmentAt TOP) ts, a')"
    "grabbed sid TOP ts a a'" "bytes \<le> length ts * SegmentBytes TOP"
    "(length ts - 1) * SegmentBytes TOP < bytes"
proof -
  let ?l = "\<lparr>al_remaining = bytes, al_alloc = a, al_segments = [], al_reservations = []\<rparr>"
  let ?l' = "alloc_tier sid False 0 TOP ?l"
  obtain ts where r: "tier_result sid TOP ts ?l ?l'"
    using alloc_tier_result [OF assms(1)] by blast
  have rem: "al_remaining ?l' = 0"
    using tier_result_exhausts(1) [OF assms(1) r] assms(4) by fastforce
  then have "ts \<noteq> []" "bytes \<le> length ts * SegmentBytes TOP"
    using r assms(2) by (auto simp: tier_result_def)
  then show thesis
    using r rem assms by (intro that [of ts "al_alloc ?l'"]) (auto simp: Allocate_def tier_result_def)
qed

lemma Allocate_bottom_first:
  assumes "sid \<noteq> 0" "bytes \<noteq> 0" "bytes \<le> TierFreeBytes TOP a + TierFreeBytes BOTTOM a"
  obtains bs ts a1 a' where
    "Allocate sid bytes level level a = (OK, map (SegmentAt BOTTOM) bs @ map (SegmentAt TOP) ts, a')"
    "grabbed sid BOTTOM bs a a1" "grabbed sid TOP ts a1 a'"
    "bytes \<le> tier_bytes bs ts"
    "ts = [] \<longrightarrow> (length bs - 1) * SegmentBytes BOTTOM < bytes"
    "ts \<noteq> [] \<longrightarrow> free_tracks BOTTOM a' = {} \<and> tier_bytes bs (tl ts) < bytes"
proof -
  define l where "l = \<lparr>al_remaining = bytes, al_alloc = a, al_segments = [], al_reservations = []\<rparr>"
  define l1 where "l1 = alloc_tier sid True 0 BOTTOM l"
  define l2 where "l2 = alloc_tier sid True 1 TOP l1"
  obtain bs where r1: "tier_result sid BOTTOM bs l l1"
    using alloc_tier_result [OF assms(1)] unfolding l1_def by blast
  have alloc: "Allocate sid bytes level level a =
      (if al_remaining l1 = 0 then (OK, al_segments l1, al_alloc l1)
       else if al_remaining l2 = 0 then (OK, al_segments l2, al_alloc l2)
       else (IOError ''insufficient KVIMR track capacity'', [],
             Undo (al_reservations l2) sid (al_alloc l2)))"
    using assms by (simp add: Allocate_def Let_def l_def l1_def l2_def)
  have g1: "grabbed sid BOTTOM bs a (al_alloc l1)" "al_segments l1 = map (SegmentAt BOTTOM) bs"
    "al_remaining l1 = bytes - length bs * SegmentBytes BOTTOM"
    "bs \<noteq> [] \<Longrightarrow> (length bs - 1) * SegmentBytes BOTTOM < bytes"
    using r1 by (auto simp: tier_result_def l_def)
  show thesis
  proof (cases "al_remaining l1 = 0")
    case True
    have min: "(length bs - 1) * SegmentBytes BOTTOM < bytes"
      using g1(4) assms(2) by (cases bs) auto
    show thesis
    proof (rule that [of bs "[]" "al_alloc l1" "al_alloc l1"])
      show "Allocate sid bytes level level a =
          (OK, map (SegmentAt BOTTOM) bs @ map (SegmentAt TOP) [], al_alloc l1)"
        using True by (simp add: alloc g1)
    qed (use True g1 min in \<open>auto simp: tier_bytes_def\<close>)
  next
    case False
    then have ex: "free_tracks BOTTOM (al_alloc l1) = {}"
      "al_remaining l1 = bytes - TierFreeBytes BOTTOM a"
      using tier_result_exhausts [OF assms(1) r1] by (auto simp: l_def)
    obtain ts where r2: "tier_result sid TOP ts l1 l2"
      using alloc_tier_result [OF assms(1)] unfolding l2_def by blast
    have g2: "grabbed sid TOP ts (al_alloc l1) (al_alloc l2)"
      "al_segments l2 = al_segments l1 @ map (SegmentAt TOP) ts"
      "al_remaining l2 = al_remaining l1 - length ts * SegmentBytes TOP"
      "ts \<noteq> [] \<Longrightarrow> (length ts - 1) * SegmentBytes TOP < al_remaining l1"
      using r2 by (auto simp: tier_result_def)
    have "TierFreeBytes TOP (al_alloc l1) = TierFreeBytes TOP a"
      using grabbed_free_other [OF g1(1)] by (simp add: TierFreeBytes_card)
    then have rem: "al_remaining l2 = 0"
      using tier_result_exhausts(1) [OF assms(1) r2] ex(2) assms(3) by fastforce
    have 1: "Allocate sid bytes level level a =
          (OK, map (SegmentAt BOTTOM) bs @ map (SegmentAt TOP) ts, al_alloc l2)"
      using False rem by (simp add: alloc g1 g2)
    have 2: "bytes \<le> tier_bytes bs ts"
      using rem g2(3) g1(3) by (simp add: tier_bytes_def)
    have 3: "ts \<noteq> [] \<longrightarrow> free_tracks BOTTOM (al_alloc l2) = {} \<and> tier_bytes bs (tl ts) < bytes"
      using grabbed_free_other [OF g2(1)] ex(1) g2(4) g1(3) by (auto simp: tier_bytes_def)
    have 4: "ts = [] \<longrightarrow> (length bs - 1) * SegmentBytes BOTTOM < bytes"
      using rem g2(3) False by auto
    show thesis
      by (rule that [OF 1 g1(1) g2(1) 2 4 3])
  qed
qed

subsection \<open>Ownership transfers\<close>

definition track_of :: "KVIMRTrackSegment \<Rightarrow> KVIMRTrackType \<times> nat" where
  "track_of segment = (seg_type segment, seg_index segment)"

definition segment_of :: "KVIMRTrackType \<times> nat \<Rightarrow> KVIMRTrackSegment" where
  "segment_of t = SegmentAt (fst t) (snd t)"

text \<open>\<open>gave sid ts a a'\<close>: the distinct free tracks \<open>ts\<close> went to \<open>sid\<close>, no other owner changed.\<close>

definition gave ::
  "u64 \<Rightarrow> (KVIMRTrackType \<times> nat) list \<Rightarrow> KVIMRTrackAllocator \<Rightarrow> KVIMRTrackAllocator \<Rightarrow> bool" where
  "gave sid ts a a' \<longleftrightarrow>
     zones a' = zones a \<and> (\<forall>ty. length (owners_of ty a') = length (owners_of ty a)) \<and>
     distinct ts \<and> set ts \<subseteq> owned a 0 \<and>
     (\<forall>t \<in> track_set a. owner_of a' t = (if t \<in> set ts then sid else owner_of a t))"

lemma gave_track_set: "gave sid ts a a' \<Longrightarrow> track_set a' = track_set a"
  by (simp add: gave_def track_set_def)

lemma track_of_SegmentAt [simp]: "track_of (SegmentAt ty i) = (ty, i)"
  by (simp add: track_of_def) (simp add: SegmentAt_def Let_def)

lemma track_of_segment_of [simp]: "track_of (segment_of t) = t"
  by (simp add: segment_of_def)

lemma other_tier_cases: "ty' = ty \<or> ty' = other_tier ty"
  by (cases ty; cases ty') auto

lemma grabbed_gave:
  assumes "grabbed sid ty idxs a a'"
  shows "gave sid (map (Pair ty) idxs) a a'"
proof -
  have len: "length (owners_of ty' a') = length (owners_of ty' a)" for ty'
    using assms other_tier_cases [of ty' ty] by (auto simp: grabbed_def)
  have "owner_of a' t = (if t \<in> set (map (Pair ty) idxs) then sid else owner_of a t)"
    if "t \<in> track_set a" for t
    using assms that other_tier_cases [of "fst t" ty]
    by (cases t) (auto simp: grabbed_def owner_of_def track_set_def)
  moreover have "set (map (Pair ty) idxs) \<subseteq> owned a 0" "distinct (map (Pair ty) idxs)" "zones a' = zones a"
    using assms by (auto simp: grabbed_def owned_def owner_of_def track_set_def distinct_map inj_on_def)
  ultimately show ?thesis
    using len by (simp add: gave_def)
qed

lemma gave_owned:
  assumes "sid \<noteq> 0" "gave sid ts a a'"
  shows "owned a' sid = owned a sid \<union> set ts"
    "x \<noteq> 0 \<Longrightarrow> x \<noteq> sid \<Longrightarrow> owned a' x = owned a x"
    "owned a' 0 = owned a 0 - set ts"
  using assms gave_track_set [OF assms(2)] by (auto simp: gave_def owned_def split: if_splits)

lemma gave_trans:
  assumes "sid \<noteq> 0" "gave sid xs a a'" "gave sid ys a' a''"
  shows "gave sid (xs @ ys) a a''"
proof -
  have "set ys \<subseteq> owned a 0 - set xs"
    using gave_owned(3) [OF assms(1,2)] assms(3) by (simp add: gave_def)
  then show ?thesis
    using assms gave_track_set [OF assms(2)] by (auto simp: gave_def)
qed

lemma owned_disjoint: "x \<noteq> y \<Longrightarrow> owned a x \<inter> owned a y = {}"
  by (auto simp: owned_def)

lemma Allocate_bottom_or_top:
  assumes "sid \<noteq> 0" "bytes \<noteq> 0" "bytes \<le> available_bytes level largest a"
  obtains ts a' where "Allocate sid bytes level largest a = (OK, map segment_of ts, a')"
    "gave sid ts a a'" "ts \<noteq> []" "bytes \<le> sum_list (map (SegmentBytes \<circ> fst) ts)"
proof (cases "level = largest")
  case True
  have le: "bytes \<le> TierFreeBytes TOP a + TierFreeBytes BOTTOM a"
    using assms(3) True by (simp add: available_bytes_def)
  obtain bs ts a1 a' where
    al: "Allocate sid bytes level level a = (OK, map (SegmentAt BOTTOM) bs @ map (SegmentAt TOP) ts, a')"
    and g: "grabbed sid BOTTOM bs a a1" "grabbed sid TOP ts a1 a'" and b: "bytes \<le> tier_bytes bs ts"
    by (rule Allocate_bottom_first [OF assms(1,2) le, of level]) blast
  let ?ts = "map (Pair BOTTOM) bs @ map (Pair TOP) ts"
  have "gave sid ?ts a a'"
    using gave_trans [OF assms(1) grabbed_gave [OF g(1)] grabbed_gave [OF g(2)]] .
  moreover have "map (SegmentAt BOTTOM) bs @ map (SegmentAt TOP) ts = map segment_of ?ts"
    by (simp add: segment_of_def)
  moreover have "sum_list (map (SegmentBytes \<circ> fst) ?ts) = tier_bytes bs ts"
    by (simp add: tier_bytes_def o_def sum_list_triv)
  ultimately show thesis
    using al b assms(2) True by (intro that [of ?ts a']) (auto simp: tier_bytes_def)
next
  case False
  have le: "bytes \<le> TierFreeBytes TOP a"
    using assms(3) False by (simp add: available_bytes_def)
  obtain ts a' where al: "Allocate sid bytes level largest a = (OK, map (SegmentAt TOP) ts, a')"
    and g: "grabbed sid TOP ts a a'" and b: "bytes \<le> length ts * SegmentBytes TOP"
    by (rule Allocate_top_only [OF assms(1,2) False le]) blast
  show thesis
    using al grabbed_gave [OF g] b assms(2)
    by (intro that [of "map (Pair TOP) ts" a']) (auto simp: segment_of_def o_def sum_list_triv)
qed

lemma Allocate_cases:
  obtains (invalid) "sid = 0 \<or> bytes = 0"
      "Allocate sid bytes level largest a = (InvalidArgument ''invalid KVIMR allocation request'', [], a)"
  | (nospace) "sid \<noteq> 0" "bytes \<noteq> 0" "bytes > available_bytes level largest a"
      "Allocate sid bytes level largest a = (IOError ''insufficient KVIMR track capacity'', [], a)"
  | (granted) ts a' where "sid \<noteq> 0" "bytes \<noteq> 0" "bytes \<le> available_bytes level largest a"
      "Allocate sid bytes level largest a = (OK, map segment_of ts, a')"
      "gave sid ts a a'" "ts \<noteq> []" "bytes \<le> sum_list (map (SegmentBytes \<circ> fst) ts)"
proof (cases "sid = 0 \<or> bytes = 0")
  case True
  with invalid show thesis by (auto simp: Allocate_def)
next
  case ok: False
  show thesis
  proof (cases "bytes \<le> available_bytes level largest a")
    case True
    from ok have pos: "sid \<noteq> 0" "bytes \<noteq> 0" by auto
    show thesis
      by (rule Allocate_bottom_or_top [OF pos True]) (rule granted [OF pos True])
  next
    case False
    with ok nospace show thesis by (auto simp: Allocate_def available_bytes_def Let_def)
  qed
qed

subsection \<open>The invariant is kept\<close>

lemma Undo1_ok: "allocator_ok a \<Longrightarrow> allocator_ok (Undo1 sid r a)"
  by (rule allocator_okI) (auto simp: Undo1_def Let_def dest: allocator_okD)

lemma Undo_ok: "allocator_ok a \<Longrightarrow> allocator_ok (Undo rs sid a)"
  by (induction rs arbitrary: a) (auto simp: Undo_def Undo1_ok)

lemma zones_Undo [simp]: "zones (Undo rs sid a) = zones a"
  by (induction rs arbitrary: a) (auto simp: Undo_def Undo1_def Let_def)

lemma alloc_tiers_ok: "allocator_ok (al_alloc l) \<Longrightarrow> allocator_ok (al_alloc (alloc_tiers sid bf k tys l))"
  by (induction sid bf k tys l rule: alloc_tiers.induct) (auto simp: alloc_tier_ok)

lemma Allocate_ok:
  assumes "allocator_ok a" "Allocate sid bytes level largest a = (s, segs, a')"
  shows "allocator_ok a'"
proof -
  define tiers where "tiers = (if level = largest then [BOTTOM, TOP] else [TOP])"
  define l where "l = alloc_tiers sid (level = largest) 0 tiers
    \<lparr>al_remaining = bytes, al_alloc = a, al_segments = [], al_reservations = []\<rparr>"
  have "allocator_ok (al_alloc l)"
    using assms(1) by (simp add: l_def alloc_tiers_ok)
  moreover have "a' = a \<or> a' = al_alloc l \<or> a' = Undo (al_reservations l) sid (al_alloc l)"
    using assms(2) unfolding Allocate_def Let_def l_def tiers_def by (auto split: if_splits)
  ultimately show ?thesis
    using assms(1) Undo_ok by blast
qed

lemma Release_ok: "allocator_ok a \<Longrightarrow> allocator_ok (snd (Release sid a))"
  by (auto simp: Release_def Let_def allocator_ok_def tier_ok_def)

lemma Release_owned:
  assumes "sid \<noteq> 0"
  shows "owned (snd (Release sid a)) sid = {}"
    "x \<noteq> 0 \<Longrightarrow> x \<noteq> sid \<Longrightarrow> owned (snd (Release sid a)) x = owned a x"
    "owned (snd (Release sid a)) 0 = owned a 0 \<union> owned a sid"
proof -
  have o: "owners_of ty (snd (Release sid a)) = map (\<lambda>w. if w = sid then 0 else w) (owners_of ty a)" for ty
    using assms by (cases ty) (simp_all add: Release_def Let_def)
  then have t: "track_set (snd (Release sid a)) = track_set a"
    by (simp add: track_set_def)
  have "owner_of (snd (Release sid a)) t = (if owner_of a t = sid then 0 else owner_of a t)"
    if "t \<in> track_set a" for t
    using that by (simp add: owner_of_def o track_set_def)
  then show "owned (snd (Release sid a)) sid = {}"
    "x \<noteq> 0 \<Longrightarrow> x \<noteq> sid \<Longrightarrow> owned (snd (Release sid a)) x = owned a x"
    "owned (snd (Release sid a)) 0 = owned a 0 \<union> owned a sid"
    using assms by (auto simp: owned_def t split: if_splits)
qed

lemma Release_zero [simp]: "snd (Release 0 a) = a"
  by (simp add: Release_def)

lemma ex_track_type: "(\<exists>ty. P ty) \<longleftrightarrow> P TOP \<or> P BOTTOM"
  by (metis KVIMRTrackType.exhaust)

lemma Release_status:
  "fst (Release sid a) = OK \<longleftrightarrow> sid \<noteq> 0 \<and> owned a sid \<noteq> {}"
proof -
  have "owned a sid \<noteq> {} \<longleftrightarrow> (\<exists>ty i. i < length (owners_of ty a) \<and> owners_of ty a ! i = sid)"
    by (auto simp: owned_def track_set_def owner_of_def)
  also have "\<dots> \<longleftrightarrow> sid \<in> set (top_owner a) \<or> sid \<in> set (bottom_owner a)"
    by (simp add: ex_track_type in_set_conv_nth)
  finally show ?thesis
    by (auto simp: Release_def Let_def)
qed

lemma zones_Release [simp]: "zones (snd (Release sid a)) = zones a"
  by (simp add: Release_def Let_def)

subsection \<open>Restore\<close>

definition valid_segment :: "nat \<Rightarrow> KVIMRTrackSegment \<Rightarrow> bool" where
  "valid_segment z segment \<longleftrightarrow>
     segment = segment_of (track_of segment) \<and> seg_index segment < TrackCount z"

lemma valid_segment_iff:
  "valid_segment z segment \<longleftrightarrow>
     seg_zone segment < z \<and> seg_group segment < kGroupsPerZone \<and>
     logical_sector_start segment = seg_zone segment * kZoneSectors + seg_group segment * kGroupSectors +
       (if seg_type segment = TOP then 0 else kTopSectors) \<and>
     sector_length segment = (if seg_type segment = TOP then kTopSectors else kBottomSectors)"
  (is "_ \<longleftrightarrow> ?R")
proof
  assume v: "valid_segment z segment"
  then obtain ty i where i: "segment = SegmentAt ty i" "i < TrackCount z"
    by (metis seg_index_SegmentAt segment_of_def valid_segment_def)
  then have "i div 64 < z"
    by (auto simp: TrackCount_def kGroupsPerZone_def intro!: less_mult_imp_div_less)
  then show ?R
    by (simp add: i(1) SegmentAt_def Let_def kGroupsPerZone_def)
next
  assume r: ?R
  then have "seg_index segment div kGroupsPerZone = seg_zone segment"
    "seg_index segment mod kGroupsPerZone = seg_group segment"
    by (simp_all add: seg_index_def)
  moreover have "seg_index segment < TrackCount z"
  proof -
    have "seg_index segment < (seg_zone segment + 1) * kGroupsPerZone"
      using r by (simp add: seg_index_def)
    also have "\<dots> \<le> TrackCount z"
      using r by (simp add: TrackCount_def Suc_leI del: mult_Suc)
    finally show ?thesis .
  qed
  ultimately show "valid_segment z segment"
    using r by (simp add: valid_segment_def segment_of_def track_of_def SegmentAt_def Let_def)
qed

lemma gave_one:
  assumes "i < length (owners_of ty a)" "owners_of ty a ! i = 0"
  shows "gave sid [(ty, i)] a (set_owners ty ((owners_of ty a)[i := sid]) a)"
proof -
  have "owners_of ty' (set_owners ty ((owners_of ty a)[i := sid]) a) =
      (if ty' = ty then (owners_of ty a)[i := sid] else owners_of ty' a)" for ty'
    by simp
  then show ?thesis
    using assms by (auto simp: gave_def owned_def track_set_def owner_of_def nth_list_update)
qed

lemma gave_Nil [simp]: "gave sid [] a a"
  by (simp add: gave_def)

definition lasts_ok :: "nat \<times> nat \<Rightarrow> KVIMRTrackAllocator \<Rightarrow> bool" where
  "lasts_ok lasts a \<longleftrightarrow> (top_owner a = [] \<or> fst lasts < length (top_owner a)) \<and>
     (bottom_owner a = [] \<or> snd lasts < length (bottom_owner a))"

text \<open>One turn of the loop for an acceptable segment.\<close>

lemma restore_loop_step:
  assumes "valid_segment (zones a) segment" "track_of segment \<in> owned a 0"
  obtains lasts' a' where "gave sid [track_of segment] a a'"
    "\<And>rs segments. restore_loop sid (segment # segments) rs lasts a =
       restore_loop sid segments (rs @ [track_of segment]) lasts' a'"
    "allocator_ok a \<Longrightarrow> allocator_ok a'" "lasts_ok lasts a \<Longrightarrow> lasts_ok lasts' a'"
proof -
  let ?ty = "seg_type segment" and ?i = "seg_index segment"
  have t: "track_of segment = (?ty, ?i)" by (simp add: track_of_def)
  have o: "?i < length (owners_of ?ty a)" "owners_of ?ty a ! ?i = 0"
    using assms(2) by (auto simp: t owned_def track_set_def owner_of_def)
  let ?a' = "set_owners ?ty ((owners_of ?ty a)[?i := sid]) a"
  let ?lasts = "if ?ty = TOP then ((?i + 1) mod length (top_owner a), snd lasts)
    else (fst lasts, (?i + 1) mod length (bottom_owner a))"
  have "?ty = (if ?ty = TOP then TOP else BOTTOM)" by (cases ?ty) auto
  then have "restore_loop sid (segment # segments) rs lasts a =
      restore_loop sid segments (rs @ [track_of segment]) ?lasts ?a'" for rs segments
    using assms(1) o unfolding valid_segment_iff by (simp add: Let_def t)
  moreover have "gave sid [track_of segment] a ?a'"
    using gave_one [OF o] by (simp add: t)
  moreover have "allocator_ok ?a'" if "allocator_ok a"
    using that by (intro allocator_okI) (auto dest: allocator_okD)
  moreover have "lasts_ok ?lasts ?a'" if "lasts_ok lasts a"
    using that o by (cases ?ty) (auto simp: lasts_ok_def intro: mod_less_divisor)
  ultimately show thesis using that by blast
qed

lemma restore_loop_reject:
  assumes "allocator_ok a" "\<not> (valid_segment (zones a) segment \<and> track_of segment \<in> owned a 0)"
  shows "fst (restore_loop sid (segment # segments) rs lasts a) \<noteq> OK"
proof -
  let ?ty = "if seg_type segment = TOP then TOP else BOTTOM"
  have ty: "?ty = seg_type segment" by (cases "seg_type segment") auto
  have "seg_index segment < length (owners_of (seg_type segment) a)"
    if "valid_segment (zones a) segment"
    using that allocator_okD [OF assms(1), of "seg_type segment"]
    by (simp add: valid_segment_def tier_ok_def)
  then have "owners_of ?ty a ! seg_index segment \<noteq> 0" if "valid_segment (zones a) segment"
    using assms(2) that unfolding ty by (auto simp: owned_def track_set_def owner_of_def track_of_def)
  then show ?thesis
    unfolding valid_segment_iff by (auto simp: Let_def)
qed

lemma restore_loop_OK:
  assumes "sid \<noteq> 0" "allocator_ok a" "lasts_ok lasts a"
    "restore_loop sid segments rs lasts a = (OK, lasts', a')"
  shows "gave sid (map track_of segments) a a' \<and> (\<forall>s \<in> set segments. valid_segment (zones a) s) \<and>
    allocator_ok a' \<and> lasts_ok lasts' a'"
  using assms(2-)
proof (induction segments arbitrary: rs lasts a)
  case (Cons segment segments)
  have acc: "valid_segment (zones a) segment" "track_of segment \<in> owned a 0"
    using restore_loop_reject [OF Cons.prems(1), of segment sid segments rs lasts] Cons.prems(3) by auto
  obtain lasts1 a1 where 1: "gave sid [track_of segment] a a1"
    "restore_loop sid (segment # segments) rs lasts a =
       restore_loop sid segments (rs @ [track_of segment]) lasts1 a1"
    "allocator_ok a1" "lasts_ok lasts1 a1"
    using restore_loop_step [OF acc, of sid lasts] Cons.prems(1,2) by metis
  have IH: "gave sid (map track_of segments) a1 a'" "\<forall>s \<in> set segments. valid_segment (zones a1) s"
    "allocator_ok a'" "lasts_ok lasts' a'"
    using Cons.IH [OF 1(3,4)] 1(2) Cons.prems(3) by auto
  moreover have "zones a1 = zones a" using 1(1) by (simp add: gave_def)
  ultimately show ?case
    using gave_trans [OF assms(1) 1(1) IH(1)] acc by simp
qed auto

lemma restore_loop_complete:
  assumes "sid \<noteq> 0" "\<forall>s \<in> set segments. valid_segment (zones a) s" "distinct (map track_of segments)"
    "track_of ` set segments \<subseteq> owned a 0"
  shows "fst (restore_loop sid segments rs lasts a) = OK"
  using assms(2-)
proof (induction segments arbitrary: rs lasts a)
  case (Cons segment segments)
  obtain lasts1 a1 where 1: "gave sid [track_of segment] a a1"
    "restore_loop sid (segment # segments) rs lasts a =
       restore_loop sid segments (rs @ [track_of segment]) lasts1 a1"
    using restore_loop_step [of a segment sid lasts] Cons.prems
    by (metis image_subset_iff list.set_intros(1))
  have "track_of ` set segments \<subseteq> owned a1 0"
    using gave_owned(3) [OF assms(1) 1(1)] Cons.prems by auto
  then show ?case
    using Cons.IH [of a1] Cons.prems 1 by (simp add: gave_def del: restore_loop.simps)
qed simp

lemma Restore_OK:
  assumes "allocator_ok a" "Restore sid segments a = (OK, a')"
  shows "gave sid (map track_of segments) a a'" "\<forall>s \<in> set segments. valid_segment (zones a) s"
    "allocator_ok a'" "sid \<noteq> 0" "segments \<noteq> []"
proof -
  obtain s lasts a1 where r: "restore_loop sid segments [] (top_cursor a, bottom_cursor a) a = (s, lasts, a1)"
    by (cases "restore_loop sid segments [] (top_cursor a, bottom_cursor a) a") auto
  from assms(2) r show sid: "sid \<noteq> 0" "segments \<noteq> []"
    by (auto simp: Restore_def split: if_splits)
  from assms(2) r sid have s: "s = OK" and a': "a' = a1\<lparr>top_cursor := fst lasts, bottom_cursor := snd lasts\<rparr>"
    by (auto simp: Restore_def split: if_splits Status.splits)
  have o: "owners_of ty a' = owners_of ty a1" for ty
    by (cases ty) (simp_all add: a')
  have "lasts_ok (top_cursor a, bottom_cursor a) a"
    using assms(1) by (auto simp: lasts_ok_def allocator_ok_def tier_ok_def)
  from restore_loop_OK [OF sid(1) assms(1) this r [unfolded s]]
  have 1: "gave sid (map track_of segments) a a1" "\<forall>s \<in> set segments. valid_segment (zones a) s"
    "allocator_ok a1" "lasts_ok lasts a1" by auto
  then show "gave sid (map track_of segments) a a'" "\<forall>s \<in> set segments. valid_segment (zones a) s"
    by (simp_all add: gave_def owner_of_def o) (simp add: a')
  show "allocator_ok a'"
    using 1(3,4) by (auto simp: allocator_ok_def tier_ok_def lasts_ok_def a')
qed

lemma Restore_complete:
  assumes "allocator_ok a" "sid \<noteq> 0" "segments \<noteq> []" "\<forall>s \<in> set segments. valid_segment (zones a) s"
    "distinct (map track_of segments)" "track_of ` set segments \<subseteq> owned a 0"
  obtains a' where "Restore sid segments a = (OK, a')"
proof -
  have "TrackCount (zones a) > 0"
    using assms(3,4) by (cases segments) (auto simp: valid_segment_def)
  then have "top_owner a \<noteq> []" "bottom_owner a \<noteq> []"
    using assms(1) by (auto simp: allocator_ok_def tier_ok_def)
  then show thesis
    using that restore_loop_complete [OF assms(2,4-6), of "[]" "(top_cursor a, bottom_cursor a)"] assms(2,3)
    by (cases "restore_loop sid segments [] (top_cursor a, bottom_cursor a) a") (auto simp: Restore_def)
qed

section \<open>Geometry\<close>

text \<open>A segment as the half-open range of device bytes it stands for.\<close>

definition segment_base :: "KVIMRTrackSegment \<Rightarrow> nat" where
  "segment_base segment = logical_sector_start segment * 512"

definition segment_bytes :: "KVIMRTrackSegment \<Rightarrow> nat" where
  "segment_bytes segment = sector_length segment * 512"

definition segment_range :: "KVIMRTrackSegment \<Rightarrow> nat set" where
  "segment_range segment = {segment_base segment..<segment_base segment + segment_bytes segment}"

lemma SegmentAt_start:
  "logical_sector_start (SegmentAt ty i) = i * 8192 + (if ty = TOP then 0 else 3648)"
  "sector_length (SegmentAt ty i) = (if ty = TOP then 3648 else 4544)"
proof -
  have "i div 64 * 524288 + i mod 64 * 8192 = (i div 64 * 64 + i mod 64) * 8192"
    by (simp only: add_mult_distrib mult.assoc)
  then have "i div 64 * 524288 + i mod 64 * 8192 = i * 8192"
    by (simp only: div_mult_mod_eq)
  then show "logical_sector_start (SegmentAt ty i) = i * 8192 + (if ty = TOP then 0 else 3648)"
    "sector_length (SegmentAt ty i) = (if ty = TOP then 3648 else 4544)"
    by (simp_all add: SegmentAt_def Let_def geometry_defs)
qed

lemma seg_type_segment_of [simp]: "seg_type (segment_of t) = fst t"
  by (simp add: segment_of_def SegmentAt_def Let_def)

lemma segment_bytes_segment_of [simp]: "segment_bytes (segment_of t) = SegmentBytes (fst t)"
  by (cases "fst t") (simp_all add: segment_of_def segment_bytes_def SegmentAt_start SegmentBytes_def
      geometry_defs)

lemma segment_base_dvd [simp]: "512 dvd segment_base s" "512 dvd segment_bytes s"
  by (simp_all add: segment_base_def segment_bytes_def)

lemma group_blocks_apart:
  fixes i j :: nat
  assumes "i \<noteq> j" "x < 8192 * 512" "y < 8192 * 512"
  shows "i * 8192 * 512 + x \<noteq> j * 8192 * 512 + y"
proof
  assume "i * 8192 * 512 + x = j * 8192 * 512 + y"
  then have "(i * (8192 * 512) + x) div (8192 * 512) = (j * (8192 * 512) + y) div (8192 * 512)"
    by simp
  with assms show False by simp
qed

lemma segment_range_disjoint:
  assumes "t \<noteq> t'"
  shows "segment_range (segment_of t) \<inter> segment_range (segment_of t') = {}"
proof (cases "snd t = snd t'")
  case True
  with assms have "fst t \<noteq> fst t'" by (auto simp: prod_eq_iff)
  with True show ?thesis
    by (cases "fst t"; cases "fst t'")
      (auto simp: segment_range_def segment_base_def segment_bytes_def segment_of_def SegmentAt_start)
next
  case False
  have in_group: "\<exists>x < 8192 * 512. a = snd t * 8192 * 512 + x" if "a \<in> segment_range (segment_of t)" for a t
    using that
    by (intro exI [of _ "a - snd t * 8192 * 512"])
      (auto simp: segment_range_def segment_base_def segment_bytes_def segment_of_def SegmentAt_start
        split: if_splits)
  show ?thesis
  proof (rule equals0I)
    fix a assume "a \<in> segment_range (segment_of t) \<inter> segment_range (segment_of t')"
    then obtain x y where "x < 8192 * 512" "y < 8192 * 512"
      "a = snd t * 8192 * 512 + x" "a = snd t' * 8192 * 512 + y"
      using in_group by blast
    then show False
      using group_blocks_apart [OF False, of x y] by metis
  qed
qed

lemma segment_range_bound:
  assumes "i < TrackCount z" "a \<in> segment_range (SegmentAt ty i)"
  shows "a < z * kZoneSectors * 512"
proof -
  have "i + 1 \<le> z * 64" using assms(1) by (simp add: TrackCount_def kGroupsPerZone_def)
  then have "(i + 1) * (8192 * 512) \<le> z * 64 * (8192 * 512)" by (rule mult_le_mono1)
  then show ?thesis
    using assms(2) by (auto simp: segment_range_def segment_base_def segment_bytes_def SegmentAt_start
        kZoneSectors_def split: if_splits)
qed

section \<open>The allocator's contract\<close>

text \<open>
  What the middleware relies on: grants hand out tracks nobody owned, a release returns exactly
  one owner's tracks, and nothing else moves.  A client that records under each owner the tracks
  it was granted then always agrees with the allocator.
\<close>

locale track_store =
  fixes ok :: "'a \<Rightarrow> bool"
    and own :: "'a \<Rightarrow> 'id \<Rightarrow> 't set"
    and grant :: "'id \<Rightarrow> 'req \<Rightarrow> 'a \<Rightarrow> ('t list \<times> 'a) option"
    and release :: "'id \<Rightarrow> 'a \<Rightarrow> 'a"
    and nobody :: 'id
  assumes own_disjoint: "x \<noteq> y \<Longrightarrow> own a x \<inter> own a y = {}"
    and grant_id: "ok a \<Longrightarrow> grant i r a = Some (ts, a') \<Longrightarrow> i \<noteq> nobody"
    and grant_own: "ok a \<Longrightarrow> grant i r a = Some (ts, a') \<Longrightarrow> own a' i = own a i \<union> set ts"
    and grant_fresh: "ok a \<Longrightarrow> grant i r a = Some (ts, a') \<Longrightarrow> distinct ts \<and> set ts \<subseteq> own a nobody"
    and grant_other: "ok a \<Longrightarrow> grant i r a = Some (ts, a') \<Longrightarrow> x \<noteq> nobody \<Longrightarrow> x \<noteq> i \<Longrightarrow> own a' x = own a x"
    and grant_ok: "ok a \<Longrightarrow> grant i r a = Some (ts, a') \<Longrightarrow> ok a'"
    and release_own: "i \<noteq> nobody \<Longrightarrow> own (release i a) i = {}"
    and release_other: "x \<noteq> nobody \<Longrightarrow> x \<noteq> i \<Longrightarrow> own (release i a) x = own a x"
    and release_ok: "ok a \<Longrightarrow> ok (release i a)"
begin

lemma grant_not_owned:
  "ok a \<Longrightarrow> grant i r a = Some (ts, a') \<Longrightarrow> x \<noteq> nobody \<Longrightarrow> set ts \<inter> own a x = {}"
  using grant_fresh own_disjoint by blast

text \<open>A client's table of grants stays a record of what each owner holds.\<close>

lemma table_grant:
  assumes "ok a" "\<And>x. x \<noteq> nobody \<Longrightarrow> tab x \<subseteq> own a x" "grant i r a = Some (ts, a')"
  shows "x \<noteq> nobody \<Longrightarrow> (tab(i := tab i \<union> set ts)) x \<subseteq> own a' x"
  using assms grant_own grant_other by (cases "x = i") (simp_all, blast+)

lemma table_release:
  assumes "\<And>x. x \<noteq> nobody \<Longrightarrow> tab x \<subseteq> own a x"
  shows "x \<noteq> nobody \<Longrightarrow> (tab(i := {})) x \<subseteq> own (release i a) x"
  using assms release_other by (cases "x = i") auto

lemma table_disjoint:
  assumes "\<And>x. x \<noteq> nobody \<Longrightarrow> tab x \<subseteq> own a x" "x \<noteq> nobody" "y \<noteq> nobody" "x \<noteq> y"
  shows "tab x \<inter> tab y = {}"
  using assms own_disjoint by blast

lemma grant_then_release:
  assumes "ok a" "grant i r a = Some (ts, a')" "own a i = {}" "x \<noteq> nobody"
  shows "own (release i a') x = own a x"
proof (cases "x = i")
  case True
  with assms(3,4) release_own show ?thesis by simp
next
  case False
  with assms release_other grant_other [OF assms(1,2)] show ?thesis by simp
qed

end

fun grant_tracks ::
  "u64 \<Rightarrow> nat \<times> int \<times> int \<Rightarrow> KVIMRTrackAllocator
    \<Rightarrow> ((KVIMRTrackType \<times> nat) list \<times> KVIMRTrackAllocator) option" where
  "grant_tracks sid (bytes, level, largest) a =
     (case Allocate sid bytes level largest a of
        (OK, segments, a') \<Rightarrow> Some (map track_of segments, a')
      | _ \<Rightarrow> None)"

lemma grant_tracks_Some:
  assumes "grant_tracks sid r a = Some (ts, a')"
  shows "sid \<noteq> 0" "gave sid ts a a'"
    "Allocate sid (fst r) (fst (snd r)) (snd (snd r)) a = (OK, map segment_of ts, a')"
proof -
  obtain bytes level largest where r: "r = (bytes, level, largest)" by (cases r) auto
  have "sid \<noteq> 0 \<and> gave sid ts a a' \<and> Allocate sid bytes level largest a = (OK, map segment_of ts, a')"
    using assms unfolding r
    by (cases rule: Allocate_cases [of sid bytes level largest a]) (auto simp: o_def)
  then show "sid \<noteq> 0" "gave sid ts a a'"
    "Allocate sid (fst r) (fst (snd r)) (snd (snd r)) a = (OK, map segment_of ts, a')"
    by (auto simp: r)
qed

interpretation tracks: track_store allocator_ok owned grant_tracks "\<lambda>sid a. snd (Release sid a)" 0
proof unfold_locales
  fix x y :: u64 and a
  show "x \<noteq> y \<Longrightarrow> owned a x \<inter> owned a y = {}" by (rule owned_disjoint)
next
  fix a i r ts a' assume g: "grant_tracks i r a = Some (ts, a')" and ok: "allocator_ok a"
  note G = grant_tracks_Some [OF g]
  show "i \<noteq> 0" by (rule G)
  show "owned a' i = owned a i \<union> set ts" by (rule gave_owned(1) [OF G(1,2)])
  show "distinct ts \<and> set ts \<subseteq> owned a 0" using G(2) by (simp add: gave_def)
  show "owned a' x = owned a x" if "x \<noteq> 0" "x \<noteq> i" for x
    by (rule gave_owned(2) [OF G(1,2) that])
  show "allocator_ok a'" by (rule Allocate_ok [OF ok G(3)])
next
  fix i :: u64 and a show "i \<noteq> 0 \<Longrightarrow> owned (snd (Release i a)) i = {}" by (rule Release_owned(1))
next
  fix x i :: u64 and a assume "x \<noteq> 0" "x \<noteq> i"
  then show "owned (snd (Release i a)) x = owned a x"
    by (cases "i = 0") (simp_all add: Release_owned(2))
next
  fix a i show "allocator_ok a \<Longrightarrow> allocator_ok (snd (Release i a))" by (rule Release_ok)
qed

section \<open>Properties\<close>

lemma inj_segment_of: "inj segment_of"
  by (rule inj_on_inverseI [where g = track_of]) simp

lemma valid_segment_of: "snd t < TrackCount z \<Longrightarrow> valid_segment z (segment_of t)"
  by (simp add: valid_segment_def) (simp add: segment_of_def)

lemma track_set_ok: "allocator_ok a \<Longrightarrow> track_set a = {t. snd t < TrackCount (zones a)}"
  using allocator_okD [of a] by (auto simp: track_set_def tier_ok_def)

lemma gave_owner:
  assumes "gave sid ts a a'" "t \<in> set ts"
  shows "owner_of a t = 0" "owner_of a' t = sid" "t \<in> track_set a"
  using assms by (auto simp: gave_def owned_def)

lemma segment_bytes_sum:
  "sum_list (map segment_bytes (map (SegmentAt ty) is)) = length is * SegmentBytes ty"
  using segment_bytes_segment_of [of "(ty, _)"] by (induction "is") (simp_all add: segment_of_def)

lemma segment_bytes_butlast:
  "sum_list (map segment_bytes (butlast (map (SegmentAt ty) is))) = (length is - 1) * SegmentBytes ty"
  by (simp only: map_butlast [symmetric] segment_bytes_sum length_butlast)

text \<open>C9. A successful allocation hands out distinct, well-formed tracks that nobody owned, makes
  the SSTable their owner, provides at least the requested bytes, changes no other owner's
  tracks and keeps the allocator's invariant.\<close>

theorem Allocate_sound:
  assumes "allocator_ok a" "Allocate sid bytes level largest a = (OK, segments, a')"
  shows "distinct segments \<and> allocator_ok a' \<and> bytes \<le> sum_list (map segment_bytes segments) \<and>
    (\<forall>s \<in> set segments. valid_segment (zones a) s \<and>
       owner_of a (track_of s) = 0 \<and> owner_of a' (track_of s) = sid) \<and>
    owned a' sid = owned a sid \<union> track_of ` set segments \<and>
    (\<forall>x. x \<noteq> 0 \<longrightarrow> x \<noteq> sid \<longrightarrow> owned a' x = owned a x)"
proof (cases rule: Allocate_cases [of sid bytes level largest a])
  case (granted ts a1)
  then have seg: "segments = map segment_of ts" "a1 = a'" and g: "gave sid ts a a'"
    using assms(2) by auto
  have "distinct segments"
    using g inj_segment_of by (auto simp: seg distinct_map gave_def intro: inj_on_subset)
  moreover have "valid_segment (zones a) s \<and> owner_of a (track_of s) = 0 \<and> owner_of a' (track_of s) = sid"
    if s: "s \<in> set segments" for s
    using s gave_owner [OF g] track_set_ok [OF assms(1)] by (auto simp: seg intro: valid_segment_of)
  moreover have "bytes \<le> sum_list (map segment_bytes segments)"
    using granted(7) by (simp add: seg o_def)
  moreover have "track_of ` set segments = set ts"
    by (simp add: seg image_image)
  ultimately show ?thesis
    using gave_owned [OF granted(1) g] Allocate_ok [OF assms] by auto
qed (use assms in auto)

theorem Allocate_sound_witness:
  "allocator_ok (new_allocator 1) \<and>
   owner_of (snd (snd (Allocate 7 3000000 2 2 (new_allocator 1)))) (BOTTOM, 1) = 7"
proof -
  have ok: "allocator_ok (new_allocator 1)" by (simp add: new_allocator_def)
  have al: "Allocate 7 3000000 2 2 (new_allocator 1) = (OK,
      fst (snd (Allocate 7 3000000 2 2 (new_allocator 1))), snd (snd (Allocate 7 3000000 2 2 (new_allocator 1))))"
    by code_simp
  have "segment_of (BOTTOM, 1) \<in> set (fst (snd (Allocate 7 3000000 2 2 (new_allocator 1))))"
    by code_simp
  with Allocate_sound [OF ok al] ok show ?thesis by (metis track_of_segment_of)
qed

text \<open>C10. Allocation is complete and all-or-nothing: it succeeds exactly for a valid id and a
  nonempty request that fits the space the level may use, and otherwise reports the error the
  source names, returns no segment and leaves the allocator as it was.\<close>

theorem Allocate_complete:
  "(if sid = 0 \<or> bytes = 0
    then Allocate sid bytes level largest a =
      (InvalidArgument ''invalid KVIMR allocation request'', [], a)
    else if available_bytes level largest a < bytes
    then Allocate sid bytes level largest a =
      (IOError ''insufficient KVIMR track capacity'', [], a)
    else fst (Allocate sid bytes level largest a) = OK)"
  by (cases rule: Allocate_cases [of sid bytes level largest a]) auto

text \<open>C14. Level-aware placement: below the largest level every segment is a TOP track and the last
  one was needed; at the largest level BOTTOM tracks come first, TOP tracks are used only once no
  BOTTOM track is free, and again the last track was needed.\<close>

theorem Allocate_placement:
  assumes "Allocate sid bytes level largest a = (OK, segments, a')"
  shows "\<exists>bs ts. segments = map (SegmentAt BOTTOM) bs @ map (SegmentAt TOP) ts \<and>
    (level \<noteq> largest \<longrightarrow> bs = []) \<and>
    (level = largest \<longrightarrow> ts \<noteq> [] \<longrightarrow> 0 \<notin> set (bottom_owner a')) \<and>
    sum_list (map segment_bytes (butlast segments)) < bytes"
proof (cases "level = largest")
  case True
  have le: "bytes \<le> TierFreeBytes TOP a + TierFreeBytes BOTTOM a" and pos: "sid \<noteq> 0" "bytes \<noteq> 0"
    using assms True by (auto simp: Allocate_def Let_def split: if_splits)
  obtain bs ts a1 a2 where al: "Allocate sid bytes level level a =
      (OK, map (SegmentAt BOTTOM) bs @ map (SegmentAt TOP) ts, a2)"
    and min: "ts = [] \<longrightarrow> (length bs - 1) * SegmentBytes BOTTOM < bytes"
      "ts \<noteq> [] \<longrightarrow> free_tracks BOTTOM a2 = {} \<and> tier_bytes bs (tl ts) < bytes"
    by (rule Allocate_bottom_first [OF pos le, of level])
  have seg: "segments = map (SegmentAt BOTTOM) bs @ map (SegmentAt TOP) ts" "a2 = a'"
    using assms al True by auto
  have "sum_list (map segment_bytes (butlast segments)) < bytes"
  proof (cases "ts = []")
    case True
    then show ?thesis using min(1) by (simp only: seg segment_bytes_butlast append_Nil2 list.map)
  next
    case False
    then have "sum_list (map segment_bytes (butlast segments)) =
        sum_list (map segment_bytes (map (SegmentAt BOTTOM) bs)) +
        sum_list (map segment_bytes (butlast (map (SegmentAt TOP) ts)))"
      by (simp only: seg butlast_append map_is_Nil_conv map_append sum_list_append if_False)
    then show ?thesis
      using min(2) False unfolding segment_bytes_sum segment_bytes_butlast
      by (simp add: tier_bytes_def)
  qed
  then show ?thesis
    using seg min(2) True no_free_tracks [of BOTTOM a2]
    by (intro exI [of _ bs] exI [of _ ts]) auto
next
  case False
  have le: "bytes \<le> TierFreeBytes TOP a" and pos: "sid \<noteq> 0" "bytes \<noteq> 0"
    using assms False by (auto simp: Allocate_def Let_def split: if_splits)
  obtain ts a2 where al: "Allocate sid bytes level largest a = (OK, map (SegmentAt TOP) ts, a2)"
    and min: "(length ts - 1) * SegmentBytes TOP < bytes"
    by (rule Allocate_top_only [OF pos False le])
  have seg: "segments = map (SegmentAt TOP) ts"
    using assms al by simp
  have "sum_list (map segment_bytes (butlast segments)) < bytes"
    using min unfolding seg segment_bytes_butlast .
  then show ?thesis
    using seg False by (intro exI [of _ "[]"] exI [of _ ts]) auto
qed

theorem Allocate_placement_witness:
  "Allocate 7 3000000 0 2 (new_allocator 1) =
     (OK, [SegmentAt TOP 0, SegmentAt TOP 1], snd (snd (Allocate 7 3000000 0 2 (new_allocator 1)))) \<and>
   sum_list (map segment_bytes (butlast [SegmentAt TOP 0, SegmentAt TOP 1])) < 3000000"
proof -
  have al: "Allocate 7 3000000 0 2 (new_allocator 1) =
     (OK, [SegmentAt TOP 0, SegmentAt TOP 1], snd (snd (Allocate 7 3000000 0 2 (new_allocator 1))))"
    by code_simp
  from Allocate_placement [OF al] al show ?thesis by blast
qed

lemma owners_eqI:
  assumes "\<And>ty. length (owners_of ty a) = length (owners_of ty b)"
    "\<And>t. t \<in> track_set a \<Longrightarrow> owner_of a t = owner_of b t"
  shows "top_owner a = top_owner b \<and> bottom_owner a = bottom_owner b"
proof -
  have "owners_of ty a = owners_of ty b" for ty
    using assms(1) [of ty] assms(2) [of "(ty, _)"]
    by (auto simp: track_set_def owner_of_def intro: nth_equalityI)
  from this [of TOP] this [of BOTTOM] show ?thesis by simp
qed

lemma Release_owner:
  assumes "sid \<noteq> 0"
  shows "length (owners_of ty (snd (Release sid a))) = length (owners_of ty a)"
    "t \<in> track_set a \<Longrightarrow>
      owner_of (snd (Release sid a)) t = (if owner_of a t = sid then 0 else owner_of a t)"
proof -
  have "owners_of ty (snd (Release sid a)) = map (\<lambda>w. if w = sid then 0 else w) (owners_of ty a)" for ty
    using assms by (cases ty) (simp_all add: Release_def Let_def)
  then show "length (owners_of ty (snd (Release sid a))) = length (owners_of ty a)"
    "t \<in> track_set a \<Longrightarrow>
      owner_of (snd (Release sid a)) t = (if owner_of a t = sid then 0 else owner_of a t)"
    by (simp_all add: owner_of_def track_set_def)
qed

text \<open>C19. Allocating for a new SSTable and releasing it again reports success both times and gives
  back every track: the owner tables are the ones from before the allocation.\<close>

theorem Allocate_Release:
  assumes "allocator_ok a" "sid \<notin> set (top_owner a)" "sid \<notin> set (bottom_owner a)"
    "Allocate sid bytes level largest a = (OK, segments, a')"
  shows "fst (Release sid a') = OK \<and>
    top_owner (snd (Release sid a')) = top_owner a \<and>
    bottom_owner (snd (Release sid a')) = bottom_owner a"
proof (cases rule: Allocate_cases [of sid bytes level largest a])
  case (granted ts a1)
  then have g: "gave sid ts a a'" using assms(4) by simp
  note sid = granted(1)
  have none: "sid \<notin> set (owners_of ty a)" for ty
    using assms(2,3) by (cases ty) simp_all
  then have ne: "owner_of a t \<noteq> sid" if "t \<in> track_set a" for t
    using that nth_mem by (fastforce simp: track_set_def owner_of_def)
  have "owned a' sid \<noteq> {}"
    using gave_owned(1) [OF sid g] granted(6) by simp
  moreover have "top_owner (snd (Release sid a')) = top_owner a \<and>
      bottom_owner (snd (Release sid a')) = bottom_owner a"
  proof (rule owners_eqI)
    fix ty show "length (owners_of ty (snd (Release sid a'))) = length (owners_of ty a)"
      using g by (simp add: Release_owner(1) [OF sid] gave_def)
  next
    fix t assume "t \<in> track_set (snd (Release sid a'))"
    then have t: "t \<in> track_set a'"
      by (simp add: track_set_def Release_owner(1) [OF sid])
    note ta = t [unfolded gave_track_set [OF g]]
    show "owner_of (snd (Release sid a')) t = owner_of a t"
      using Release_owner(2) [OF sid t] gave_owner(1) [OF g] g ta ne by (auto simp: gave_def)
  qed
  ultimately show ?thesis using sid by (simp add: Release_status)
qed (use assms in auto)

theorem Allocate_Release_witness:
  "top_owner (snd (Release 7 (snd (snd (Allocate 7 100 0 1 (new_allocator 1)))))) =
     top_owner (new_allocator 1)"
proof -
  have ok: "allocator_ok (new_allocator 1)" by (simp add: new_allocator_def)
  have no: "7 \<notin> set (top_owner (new_allocator 1))" "7 \<notin> set (bottom_owner (new_allocator 1))"
    by code_simp+
  have al: "Allocate 7 100 0 1 (new_allocator 1) = (OK,
      fst (snd (Allocate 7 100 0 1 (new_allocator 1))), snd (snd (Allocate 7 100 0 1 (new_allocator 1))))"
    by code_simp
  from Allocate_Release [OF ok no al] show ?thesis by blast
qed

text \<open>C20. Restoring the segments of a granted allocation into an allocator that holds the same
  other owners (the situation after a restart) succeeds and reproduces the owner tables.\<close>

theorem Restore_Allocate:
  assumes "allocator_ok a" "Allocate sid bytes level largest a = (OK, segments, a')"
  shows "fst (Restore sid segments a) = OK \<and>
    top_owner (snd (Restore sid segments a)) = top_owner a' \<and>
    bottom_owner (snd (Restore sid segments a)) = bottom_owner a'"
proof (cases rule: Allocate_cases [of sid bytes level largest a])
  case (granted ts a1)
  then have seg: "segments = map segment_of ts" and g: "gave sid ts a a'" using assms(2) by auto
  have tr: "map track_of segments = ts"
    by (simp add: seg o_def)
  obtain b where b: "Restore sid segments a = (OK, b)"
  proof (rule Restore_complete [OF assms(1) granted(1)])
    show "segments \<noteq> []" using granted(6) by (simp add: seg)
    show "\<forall>s \<in> set segments. valid_segment (zones a) s"
      using gave_owner(3) [OF g] track_set_ok [OF assms(1)] by (auto simp: seg intro: valid_segment_of)
    show "distinct (map track_of segments)" "track_of ` set segments \<subseteq> owned a 0"
      using g tr by (simp_all add: gave_def flip: set_map)
  qed
  have gb: "gave sid ts a b"
    using Restore_OK(1) [OF assms(1) b] by (simp add: tr)
  have "top_owner b = top_owner a' \<and> bottom_owner b = bottom_owner a'"
    using g gb gave_track_set [OF gb] by (intro owners_eqI) (auto simp: gave_def)
  then show ?thesis by (simp add: b)
qed (use assms in auto)

theorem Restore_Allocate_witness:
  "bottom_owner (snd (Restore 7 [SegmentAt BOTTOM 0, SegmentAt BOTTOM 1] (new_allocator 1))) =
     bottom_owner (snd (snd (Allocate 7 3000000 2 2 (new_allocator 1))))"
proof -
  have ok: "allocator_ok (new_allocator 1)" by (simp add: new_allocator_def)
  have al: "Allocate 7 3000000 2 2 (new_allocator 1) = (OK, [SegmentAt BOTTOM 0, SegmentAt BOTTOM 1],
      snd (snd (Allocate 7 3000000 2 2 (new_allocator 1))))"
    by code_simp
  from Restore_Allocate [OF ok al] show ?thesis by blast
qed

text \<open>C21. The tracks tile the device: distinct tracks occupy disjoint byte ranges, every range is
  512-byte aligned and lies inside the configured zones.\<close>

theorem SegmentAt_tiling:
  assumes "i < TrackCount z" "j < TrackCount z" "(ty, i) \<noteq> (ty', j)"
  shows "segment_range (SegmentAt ty i) \<inter> segment_range (SegmentAt ty' j) = {} \<and>
    segment_range (SegmentAt ty i) \<subseteq> {..<z * kZoneSectors * 512} \<and>
    512 dvd segment_base (SegmentAt ty i) \<and> 512 dvd segment_bytes (SegmentAt ty i)"
  using segment_range_disjoint [OF assms(3)] segment_range_bound [OF assms(1)]
  by (auto simp: segment_of_def)

theorem SegmentAt_tiling_witness:
  "segment_range (SegmentAt TOP 3) \<inter> segment_range (SegmentAt BOTTOM 3) = {}"
proof -
  have "3 < TrackCount 1" by code_simp
  from SegmentAt_tiling [OF this this, of TOP BOTTOM] show ?thesis by simp
qed




end
