(* ===== verification/Imrsim_Backend.thy ===== *)
theory Imrsim_Backend
  imports Kv_Prelude
begin

text \<open>
  The raw-device backend of \<open>db/imrsim_backend.h\<close> and \<open>db/imrsim_backend.cc\<close>: open with an
  alignment probe, range validation, and the transfer loops around \<open>pread\<close> and \<open>pwrite\<close> that
  retry interrupted calls and continue after short transfers.

  The system calls act on an explicit world: device nodes, regular files and a script of events
  that says for each coming call whether it runs in full, stops short or fails.  Theorems hold for
  every script.  A finite script means that interrupted calls are not repeated for ever.
\<close>

unbundle bit_operations_syntax

section \<open>System calls\<close>

datatype errno = EINTR | ENOENT | EINVAL | ENOTSUP | ENOSPC | ENOMEM | EIO

datatype sys_event = Sys_full | Sys_short nat | Sys_fail errno

record device =
  dev_bytes :: "nat \<Rightarrow> char"
  dev_durable :: "nat \<Rightarrow> char"
  dev_size :: nat
  dev_is_block :: bool
  dev_block_size :: int

record os_world =
  os_devices :: "string \<Rightarrow> device option"
  os_files :: "string \<Rightarrow> bytes option"
  os_script :: "sys_event list"

definition next_event :: "os_world \<Rightarrow> sys_event \<times> os_world" where
  "next_event w = (case os_script w of [] \<Rightarrow> (Sys_full, w) | e # es \<Rightarrow> (e, w\<lparr>os_script := es\<rparr>))"

text \<open>A call without data: it fails with the script's error or does its work.\<close>

definition sys_simple :: "os_world \<Rightarrow> (errno + unit) \<times> os_world" where
  "sys_simple w = (case next_event w of
     (Sys_fail e, w') \<Rightarrow> (Inl e, w') | (_, w') \<Rightarrow> (Inr (), w'))"

definition sys_open_device :: "string \<Rightarrow> os_world \<Rightarrow> (errno + device) \<times> os_world" where
  "sys_open_device path w = (case sys_simple w of
     (Inl e, w') \<Rightarrow> (Inl e, w')
   | (Inr _, w') \<Rightarrow>
       (case os_devices w' path of None \<Rightarrow> (Inl ENOENT, w') | Some d \<Rightarrow> (Inr d, w')))"

definition sys_memalign :: "os_world \<Rightarrow> bool \<times> os_world" where
  "sys_memalign w = (case os_script w of
     Sys_fail ENOMEM # es \<Rightarrow> (False, w\<lparr>os_script := es\<rparr>) | _ \<Rightarrow> (True, w))"

definition event_limit :: "sys_event \<Rightarrow> nat \<Rightarrow> nat" where
  "event_limit e n = (case e of Sys_short k \<Rightarrow> min k n | _ \<Rightarrow> n)"

definition sys_pread :: "string \<Rightarrow> nat \<Rightarrow> nat \<Rightarrow> os_world \<Rightarrow> (errno + bytes) \<times> os_world" where
  "sys_pread path off len w = (case next_event w of
     (Sys_fail e, w') \<Rightarrow> (Inl e, w')
   | (e, w') \<Rightarrow>
       (case os_devices w' path of
          None \<Rightarrow> (Inl EIO, w')
        | Some d \<Rightarrow>
            (let n = event_limit e (min len (dev_size d - off))
             in (Inr (map (dev_bytes d) [off..<off + n]), w'))))"

definition dev_write :: "nat \<Rightarrow> bytes \<Rightarrow> device \<Rightarrow> device" where
  "dev_write off bs d = d\<lparr>dev_bytes :=
     (\<lambda>a. if off \<le> a \<and> a < off + length bs then bs ! (a - off) else dev_bytes d a)\<rparr>"

definition sys_pwrite :: "string \<Rightarrow> nat \<Rightarrow> bytes \<Rightarrow> os_world \<Rightarrow> (errno + nat) \<times> os_world" where
  "sys_pwrite path off bs w = (case next_event w of
     (Sys_fail e, w') \<Rightarrow> (Inl e, w')
   | (e, w') \<Rightarrow>
       (case os_devices w' path of
          None \<Rightarrow> (Inl EIO, w')
        | Some d \<Rightarrow>
            (let room = min (length bs) (dev_size d - off); n = event_limit e room
             in if room = 0 \<and> bs \<noteq> [] then (Inl ENOSPC, w')
                else (Inr n, w'\<lparr>os_devices := (os_devices w')(path \<mapsto> dev_write off (take n bs) d)\<rparr>))))"

definition sys_fdatasync_device :: "string \<Rightarrow> os_world \<Rightarrow> (errno + unit) \<times> os_world" where
  "sys_fdatasync_device path w = (case sys_simple w of
     (Inl e, w') \<Rightarrow> (Inl e, w')
   | (Inr _, w') \<Rightarrow>
       (Inr (), w'\<lparr>os_devices := (case os_devices w' path of
            None \<Rightarrow> os_devices w'
          | Some d \<Rightarrow> (os_devices w')(path \<mapsto> d\<lparr>dev_durable := dev_bytes d\<rparr>))\<rparr>))"

section \<open>The backend\<close>

text \<open>\<open>fd = None\<close> stands for \<open>fd_ = -1\<close>; an open descriptor names its device node.\<close>

record IMRSimBackend =
  fd :: "string option"
  direct_io_alignment :: nat
  device_path :: string

definition kSectorSize :: nat where "kSectorSize = 512"
definition kTrackSize :: nat where "kTrackSize = 2 * 1024 * 1024"

definition IsPowerOfTwo :: "u64 \<Rightarrow> bool" where
  "IsPowerOfTwo value \<longleftrightarrow> value \<noteq> 0 \<and> (value AND (value - 1)) = 0"

definition new_backend :: IMRSimBackend where
  "new_backend = \<lparr>fd = None, direct_io_alignment = kSectorSize, device_path = []\<rparr>"

definition Open :: "string \<Rightarrow> IMRSimBackend \<Rightarrow> os_world \<Rightarrow> Status \<times> IMRSimBackend \<times> os_world" where
  "Open path b w =
     (if fd b \<noteq> None then (IOError ''IMRSim backend is already open'', b, w)
      else case sys_open_device path w of
          (Inl _, w1) \<Rightarrow> (IOError ''open IMRSim device'', b, w1)
        | (Inr d, w1) \<Rightarrow>
            (case sys_simple w1 of
               (Inl _, w2) \<Rightarrow> (IOError ''stat IMRSim device'', b, snd (sys_simple w2))
             | (Inr _, w2) \<Rightarrow>
                 if dev_is_block d
                 then (case sys_simple w2 of
                     (Inl _, w3) \<Rightarrow>
                       (IOError ''query IMRSim device logical block size'', b, snd (sys_simple w3))
                   | (Inr _, w3) \<Rightarrow>
                       (let logical_block_size = dev_block_size d
                        in if logical_block_size < int kSectorSize \<or>
                              \<not> IsPowerOfTwo (word_of_int logical_block_size)
                           then (InvalidArgument ''invalid IMRSim device logical block size'', b,
                                 snd (sys_simple w3))
                           else (OK, b\<lparr>fd := Some path, device_path := path,
                                        direct_io_alignment := nat logical_block_size\<rparr>, w3)))
                 else (OK, b\<lparr>fd := Some path, device_path := path,
                              direct_io_alignment := kSectorSize\<rparr>, w2)))"

definition Close :: "IMRSimBackend \<Rightarrow> os_world \<Rightarrow> Status \<times> IMRSimBackend \<times> os_world" where
  "Close b w =
     (case fd b of
        None \<Rightarrow> (OK, b, w)
      | Some _ \<Rightarrow>
          (let b' = b\<lparr>fd := None, direct_io_alignment := kSectorSize\<rparr>
           in case sys_simple w of
                (Inl _, w') \<Rightarrow> (IOError ''close IMRSim device'', b', w')
              | (Inr _, w') \<Rightarrow> (OK, b', w')))"

text \<open>Offsets and lengths are 64-bit: \<open>offset + length\<close> is computed modulo \<open>2^64\<close>.\<close>

definition ValidateRange :: "nat \<Rightarrow> nat \<Rightarrow> IMRSimBackend \<Rightarrow> Status" where
  "ValidateRange offset len b =
     (if fd b = None then IOError ''IMRSim backend is not open''
      else if offset mod kSectorSize \<noteq> 0 \<or> len mod kSectorSize \<noteq> 0
      then InvalidArgument ''IMRSim I/O must be 512-byte aligned''
      else if offset mod direct_io_alignment b \<noteq> 0 \<or> len mod direct_io_alignment b \<noteq> 0
      then InvalidArgument ''IMRSim O_DIRECT I/O does not meet device alignment''
      else if offset > 2 ^ 63 - 1 \<or> len > 2 ^ 63 - 1 \<or> (offset + len) mod 2 ^ 64 < offset
      then InvalidArgument ''IMRSim I/O range is too large''
      else OK)"

lemma next_event_script: "next_event w = (e, w') \<Longrightarrow> length (os_script w') \<le> length (os_script w)"
  by (auto simp: next_event_def split: list.splits)

lemma next_event_fail:
  "next_event w = (Sys_fail e, w') \<Longrightarrow> length (os_script w') < length (os_script w)"
  by (auto simp: next_event_def split: list.splits)

lemma event_limit_le [simp]: "event_limit e n \<le> n"
  by (auto simp: event_limit_def split: sys_event.splits)

lemma sys_pread_interrupted:
  "sys_pread path off len w = (Inl EINTR, w') \<Longrightarrow> length (os_script w') < length (os_script w)"
  by (auto simp: sys_pread_def Let_def dest: next_event_fail
      split: prod.splits sys_event.splits option.splits)

lemma sys_pread_data:
  assumes "sys_pread path off len w = (Inr chunk, w')"
  shows "length chunk \<le> len" "length (os_script w') \<le> length (os_script w)"
proof -
  obtain e where e: "next_event w = (e, w')"
    using assms by (auto simp: sys_pread_def Let_def split: prod.splits sys_event.splits option.splits)
  then show "length (os_script w') \<le> length (os_script w)"
    by (rule next_event_script)
  have "event_limit e (min len m) \<le> len" for m
    using event_limit_le [of e "min len m"] by linarith
  then show "length chunk \<le> len"
    using assms e by (auto simp: sys_pread_def Let_def split: sys_event.splits option.splits)
qed

lemma sys_pwrite_interrupted:
  "sys_pwrite path off bs w = (Inl EINTR, w') \<Longrightarrow> length (os_script w') < length (os_script w)"
  by (auto simp: sys_pwrite_def Let_def dest: next_event_fail
      split: prod.splits sys_event.splits option.splits if_splits)

lemma sys_pwrite_data:
  assumes "sys_pwrite path off bs w = (Inr n, w')"
  shows "n \<le> length bs" "length (os_script w') \<le> length (os_script w)"
proof -
  obtain e w1 where e: "next_event w = (e, w1)" by (cases "next_event w")
  have "event_limit e (min (length bs) m) \<le> length bs" for m
    using event_limit_le [of e "min (length bs) m"] by linarith
  then show "n \<le> length bs" "length (os_script w') \<le> length (os_script w)"
    using assms next_event_script [OF e]
    by (auto simp: sys_pwrite_def e Let_def split: sys_event.splits option.splits if_splits)
qed

text \<open>The loop \<open>while (done < length)\<close> of \<open>Read\<close>; the buffer is returned as the caller sees it.\<close>

function read_loop :: "string \<Rightarrow> nat \<Rightarrow> nat \<Rightarrow> bytes \<Rightarrow> os_world \<Rightarrow> Status \<times> bytes \<times> os_world" where
  "read_loop path offset dn buf w =
     (if dn < length buf
      then case sys_pread path (offset + dn) (length buf - dn) w of
          (Inl e, w') \<Rightarrow>
            if e = EINTR then read_loop path offset dn buf w'
            else (IOError ''read IMRSim device'', buf, w')
        | (Inr chunk, w') \<Rightarrow>
            if chunk = [] then (IOError ''short read from IMRSim device'', buf, w')
            else read_loop path offset (dn + length chunk) (memcpy_at buf dn chunk) w'
      else (OK, buf, w))"
  by pat_completeness auto
termination
proof (relation "measure (\<lambda>(_, _, dn, buf, w). length (os_script w) + (length buf - dn))", goal_cases)
  case (2 path offset dn buf w r w' e)
  then show ?case using sys_pread_interrupted [of path "offset + dn" "length buf - dn" w w'] by simp
next
  case (3 path offset dn buf w r w' chunk)
  then have "length chunk \<le> length buf - dn" "length (os_script w') \<le> length (os_script w)"
    using sys_pread_data [of path "offset + dn" "length buf - dn" w chunk w'] by auto
  moreover obtain c cs where "chunk = c # cs" using 3 by (cases chunk) auto
  ultimately show ?case using 3(1) by simp
qed simp

function write_loop :: "string \<Rightarrow> nat \<Rightarrow> nat \<Rightarrow> bytes \<Rightarrow> os_world \<Rightarrow> Status \<times> os_world" where
  "write_loop path offset dn input w =
     (if dn < length input
      then case sys_pwrite path (offset + dn) (drop dn input) w of
          (Inl e, w') \<Rightarrow>
            if e = EINTR then write_loop path offset dn input w'
            else (IOError ''write IMRSim device'', w')
        | (Inr n, w') \<Rightarrow>
            if n = 0 then (IOError ''short write to IMRSim device'', w')
            else write_loop path offset (dn + n) input w'
      else (OK, w))"
  by pat_completeness auto
termination
proof (relation "measure (\<lambda>(_, _, dn, input, w). length (os_script w) + (length input - dn))", goal_cases)
  case (2 path offset dn input w r w' e)
  then show ?case using sys_pwrite_interrupted [of path "offset + dn" "drop dn input" w w'] by simp
next
  case (3 path offset dn input w r w' n)
  then show ?case using sys_pwrite_data [of path "offset + dn" "drop dn input" w n w'] by auto
qed simp

declare read_loop.simps [simp del] write_loop.simps [simp del]

definition Read :: "nat \<Rightarrow> bytes \<Rightarrow> IMRSimBackend \<Rightarrow> os_world \<Rightarrow> Status \<times> bytes \<times> os_world" where
  "Read offset buf b w =
     (case ValidateRange offset (length buf) b of
        OK \<Rightarrow>
          if buf = [] then (OK, buf, w)
          else (case sys_memalign w of
              (False, w') \<Rightarrow> (IOError ''allocate aligned IMRSim read buffer'', buf, w')
            | (True, w') \<Rightarrow> read_loop (the (fd b)) offset 0 buf w')
      | s \<Rightarrow> (s, buf, w))"

definition Write :: "nat \<Rightarrow> bytes \<Rightarrow> IMRSimBackend \<Rightarrow> os_world \<Rightarrow> Status \<times> os_world" where
  "Write offset input b w =
     (case ValidateRange offset (length input) b of
        OK \<Rightarrow>
          if input = [] then (OK, w)
          else (case sys_memalign w of
              (False, w') \<Rightarrow> (IOError ''allocate aligned IMRSim write buffer'', w')
            | (True, w') \<Rightarrow> write_loop (the (fd b)) offset 0 input w')
      | s \<Rightarrow> (s, w))"

definition Sync :: "IMRSimBackend \<Rightarrow> os_world \<Rightarrow> Status \<times> os_world" where
  "Sync b w =
     (case fd b of
        None \<Rightarrow> (IOError ''IMRSim backend is not open'', w)
      | Some path \<Rightarrow>
          (case sys_fdatasync_device path w of
             (Inl _, w') \<Rightarrow> (IOError ''sync IMRSim device'', w')
           | (Inr _, w') \<Rightarrow> (OK, w')))"

definition TrackOffset :: "nat \<Rightarrow> Status + nat" where
  "TrackOffset track_index =
     (if track_index > (2 ^ 64 - 1) div kTrackSize
      then Inl (InvalidArgument ''IMRSim track index overflows byte offset'')
      else Inr (track_index * kTrackSize))"

definition ReadTrack :: "nat \<Rightarrow> bytes \<Rightarrow> IMRSimBackend \<Rightarrow> os_world \<Rightarrow> Status \<times> bytes \<times> os_world" where
  "ReadTrack track_index buf b w =
     (case TrackOffset track_index of Inl s \<Rightarrow> (s, buf, w) | Inr offset \<Rightarrow> Read offset buf b w)"

definition WriteTrack :: "nat \<Rightarrow> bytes \<Rightarrow> IMRSimBackend \<Rightarrow> os_world \<Rightarrow> Status \<times> os_world" where
  "WriteTrack track_index input b w =
     (case TrackOffset track_index of Inl s \<Rightarrow> (s, w) | Inr offset \<Rightarrow> Write offset input b w)"

section \<open>What the system calls touch\<close>

text \<open>\<open>wrote path P w w'\<close>: only bytes of the device at \<open>path\<close> changed, each new value allowed by \<open>P\<close>.\<close>

definition wrote :: "string \<Rightarrow> (nat \<Rightarrow> char \<Rightarrow> bool) \<Rightarrow> os_world \<Rightarrow> os_world \<Rightarrow> bool" where
  "wrote path P w w' \<longleftrightarrow> os_files w' = os_files w \<and>
     (\<forall>q. q \<noteq> path \<longrightarrow> os_devices w' q = os_devices w q) \<and>
     (case os_devices w path of
        None \<Rightarrow> os_devices w' path = None
      | Some d \<Rightarrow> (\<exists>f. os_devices w' path = Some (d\<lparr>dev_bytes := f\<rparr>) \<and>
          (\<forall>a. f a = dev_bytes d a \<or> P a (f a))))"

definition dev_content :: "string \<Rightarrow> os_world \<Rightarrow> nat \<Rightarrow> char" where
  "dev_content path w = (case os_devices w path of None \<Rightarrow> (\<lambda>_. zero_byte) | Some d \<Rightarrow> dev_bytes d)"

lemma wrote_refl: "os_devices w' = os_devices w \<Longrightarrow> os_files w' = os_files w \<Longrightarrow> wrote path P w w'"
  by (cases "os_devices w path") (auto simp: wrote_def intro!: exI [of _ "dev_bytes (the (os_devices w path))"])

lemma wrote_trans:
  assumes "wrote path P w w'" "wrote path Q w' w''"
    "\<And>a c. P a c \<Longrightarrow> R a c" "\<And>a c. Q a c \<Longrightarrow> R a c"
  shows "wrote path R w w''"
proof (cases "os_devices w path")
  case None
  with assms show ?thesis by (simp add: wrote_def)
next
  case (Some d)
  from assms(1) Some obtain f where f: "os_devices w' path = Some (d\<lparr>dev_bytes := f\<rparr>)"
    "\<And>a. f a = dev_bytes d a \<or> P a (f a)" by (auto simp: wrote_def)
  from assms(2) f(1) obtain g where g: "os_devices w'' path = Some (d\<lparr>dev_bytes := g\<rparr>)"
    "\<And>a. g a = f a \<or> Q a (g a)" by (auto simp: wrote_def)
  have "g a = dev_bytes d a \<or> R a (g a)" for a
    using f(2) [of a] g(2) [of a] assms(3,4) by metis
  then show ?thesis
    using assms(1,2) Some g(1) by (auto simp: wrote_def)
qed

lemma wrote_mono: "wrote path P w w' \<Longrightarrow> (\<And>a c. P a c \<Longrightarrow> Q a c) \<Longrightarrow> wrote path Q w w'"
  by (rule wrote_trans [where P = P and Q = P, OF _ wrote_refl [OF refl refl]]) auto

lemma wrote_content: "wrote path P w w' \<Longrightarrow> dev_content path w' a = dev_content path w a \<or> P a (dev_content path w' a)"
  by (auto simp: wrote_def dev_content_def split: option.splits)

lemma next_event_world: "next_event w = (e, w') \<Longrightarrow> os_devices w' = os_devices w \<and> os_files w' = os_files w"
  by (auto simp: next_event_def split: list.splits)

lemma sys_simple_world: "sys_simple w = (r, w') \<Longrightarrow> os_devices w' = os_devices w \<and> os_files w' = os_files w"
  by (auto simp: sys_simple_def dest: next_event_world split: prod.splits sys_event.splits)

lemma sys_memalign_world:
  "sys_memalign w = (r, w') \<Longrightarrow> os_devices w' = os_devices w \<and> os_files w' = os_files w"
  by (auto simp: sys_memalign_def split: list.splits sys_event.splits errno.splits)

lemma sys_pread_world:
  "sys_pread path off len w = (r, w') \<Longrightarrow> os_devices w' = os_devices w \<and> os_files w' = os_files w"
  by (auto simp: sys_pread_def Let_def dest: next_event_world
      split: prod.splits sys_event.splits option.splits)

lemma sys_pread_content:
  assumes "sys_pread path off len w = (Inr chunk, w')"
  shows "chunk = map (dev_content path w) [off..<off + length chunk]"
proof -
  obtain e where e: "next_event w = (e, w')"
    using assms by (auto simp: sys_pread_def Let_def split: prod.splits sys_event.splits option.splits)
  show ?thesis
    using assms next_event_world [OF e]
    by (auto simp: sys_pread_def e Let_def dev_content_def split: sys_event.splits option.splits)
qed

lemma sys_pwrite_wrote:
  assumes "sys_pwrite path off bs w = (r, w')"
  shows "wrote path (\<lambda>a c. off \<le> a \<and> a < off + length bs \<and> c = bs ! (a - off)) w w'"
    and "r = Inr n \<Longrightarrow> off \<le> a \<Longrightarrow> a < off + n \<Longrightarrow> dev_content path w' a = bs ! (a - off)"
proof -
  obtain e w1 where e: "next_event w = (e, w1)" by (cases "next_event w")
  note w1 = next_event_world [OF e]
  have le: "event_limit e (min (length bs) m) \<le> length bs" for m
    using event_limit_le [of e "min (length bs) m"] by linarith
  consider (same) "os_devices w' = os_devices w" "os_files w' = os_files w" "\<exists>x. r = Inl x"
    | (some) d m where "os_devices w path = Some d" "r = Inr (event_limit e (min (length bs) m))"
        "w' = w1\<lparr>os_devices := (os_devices w)(path \<mapsto> dev_write off (take (event_limit e (min (length bs) m)) bs) d)\<rparr>"
    using assms w1 by (auto simp: sys_pwrite_def e Let_def split: sys_event.splits option.splits if_splits)
  then have "wrote path (\<lambda>a c. off \<le> a \<and> a < off + length bs \<and> c = bs ! (a - off)) w w' \<and>
    (r = Inr n \<longrightarrow> off \<le> a \<longrightarrow> a < off + n \<longrightarrow> dev_content path w' a = bs ! (a - off))"
  proof cases
    case same
    then show ?thesis by (auto intro: wrote_refl)
  next
    case some
    define n' where "n' = event_limit e (min (length bs) m)"
    define f where "f = (\<lambda>a. if off \<le> a \<and> a < off + n' then bs ! (a - off) else dev_bytes d a)"
    have n': "n' \<le> length bs" using le [of m] by (simp add: n'_def)
    have "dev_write off (take n' bs) d = d\<lparr>dev_bytes := f\<rparr>"
      using n' by (auto simp: dev_write_def f_def fun_eq_iff intro!: arg_cong [where f = "\<lambda>g. d\<lparr>dev_bytes := g\<rparr>"])
    then have w': "os_devices w' = (os_devices w)(path \<mapsto> d\<lparr>dev_bytes := f\<rparr>)" "os_files w' = os_files w"
      "r = Inr n'"
      using some w1 by (simp_all add: n'_def)
    have "f a = dev_bytes d a \<or> off \<le> a \<and> a < off + length bs \<and> f a = bs ! (a - off)" for a
      using n' by (simp add: f_def)
    then show ?thesis
      using some(1) w' by (auto simp: wrote_def dev_content_def f_def)
  qed
  then show "wrote path (\<lambda>a c. off \<le> a \<and> a < off + length bs \<and> c = bs ! (a - off)) w w'"
    and "r = Inr n \<Longrightarrow> off \<le> a \<Longrightarrow> a < off + n \<Longrightarrow> dev_content path w' a = bs ! (a - off)"
    by auto
qed

section \<open>The transfer loops\<close>

lemma read_loop_world:
  "read_loop path offset dn buf w = (s, buf', w') \<Longrightarrow>
     os_devices w' = os_devices w \<and> os_files w' = os_files w"
proof (induction path offset dn buf w rule: read_loop.induct)
  case (1 path offset dn buf w)
  obtain r w1 where r: "sys_pread path (offset + dn) (length buf - dn) w = (r, w1)"
    by (cases "sys_pread path (offset + dn) (length buf - dn) w")
  show ?case
    using "1" sys_pread_world [OF r] r
    by (auto simp: read_loop.simps [of path offset dn buf w] split: if_splits sum.splits)
qed

lemma read_loop_length:
  "read_loop path offset dn buf w = (s, buf', w') \<Longrightarrow> length buf' = length buf"
proof (induction path offset dn buf w rule: read_loop.induct)
  case (1 path offset dn buf w)
  obtain r w1 where r: "sys_pread path (offset + dn) (length buf - dn) w = (r, w1)"
    by (cases "sys_pread path (offset + dn) (length buf - dn) w")
  have "length (memcpy_at buf dn chunk) = length buf" if "r = Inr chunk" "dn < length buf" for chunk
    using sys_pread_data(1) [of path "offset + dn" "length buf - dn" w chunk w1] r that by simp
  then show ?case
    using "1" r by (auto simp: read_loop.simps [of path offset dn buf w] split: if_splits sum.splits)
qed

lemma memcpy_at_prefix:
  assumes "take dn buf = map f [off..<off + dn]" "dn + length chunk \<le> length buf"
    "chunk = map f [off + dn..<off + dn + length chunk]"
  shows "take (dn + length chunk) (memcpy_at buf dn chunk) = map f [off..<off + (dn + length chunk)]"
proof -
  have "take (dn + length chunk) (memcpy_at buf dn chunk) = take dn buf @ chunk"
    using assms(2) by (simp add: memcpy_at_def)
  also have "\<dots> = map f [off..<off + dn] @ map f [off + dn..<off + dn + length chunk]"
    using assms(1,3) by simp
  also have "\<dots> = map f [off..<off + (dn + length chunk)]"
    using upt_add_eq_append [of off "off + dn" "length chunk"] by (simp add: add.assoc)
  finally show ?thesis .
qed

lemma read_loop_OK:
  "read_loop path offset dn buf w = (OK, buf', w') \<Longrightarrow> dn \<le> length buf \<Longrightarrow>
     take dn buf = map (dev_content path w) [offset..<offset + dn] \<Longrightarrow>
     buf' = map (dev_content path w) [offset..<offset + length buf]"
proof (induction path offset dn buf w rule: read_loop.induct)
  case (1 path offset dn buf w)
  obtain r w1 where r: "sys_pread path (offset + dn) (length buf - dn) w = (r, w1)"
    by (cases "sys_pread path (offset + dn) (length buf - dn) w")
  have same: "dev_content path w1 = dev_content path w"
    using sys_pread_world [OF r] by (simp add: dev_content_def)
  show ?case
  proof (cases "dn < length buf")
    case False
    with "1.prems" show ?thesis by (simp add: read_loop.simps [of path offset dn buf w])
  next
    case lt: True
    show ?thesis
    proof (cases r)
      case (Inl e)
      with "1.prems" lt r have "e = EINTR" "read_loop path offset dn buf w1 = (OK, buf', w')"
        by (auto simp: read_loop.simps [of path offset dn buf w] split: if_splits)
      with "1.IH"(1) [OF lt r [symmetric] Inl] "1.prems" show ?thesis by (simp add: same)
    next
      case (Inr chunk)
      with "1.prems" lt r have ne: "chunk \<noteq> []" and
        rest: "read_loop path offset (dn + length chunk) (memcpy_at buf dn chunk) w1 = (OK, buf', w')"
        by (auto simp: read_loop.simps [of path offset dn buf w] split: if_splits)
      have len: "dn + length chunk \<le> length buf"
        using sys_pread_data(1) [OF r [unfolded Inr]] lt by simp
      have pre: "take (dn + length chunk) (memcpy_at buf dn chunk) =
          map (dev_content path w) [offset..<offset + (dn + length chunk)]"
        using memcpy_at_prefix [OF "1.prems"(3) len] sys_pread_content [OF r [unfolded Inr]] by blast
      show ?thesis
        using "1.IH"(2) [OF lt r [symmetric] Inr ne rest] len pre by (simp add: same)
    qed
  qed
qed

definition in_range :: "nat \<Rightarrow> bytes \<Rightarrow> nat \<Rightarrow> char \<Rightarrow> bool" where
  "in_range off bs a c \<longleftrightarrow> off \<le> a \<and> a < off + length bs \<and> c = bs ! (a - off)"

lemma write_loop_wrote:
  "write_loop path offset dn input w = (s, w') \<Longrightarrow>
     wrote path (\<lambda>a c. offset + dn \<le> a \<and> in_range offset input a c) w w'"
proof (induction path offset dn input w rule: write_loop.induct)
  case (1 path offset dn input w)
  let ?P = "\<lambda>dn a c. offset + dn \<le> a \<and> in_range offset input a c"
  obtain r w1 where r: "sys_pwrite path (offset + dn) (drop dn input) w = (r, w1)"
    by (cases "sys_pwrite path (offset + dn) (drop dn input) w")
  have w1: "wrote path (?P dn) w w1"
    by (rule wrote_mono [OF sys_pwrite_wrote(1) [OF r]]) (auto simp: in_range_def)
  have step: "wrote path (?P dn) w w'" if "wrote path (?P (dn + n)) w1 w'" for n
    by (rule wrote_trans [OF w1 that]) auto
  show ?case
    using "1" r w1 step [of 0] step
    by (auto simp: write_loop.simps [of path offset dn input w] intro: wrote_refl
        split: if_splits sum.splits)
qed

lemma write_loop_OK:
  "write_loop path offset dn input w = (OK, w') \<Longrightarrow> offset + dn \<le> a \<Longrightarrow> a < offset + length input \<Longrightarrow>
     dev_content path w' a = input ! (a - offset)"
proof (induction path offset dn input w rule: write_loop.induct)
  case (1 path offset dn input w)
  obtain r w1 where r: "sys_pwrite path (offset + dn) (drop dn input) w = (r, w1)"
    by (cases "sys_pwrite path (offset + dn) (drop dn input) w")
  have lt: "dn < length input" using "1.prems"(2,3) by simp
  show ?case
  proof (cases r)
    case (Inl e)
    with "1" lt r show ?thesis
      by (auto simp: write_loop.simps [of path offset dn input w] split: if_splits)
  next
    case (Inr n)
    with "1.prems" lt r have n: "n \<noteq> 0" and
      rest: "write_loop path offset (dn + n) input w1 = (OK, w')"
      by (auto simp: write_loop.simps [of path offset dn input w] split: if_splits)
    show ?thesis
    proof (cases "offset + (dn + n) \<le> a")
      case True
      from "1.IH"(2) [OF lt r [symmetric] Inr n rest True "1.prems"(3)] show ?thesis .
    next
      case False
      have "dev_content path w1 a = input ! (a - offset)"
        using sys_pwrite_wrote(2) [OF r Inr, of a] "1.prems"(2,3) False by simp
      then show ?thesis
        using wrote_content [OF write_loop_wrote [OF rest], of a] False by (simp add: in_range_def)
    qed
  qed
qed

section \<open>The backend's contract\<close>

text \<open>
  What the middleware needs from a raw device: reads return the bytes and change nothing; a write
  changes only bytes of its range and only to the bytes given, even when it fails half way; a
  write that reports success has stored them all.
\<close>

locale raw_device =
  fixes content :: "'w \<Rightarrow> nat \<Rightarrow> char"
    and rd :: "nat \<Rightarrow> bytes \<Rightarrow> 'w \<Rightarrow> Status \<times> bytes \<times> 'w"
    and wr :: "nat \<Rightarrow> bytes \<Rightarrow> 'w \<Rightarrow> Status \<times> 'w"
  assumes rd_content: "rd off buf w = (s, buf', w') \<Longrightarrow> content w' = content w"
    and rd_length: "rd off buf w = (s, buf', w') \<Longrightarrow> length buf' = length buf"
    and rd_OK: "rd off buf w = (OK, buf', w') \<Longrightarrow> buf' = map (content w) [off..<off + length buf]"
    and wr_each: "wr off bs w = (s, w') \<Longrightarrow> content w' a = content w a \<or> in_range off bs a (content w' a)"
    and wr_OK: "wr off bs w = (OK, w') \<Longrightarrow> off \<le> a \<Longrightarrow> a < off + length bs \<Longrightarrow> content w' a = bs ! (a - off)"
begin

lemma wr_frame: "wr off bs w = (s, w') \<Longrightarrow> a < off \<or> off + length bs \<le> a \<Longrightarrow> content w' a = content w a"
  using wr_each by (fastforce simp: in_range_def)

lemma rd_after_wr:
  assumes "wr off bs w = (OK, w1)" "rd off buf w1 = (OK, buf', w2)" "length buf = length bs"
  shows "buf' = bs"
  using rd_OK [OF assms(2)] wr_OK [OF assms(1)] assms(3) by (auto intro!: nth_equalityI)

text \<open>Read-modify-write of one track: read it whole, patch it, write it whole.\<close>

lemma rmw_each:
  assumes "rd base buf w = (OK, trk, w1)" "wr base (memcpy_at trk off src) w1 = (s, w2)"
    "off + length src \<le> length buf"
  shows "content w2 a = content w a \<or> in_range (base + off) src a (content w2 a)"
proof -
  have len: "length trk = length buf" by (rule rd_length [OF assms(1)])
  show ?thesis
    using wr_each [OF assms(2), of a] rd_content [OF assms(1)] rd_OK [OF assms(1)] assms(3) len
    by (auto simp: in_range_def nth_memcpy_at split: if_splits)
qed

lemma rmw_OK:
  assumes "rd base buf w = (OK, trk, w1)" "wr base (memcpy_at trk off src) w1 = (OK, w2)"
    "off + length src \<le> length buf"
  shows "content w2 a =
    (if base + off \<le> a \<and> a < base + off + length src then src ! (a - (base + off)) else content w a)"
proof -
  have len: "length trk = length buf" by (rule rd_length [OF assms(1)])
  consider (inside) "base \<le> a" "a < base + length buf" | (outside) "a < base \<or> base + length buf \<le> a"
    by linarith
  then show ?thesis
  proof cases
    case inside
    then have "content w2 a = memcpy_at trk off src ! (a - base)"
      using wr_OK [OF assms(2)] assms(3) len by simp
    also have "\<dots> = (if off \<le> a - base \<and> a - base < off + length src then src ! (a - base - off) else trk ! (a - base))"
      using inside assms(3) len by (intro nth_memcpy_at) auto
    finally show ?thesis
      using inside rd_OK [OF assms(1)] by (auto simp: algebra_simps)
  next
    case outside
    then show ?thesis
      using wr_frame [OF assms(2)] rd_content [OF assms(1)] assms(3) len by auto
  qed
qed

end

definition content :: "IMRSimBackend \<Rightarrow> os_world \<Rightarrow> nat \<Rightarrow> char" where
  "content b w = dev_content (the (fd b)) w"

lemma Read_world:
  "Read offset buf b w = (s, buf', w') \<Longrightarrow> os_devices w' = os_devices w \<and> os_files w' = os_files w"
  by (auto simp: Read_def dest!: sys_memalign_world read_loop_world
      split: Status.splits if_splits prod.splits bool.splits)

lemma Read_length: "Read offset buf b w = (s, buf', w') \<Longrightarrow> length buf' = length buf"
  by (auto simp: Read_def dest!: read_loop_length
      split: Status.splits if_splits prod.splits bool.splits)

lemma Write_wrote:
  assumes "Write offset input b w = (s, w')"
  shows "wrote (the (fd b)) (in_range offset input) w w'"
proof -
  obtain m w1 where m: "sys_memalign w = (m, w1)" by (cases "sys_memalign w")
  have "wrote (the (fd b)) (in_range offset input) w w2"
    if "write_loop (the (fd b)) offset 0 input w1 = (s2, w2)" for s2 w2
    by (rule wrote_trans [OF wrote_refl write_loop_wrote [OF that], where P = "\<lambda>_ _. False"])
      (use sys_memalign_world [OF m] in auto)
  then show ?thesis
    using assms m sys_memalign_world [OF m]
    by (auto simp: Write_def intro: wrote_refl split: Status.splits if_splits bool.splits)
qed

interpretation dev: raw_device "content b" "\<lambda>off buf w. Read off buf b w" "\<lambda>off bs w. Write off bs b w"
  for b
proof unfold_locales
  fix off buf w s buf' w' assume r: "Read off buf b w = (s, buf', w')"
  show "content b w' = content b w"
    using Read_world [OF r] by (simp add: content_def dev_content_def)
  show "length buf' = length buf"
    by (rule Read_length [OF r])
next
  fix off buf w buf' w' assume r: "Read off buf b w = (OK, buf', w')"
  show "buf' = map (content b w) [off..<off + length buf]"
  proof (cases "buf = []")
    case True
    with r show ?thesis by (auto simp: Read_def split: Status.splits)
  next
    case False
    with r obtain w1 where m: "sys_memalign w = (True, w1)"
      and l: "read_loop (the (fd b)) off 0 buf w1 = (OK, buf', w')"
      by (auto simp: Read_def split: Status.splits prod.splits bool.splits)
    from read_loop_OK [OF l] sys_memalign_world [OF m] show ?thesis
      by (simp add: content_def dev_content_def)
  qed
next
  fix off bs w s w' a assume wr: "Write off bs b w = (s, w')"
  show "content b w' a = content b w a \<or> in_range off bs a (content b w' a)"
    using wrote_content [OF Write_wrote [OF wr]] by (simp add: content_def)
next
  fix off bs w w' a assume wr: "Write off bs b w = (OK, w')" and a: "off \<le> a" "a < off + length bs"
  then obtain w1 where "write_loop (the (fd b)) off 0 bs w1 = (OK, w')"
    by (auto simp: Write_def split: Status.splits prod.splits bool.splits if_splits)
  from write_loop_OK [OF this] a show "content b w' a = bs ! (a - off)"
    by (simp add: content_def)
qed

section \<open>Progress\<close>

text \<open>Events that do not end a transfer: a full run, a nonempty short transfer, an interruption.\<close>

fun benign :: "sys_event \<Rightarrow> bool" where
  "benign Sys_full = True"
| "benign (Sys_short k) = (0 < k)"
| "benign (Sys_fail e) = (e = EINTR)"

definition quiet :: "os_world \<Rightarrow> bool" where
  "quiet w \<longleftrightarrow> list_all benign (os_script w)"

lemma quiet_next: "quiet w \<Longrightarrow> next_event w = (e, w') \<Longrightarrow> benign e \<and> quiet w'"
  by (auto simp: quiet_def next_event_def split: list.splits)

lemma quiet_memalign: "quiet w \<Longrightarrow> sys_memalign w = (True, w)"
  by (auto simp: quiet_def sys_memalign_def split: list.splits sys_event.splits errno.splits)

lemma quiet_pread:
  assumes "quiet w" "os_devices w path = Some d" "off + len \<le> dev_size d" "0 < len"
    "sys_pread path off len w = (r, w')"
  shows "quiet w' \<and> (r = Inl EINTR \<or> (\<exists>chunk. r = Inr chunk \<and> chunk \<noteq> []))"
proof -
  obtain e w1 where e: "next_event w = (e, w1)" by (cases "next_event w")
  have q: "benign e" "quiet w1" using quiet_next [OF assms(1) e] by simp_all
  have d: "os_devices w1 path = Some d" using next_event_world [OF e] assms(2) by simp
  have m: "min len (dev_size d - off) = len" using assms(3) by simp
  show ?thesis
  proof (cases e)
    case (Sys_fail x)
    then show ?thesis using assms(5) q by (simp add: sys_pread_def e)
  next
    case Sys_full
    then have "r = Inr (map (dev_bytes d) [off..<off + len])" "w' = w1"
      using assms(5) by (simp_all add: sys_pread_def e d m Let_def event_limit_def)
    then show ?thesis using q assms(4) by simp
  next
    case (Sys_short k)
    then have "r = Inr (map (dev_bytes d) [off..<off + min k len])" "w' = w1"
      using assms(5) by (simp_all add: sys_pread_def e d m Let_def event_limit_def)
    then show ?thesis using q assms(4) Sys_short by simp
  qed
qed

lemma quiet_pwrite:
  assumes "quiet w" "os_devices w path = Some d" "off + length bs \<le> dev_size d" "bs \<noteq> []"
    "sys_pwrite path off bs w = (r, w')"
  shows "quiet w' \<and> (r = Inl EINTR \<or> (\<exists>n. r = Inr n \<and> n \<noteq> 0))"
proof -
  obtain e w1 where e: "next_event w = (e, w1)" by (cases "next_event w")
  have q: "benign e" "quiet w1" using quiet_next [OF assms(1) e] by simp_all
  have d: "os_devices w1 path = Some d" using next_event_world [OF e] assms(2) by simp
  have m: "min (length bs) (dev_size d - off) = length bs" using assms(3) by simp
  show ?thesis
  proof (cases e)
    case (Sys_fail x)
    then show ?thesis using assms(5) q by (simp add: sys_pwrite_def e)
  next
    case Sys_full
    then have "r = Inr (length bs)" "os_script w' = os_script w1"
      using assms(4,5) by (auto simp: sys_pwrite_def e d m Let_def event_limit_def)
    then show ?thesis using q assms(4) by (simp add: quiet_def)
  next
    case (Sys_short k)
    then have "r = Inr (min k (length bs))" "os_script w' = os_script w1"
      using assms(4,5) by (auto simp: sys_pwrite_def e d m Let_def event_limit_def)
    then show ?thesis using q assms(4) Sys_short by (simp add: quiet_def min_def)
  qed
qed

lemma read_loop_progress:
  "quiet w \<Longrightarrow> os_devices w path = Some d \<Longrightarrow> offset + length buf \<le> dev_size d \<Longrightarrow>
     fst (read_loop path offset dn buf w) = OK \<and> quiet (snd (snd (read_loop path offset dn buf w)))"
proof (induction path offset dn buf w rule: read_loop.induct)
  case (1 path offset dn buf w)
  obtain r w1 where r: "sys_pread path (offset + dn) (length buf - dn) w = (r, w1)"
    by (cases "sys_pread path (offset + dn) (length buf - dn) w")
  show ?case
  proof (cases "dn < length buf")
    case lt: True
    have q: "quiet w1" "r = Inl EINTR \<or> (\<exists>chunk. r = Inr chunk \<and> chunk \<noteq> [])"
      using quiet_pread [OF "1.prems"(1,2) _ _ r] "1.prems"(3) lt by auto
    have d: "os_devices w1 path = Some d" using sys_pread_world [OF r] "1.prems"(2) by simp
    have len: "length (memcpy_at buf dn chunk) = length buf" if "r = Inr chunk" for chunk
      using sys_pread_data(1) [of path "offset + dn" "length buf - dn" w chunk w1] r that lt by simp
    show ?thesis
      using q(2) "1.IH"(1) [OF lt r [symmetric] _ _ q(1) d] "1.IH"(2) [OF lt r [symmetric] _ _ q(1) d]
        "1.prems"(3) lt r len
      by (auto simp: read_loop.simps [of path offset dn buf w])
  qed (use "1.prems" in \<open>simp add: read_loop.simps [of path offset dn buf w]\<close>)
qed

lemma wrote_device_size:
  assumes "wrote path P w w'" "os_devices w path = Some d"
  obtains d' where "os_devices w' path = Some d'" "dev_size d' = dev_size d" "dev_durable d' = dev_durable d"
  using assms by (auto simp: wrote_def)

lemma write_loop_progress:
  "quiet w \<Longrightarrow> os_devices w path = Some d \<Longrightarrow> offset + length input \<le> dev_size d \<Longrightarrow>
     fst (write_loop path offset dn input w) = OK \<and> quiet (snd (write_loop path offset dn input w))"
proof (induction path offset dn input w arbitrary: d rule: write_loop.induct)
  case (1 path offset dn input w)
  obtain r w1 where r: "sys_pwrite path (offset + dn) (drop dn input) w = (r, w1)"
    by (cases "sys_pwrite path (offset + dn) (drop dn input) w")
  show ?case
  proof (cases "dn < length input")
    case lt: True
    have q: "quiet w1" "r = Inl EINTR \<or> (\<exists>n. r = Inr n \<and> n \<noteq> 0)"
      using quiet_pwrite [OF "1.prems"(1,2) _ _ r] "1.prems"(3) lt by auto
    obtain d1 where d1: "os_devices w1 path = Some d1" "dev_size d1 = dev_size d"
      using wrote_device_size [OF sys_pwrite_wrote(1) [OF r] "1.prems"(2)] by metis
    show ?thesis
      using q(2) "1.IH"(1) [OF lt r [symmetric] _ _ q(1) d1(1)] "1.IH"(2) [OF lt r [symmetric] _ _ q(1) d1(1)]
        "1.prems"(3) lt r d1(2)
      by (auto simp: write_loop.simps [of path offset dn input w])
  qed (use "1.prems" in \<open>simp add: write_loop.simps [of path offset dn input w]\<close>)
qed

lemma Read_progress:
  assumes "quiet w" "fd b = Some path" "os_devices w path = Some d"
    "ValidateRange offset (length buf) b = OK" "offset + length buf \<le> dev_size d"
  shows "fst (Read offset buf b w) = OK" "quiet (snd (snd (Read offset buf b w)))"
  using read_loop_progress [OF assms(1,3,5), of 0] assms by (auto simp: Read_def quiet_memalign)

lemma Write_progress:
  assumes "quiet w" "fd b = Some path" "os_devices w path = Some d"
    "ValidateRange offset (length input) b = OK" "offset + length input \<le> dev_size d"
  shows "fst (Write offset input b w) = OK" "quiet (snd (Write offset input b w))"
  using write_loop_progress [OF assms(1,3,5), of 0] assms by (auto simp: Write_def quiet_memalign)

section \<open>Arithmetic of the checks\<close>

lemma nat_and_pred_zero:
  fixes n :: nat
  shows "n \<noteq> 0 \<Longrightarrow> n AND (n - 1) = 0 \<longleftrightarrow> (\<exists>k. n = 2 ^ k)"
proof (induction n rule: less_induct)
  case (less n)
  show ?case
  proof (cases "even n")
    case True
    with less.prems obtain m where m: "n = 2 * m" "m \<noteq> 0" by (metis dvd_def mult_is_0)
    have "n AND (n - 1) = 2 * (m AND (m - 1))"
    proof -
      have "(n - 1) div 2 = m - 1" using m by linarith
      then show ?thesis using m by (subst and_rec) simp
    qed
    moreover have "(\<exists>k. n = 2 ^ k) \<longleftrightarrow> (\<exists>k. m = 2 ^ k)"
    proof
      assume "\<exists>k. n = 2 ^ k"
      then obtain k where k: "n = 2 ^ k" ..
      with m(1) have "k \<noteq> 0" by (metis dvd_triv_left odd_one power_0)
      then obtain j where "k = Suc j" by (cases k) auto
      with k m show "\<exists>k. m = 2 ^ k" by auto
    next
      assume "\<exists>k. m = 2 ^ k"
      then show "\<exists>k. n = 2 ^ k" using m(1) by (metis power_Suc)
    qed
    ultimately show ?thesis using less.IH [of m] m by simp
  next
    case False
    then obtain m where m: "n = 2 * m + 1" by (metis oddE)
    have "n AND (n - 1) = 2 * m"
      using m by (subst and_rec) simp
    moreover have "(\<exists>k. n = 2 ^ k) \<longleftrightarrow> m = 0"
    proof
      assume "\<exists>k. n = 2 ^ k"
      then obtain k where k: "n = 2 ^ k" ..
      then have "k = 0" using False by (cases k) auto
      with k m show "m = 0" by simp
    next
      assume "m = 0"
      then show "\<exists>k. n = 2 ^ k" using m by (intro exI [of _ 0]) simp
    qed
    ultimately show ?thesis by simp
  qed
qed

lemma IsPowerOfTwo_unat: "IsPowerOfTwo v \<longleftrightarrow> (\<exists>k. unat v = 2 ^ k)"
proof (cases "v = 0")
  case False
  then have "1 \<le> v" using unat_gt_0 [of v] by (simp add: word_le_nat_alt)
  then have "unat (v - 1) = unat v - 1" by (simp add: unat_sub)
  then have "v AND (v - 1) = 0 \<longleftrightarrow> unat v AND (unat v - 1) = 0"
    using unsigned_and_eq [of v "v - 1", where ?'a = nat] by (metis unsigned_eq_0_iff)
  with False show ?thesis
    using nat_and_pred_zero [of "unat v"] by (simp add: IsPowerOfTwo_def unat_eq_zero)
qed (simp add: IsPowerOfTwo_def)

lemma ValidateRange_OK:
  "ValidateRange offset len b = OK \<longleftrightarrow>
     fd b \<noteq> None \<and> 512 dvd offset \<and> 512 dvd len \<and> direct_io_alignment b dvd offset \<and>
     direct_io_alignment b dvd len \<and> offset < 2 ^ 63 \<and> len < 2 ^ 63"
proof -
  have "(offset + len) mod 2 ^ 64 = offset + len" if "offset < 2 ^ 63" "len < 2 ^ 63"
    using that by simp
  then show ?thesis
    by (auto simp: ValidateRange_def kSectorSize_def mod_eq_0_iff_dvd less_Suc_eq_le)
qed

section \<open>Properties\<close>

text \<open>C15. Whatever the system calls do, a write through the backend leaves every byte outside its
  range and every other device and file unchanged, and changes a byte inside only to the byte
  given; when it reports success, a later successful read of the range returns what was written.\<close>

theorem Write_then_Read:
  assumes "Write offset input b w = (s, w1)"
  shows "os_files w1 = os_files w \<and> (\<forall>q. Some q \<noteq> fd b \<longrightarrow> fd b \<noteq> None \<longrightarrow> os_devices w1 q = os_devices w q) \<and>
    (\<forall>a. content b w1 a = content b w a \<or>
       offset \<le> a \<and> a < offset + length input \<and> content b w1 a = input ! (a - offset)) \<and>
    (\<forall>buf buf' w2. s = OK \<longrightarrow> length buf = length input \<longrightarrow> Read offset buf b w1 = (OK, buf', w2) \<longrightarrow>
       buf' = input)"
proof (intro conjI allI impI)
  show "os_files w1 = os_files w"
    using Write_wrote [OF assms] by (simp add: wrote_def)
  show "os_devices w1 q = os_devices w q" if "Some q \<noteq> fd b" "fd b \<noteq> None" for q
    using Write_wrote [OF assms] that by (auto simp: wrote_def)
  show "content b w1 a = content b w a \<or>
      offset \<le> a \<and> a < offset + length input \<and> content b w1 a = input ! (a - offset)" for a
    using dev.wr_each [OF assms, of a] by (simp add: in_range_def)
  show "buf' = input"
    if "s = OK" "length buf = length input" "Read offset buf b w1 = (OK, buf', w2)" for buf buf' w2
    using dev.rd_after_wr [of offset input b w w1 buf buf' w2] assms that by simp
qed

definition demo_world :: "sys_event list \<Rightarrow> os_world" where
  "demo_world script = \<lparr>os_devices = [''d'' \<mapsto> \<lparr>dev_bytes = (\<lambda>_. CHR ''z''), dev_durable = (\<lambda>_. CHR ''z''),
       dev_size = 1073741824, dev_is_block = True, dev_block_size = 512\<rparr>],
     os_files = (\<lambda>_. None), os_script = script\<rparr>"

definition demo_backend :: IMRSimBackend where
  "demo_backend = \<lparr>fd = Some ''d'', direct_io_alignment = 512, device_path = ''d''\<rparr>"

lemma demo_Write_OK:
  assumes "list_all benign es"
  shows "fst (Write 1024 (replicate 512 (CHR ''x'')) demo_backend (demo_world es)) = OK"
  using assms
  by (intro Write_progress(1) [where path = "''d''" and d = "the (os_devices (demo_world []) ''d'')"])
    (auto simp: demo_world_def demo_backend_def quiet_def ValidateRange_OK)

theorem Write_then_Read_witness:
  "os_files (snd (Write 1024 (replicate 512 (CHR ''x'')) demo_backend (demo_world [Sys_short 7]))) =
     os_files (demo_world [Sys_short 7])"
proof -
  have "Write 1024 (replicate 512 (CHR ''x'')) demo_backend (demo_world [Sys_short 7]) =
      (OK, snd (Write 1024 (replicate 512 (CHR ''x'')) demo_backend (demo_world [Sys_short 7])))"
    using demo_Write_OK [of "[Sys_short 7]"] by (simp add: prod_eq_iff)
  from Write_then_Read [OF this] show ?thesis by blast
qed

text \<open>C22. Interrupted calls and short transfers do not stop the loops: on an open device, for an
  aligned range inside it, reads and writes complete successfully as long as no call fails with
  another error or transfers nothing.\<close>

theorem transfers_complete:
  assumes "list_all benign (os_script w)" "fd b = Some path" "os_devices w path = Some d"
    "direct_io_alignment b dvd offset" "direct_io_alignment b dvd length buf"
    "512 dvd offset" "512 dvd length buf" "offset + length buf \<le> dev_size d" "dev_size d < 2 ^ 63"
  shows "fst (Read offset buf b w) = OK \<and> fst (Write offset buf b w) = OK"
proof -
  have v: "ValidateRange offset (length buf) b = OK"
    using assms by (simp add: ValidateRange_OK)
  have "quiet w" using assms(1) by (simp add: quiet_def)
  from Read_progress(1) [OF this assms(2,3) v assms(8)] Write_progress(1) [OF this assms(2,3) v assms(8)]
  show ?thesis ..
qed

theorem transfers_complete_witness:
  "fst (Read 512 (replicate 1024 (CHR ''x'')) demo_backend
     (demo_world [Sys_fail EINTR, Sys_short 100, Sys_fail EINTR])) = OK"
proof -
  have "list_all benign (os_script (demo_world [Sys_fail EINTR, Sys_short 100, Sys_fail EINTR]))"
    "fd demo_backend = Some ''d''"
    "os_devices (demo_world [Sys_fail EINTR, Sys_short 100, Sys_fail EINTR]) ''d'' =
       Some (the (os_devices (demo_world []) ''d''))"
    "direct_io_alignment demo_backend dvd 512"
    "direct_io_alignment demo_backend dvd length (replicate 1024 (CHR ''x''))"
    "512 dvd (512::nat)" "512 dvd length (replicate 1024 (CHR ''x''))"
    "512 + length (replicate 1024 (CHR ''x'')) \<le> dev_size (the (os_devices (demo_world []) ''d''))"
    "dev_size (the (os_devices (demo_world []) ''d'')) < 2 ^ 63"
    by (simp_all add: demo_world_def demo_backend_def)
  from transfers_complete [OF this] show ?thesis by blast
qed


text \<open>C27. A backend that opened a block device has a power-of-two alignment of at least one
  sector; a failed open leaves the backend closed as it was.\<close>

theorem Open_alignment:
  assumes "fd b = None" "Open path b w = (s, b', w')"
    "\<forall>d. os_devices w path = Some d \<longrightarrow> dev_block_size d < 2 ^ 31"
  shows "(s \<noteq> OK \<longrightarrow> b' = b) \<and>
    (s = OK \<longrightarrow> fd b' = Some path \<and> 512 \<le> direct_io_alignment b' \<and> (\<exists>k. direct_io_alignment b' = 2 ^ k))"
proof -
  have pow: "\<exists>k. nat n = 2 ^ k" if "IsPowerOfTwo (word_of_int n)" "512 \<le> n" "n < 2 ^ 31" for n
  proof -
    have "unat (word_of_int n :: u64) = nat n"
      using that(2,3) by (simp add: unsigned_of_int take_bit_int_eq_self)
    then show ?thesis using that(1) by (simp add: IsPowerOfTwo_unat)
  qed
  obtain r w1 where o: "sys_open_device path w = (r, w1)" by (cases "sys_open_device path w")
  have dev: "r = Inr d' \<Longrightarrow> os_devices w path = Some d'" for d'
    using o by (auto simp: sys_open_device_def dest: sys_simple_world split: prod.splits sum.splits option.splits)
  have "\<exists>k. 512 = (2::nat) ^ k" by (rule exI [of _ 9]) simp
  then show ?thesis
    using assms dev o pow
    by (auto simp: Open_def kSectorSize_def Let_def not_less split: sum.splits prod.splits if_splits)
qed

theorem Open_alignment_witness:
  "512 \<le> direct_io_alignment (fst (snd (Open ''d'' new_backend (demo_world []))))"
proof -
  have closed: "fd new_backend = None" by (simp add: new_backend_def)
  have bs: "\<forall>d. os_devices (demo_world []) ''d'' = Some d \<longrightarrow> dev_block_size d < 2 ^ 31"
    by (simp add: demo_world_def)
  have "fst (Open ''d'' new_backend (demo_world [])) = OK"
    by (simp add: Open_def new_backend_def sys_open_device_def sys_simple_def next_event_def demo_world_def
        kSectorSize_def IsPowerOfTwo_def Let_def)
  then have "Open ''d'' new_backend (demo_world []) = (OK, snd (Open ''d'' new_backend (demo_world [])))"
    by (simp add: prod_eq_iff)
  then have op: "Open ''d'' new_backend (demo_world []) =
      (OK, fst (snd (Open ''d'' new_backend (demo_world []))), snd (snd (Open ''d'' new_backend (demo_world []))))"
    by simp
  from Open_alignment [OF closed op bs] show ?thesis by blast
qed

end
