(* ===== verification/Kvimr_Metadata.thy ===== *)
theory Kvimr_Metadata
  imports Track_Allocator Imrsim_Backend
begin

text \<open>
  The on-disk format of the \<open>KVIMR-META\<close> snapshot and the file-name helpers, from
  \<open>db/kvimr.cc\<close>: little-endian integers (\<open>Put32\<close>, \<open>Put64\<close>, \<open>Get32\<close>, \<open>Get64\<close>), the
  segment and file entries that \<open>PersistSnapshotLocked\<close> writes and \<open>LoadSnapshotLocked\<close> parses,
  and \<open>FileNumber\<close>.  The locale \<open>fixed_codec\<close> is the interface of a self-delimiting field; all
  fields of the format are instances of it, and so is a counted list of them.
\<close>

section \<open>Integers\<close>

text \<open>\<open>static_cast<char>(value >> (i * 8))\<close> keeps the low eight bits.\<close>

definition byte_at :: "'a::len word \<Rightarrow> nat \<Rightarrow> char" where
  "byte_at v i = char_of (unat (drop_bit (i * 8) v))"

definition Put32 :: "u32 \<Rightarrow> bytes" where
  "Put32 v = map (byte_at v) [0..<4]"

definition Put64 :: "u64 \<Rightarrow> bytes" where
  "Put64 v = map (byte_at v) [0..<8]"

text \<open>The accumulation \<open>*value |= (uint)(unsigned char)in[*pos + i] << (i * 8)\<close>.\<close>

definition or_bytes :: "nat \<Rightarrow> bytes \<Rightarrow> nat \<Rightarrow> 'a::len word" where
  "or_bytes n inp pos =
     foldl (\<lambda>v i. v OR push_bit (i * 8) (word_of_nat (of_char (inp ! (pos + i))))) 0 [0..<n]"

definition Get32 :: "bytes \<Rightarrow> nat \<Rightarrow> (u32 \<times> nat) option" where
  "Get32 inp pos = (if pos + 4 > length inp then None else Some (or_bytes 4 inp pos, pos + 4))"

definition Get64 :: "bytes \<Rightarrow> nat \<Rightarrow> (u64 \<times> nat) option" where
  "Get64 inp pos = (if pos + 8 > length inp then None else Some (or_bytes 8 inp pos, pos + 8))"

text \<open>The one-byte flags: \<open>pos >= bytes.size()\<close> fails, otherwise \<open>bytes[pos++] != 0\<close>.\<close>

definition PutFlag :: "bool \<Rightarrow> bytes" where
  "PutFlag v = [if v then CHR 0x01 else zero_byte]"

definition GetFlag :: "bytes \<Rightarrow> nat \<Rightarrow> (bool \<times> nat) option" where
  "GetFlag inp pos = (if pos \<ge> length inp then None else Some (inp ! pos \<noteq> zero_byte, pos + 1))"

text \<open>\<open>bytes.append(relative)\<close> and \<open>bytes.substr(pos, path_len)\<close>.\<close>

definition GetBytes :: "nat \<Rightarrow> bytes \<Rightarrow> nat \<Rightarrow> (bytes \<times> nat) option" where
  "GetBytes n inp pos = (if pos + n > length inp then None else Some (substr inp pos n, pos + n))"

section \<open>The codec interface\<close>

locale fixed_codec =
  fixes valid :: "'a \<Rightarrow> bool"
    and put :: "'a \<Rightarrow> bytes"
    and get :: "bytes \<Rightarrow> nat \<Rightarrow> ('a \<times> nat) option"
  assumes get_put: "valid v \<Longrightarrow> get (xs @ put v @ ys) (length xs) = Some (v, length xs + length (put v))"
begin

lemma get_put_at:
  assumes "valid v" "inp = xs @ put v @ ys" "pos = length xs"
  shows "get inp pos = Some (v, pos + length (put v))"
  using get_put [OF assms(1)] assms(2,3) by simp

end

lemma bit_of_char_small: "bit (of_char c :: nat) j \<Longrightarrow> j < 8"
proof (rule ccontr)
  assume "bit (of_char c :: nat) j" "\<not> j < 8"
  moreover have "take_bit 8 (of_char c :: nat) = of_char c"
    by (simp add: take_bit_eq_mod)
  ultimately show False by (metis bit_take_bit_iff)
qed

lemma bit_or_bytes:
  "bit (or_bytes n inp pos :: 'a::len word) k \<longleftrightarrow>
     k < LENGTH('a) \<and> k div 8 < n \<and> bit (of_char (inp ! (pos + k div 8)) :: nat) (k mod 8)"
proof (induction n)
  case (Suc n)
  let ?c = "of_char (inp ! (pos + n)) :: nat"
  have eq: "(or_bytes (Suc n) inp pos :: 'a word) = or_bytes n inp pos OR push_bit (n * 8) (word_of_nat ?c)"
    by (simp add: or_bytes_def)
  have "n * 8 \<le> k \<and> bit ?c (k - n * 8) \<longleftrightarrow> k div 8 = n \<and> bit ?c (k mod 8)"
  proof
    assume a: "n * 8 \<le> k \<and> bit ?c (k - n * 8)"
    then have "k - n * 8 < 8" using bit_of_char_small by blast
    with a have n: "k div 8 = n" by linarith
    then have "k mod 8 = k - n * 8" using div_mult_mod_eq [of k 8] by simp
    with a n have "k div 8 = n" "k mod 8 = k - n * 8" by simp_all
    with a show "k div 8 = n \<and> bit ?c (k mod 8)" by simp
  next
    assume a: "k div 8 = n \<and> bit ?c (k mod 8)"
    then have "n * 8 \<le> k" "k - n * 8 = k mod 8" using div_mult_mod_eq [of k 8] by linarith+
    with a show "n * 8 \<le> k \<and> bit ?c (k - n * 8)" by simp
  qed
  then have "bit (push_bit (n * 8) (word_of_nat ?c) :: 'a word) k \<longleftrightarrow>
      k < LENGTH('a) \<and> k div 8 = n \<and> bit ?c (k mod 8)"
    by (auto simp: bit_push_bit_iff bit_of_nat_iff)
  then show ?case
    using Suc by (auto simp: eq bit_or_iff less_Suc_eq)
qed (simp add: or_bytes_def)

lemma bit_byte_at: "j < 8 \<Longrightarrow> bit (of_char (byte_at v i) :: nat) j \<longleftrightarrow> bit v (i * 8 + j)"
proof -
  assume j: "j < 8"
  have "of_char (byte_at v i) = (take_bit 8 (unat (drop_bit (i * 8) v)) :: nat)"
    by (simp add: byte_at_def take_bit_eq_mod)
  then show ?thesis
    using j by (simp add: bit_take_bit_iff bit_unsigned_iff bit_drop_bit_eq)
qed

lemma or_bytes_put:
  fixes v :: "'a::len word"
  assumes "LENGTH('a) = n * 8"
  shows "or_bytes n (xs @ map (byte_at v) [0..<n] @ ys) (length xs) = v"
proof (rule bit_word_eqI)
  fix k assume k: "k < LENGTH('a)"
  then have d: "k div 8 < n" using assms by auto
  then have "(xs @ map (byte_at v) [0..<n] @ ys) ! (length xs + k div 8) = byte_at v (k div 8)"
    by (simp add: nth_append)
  then show "bit (or_bytes n (xs @ map (byte_at v) [0..<n] @ ys) (length xs) :: 'a word) k = bit v k"
    using k d by (simp add: bit_or_bytes bit_byte_at)
qed

lemma length_Put [simp]: "length (Put32 a) = 4" "length (Put64 b) = 8" "length (PutFlag c) = 1"
  by (simp_all add: Put32_def Put64_def PutFlag_def)

interpretation c32: fixed_codec "\<lambda>_. True" Put32 Get32
  by unfold_locales (simp add: Get32_def Put32_def or_bytes_put)

interpretation c64: fixed_codec "\<lambda>_. True" Put64 Get64
  by unfold_locales (simp add: Get64_def Put64_def or_bytes_put)

interpretation cflag: fixed_codec "\<lambda>_. True" PutFlag GetFlag
  by unfold_locales (simp add: GetFlag_def PutFlag_def)

interpretation cbytes: fixed_codec "\<lambda>v. length v = n" "\<lambda>v. v" "GetBytes n" for n
  by unfold_locales (auto simp: GetBytes_def)

section \<open>Segments\<close>

text \<open>The body of the segment loops of \<open>PersistSnapshotLocked\<close> and \<open>LoadSnapshotLocked\<close>.\<close>

definition PutSegment :: "KVIMRTrackSegment \<Rightarrow> bytes" where
  "PutSegment segment =
     Put32 (word_of_nat (seg_zone segment)) @ Put32 (word_of_nat (seg_group segment)) @
     PutFlag (seg_type segment = BOTTOM) @
     Put64 (word_of_nat (logical_sector_start segment)) @ Put32 (word_of_nat (sector_length segment))"

definition GetSegment :: "bytes \<Rightarrow> nat \<Rightarrow> (KVIMRTrackSegment \<times> nat) option" where
  "GetSegment inp pos =
     (case Get32 inp pos of None \<Rightarrow> None | Some (zone, pos) \<Rightarrow>
     (case Get32 inp pos of None \<Rightarrow> None | Some (grp, pos) \<Rightarrow>
     (case GetFlag inp pos of None \<Rightarrow> None | Some (is_bottom, pos) \<Rightarrow>
     (case Get64 inp pos of None \<Rightarrow> None | Some (start, pos) \<Rightarrow>
     (case Get32 inp pos of None \<Rightarrow> None | Some (len, pos) \<Rightarrow>
        Some (\<lparr>seg_zone = unat zone, seg_group = unat grp,
               seg_type = (if is_bottom then BOTTOM else TOP),
               logical_sector_start = unat start, sector_length = unat len\<rparr>, pos))))))"

text \<open>Segments whose fields fit their C types.\<close>

definition segment_fits :: "KVIMRTrackSegment \<Rightarrow> bool" where
  "segment_fits s \<longleftrightarrow> seg_zone s < 2 ^ 32 \<and> seg_group s < 2 ^ 32 \<and>
     logical_sector_start s < 2 ^ 64 \<and> sector_length s < 2 ^ 32"

fun GetSegments :: "nat \<Rightarrow> bytes \<Rightarrow> nat \<Rightarrow> (KVIMRTrackSegment list \<times> nat) option" where
  "GetSegments 0 inp pos = Some ([], pos)"
| "GetSegments (Suc n) inp pos =
     (case GetSegment inp pos of None \<Rightarrow> None | Some (seg, pos) \<Rightarrow>
     (case GetSegments n inp pos of None \<Rightarrow> None | Some (segs, pos) \<Rightarrow> Some (seg # segs, pos)))"

lemma length_PutSegment [simp]: "length (PutSegment s) = 21"
  by (simp add: PutSegment_def)

lemma unat_of_nat_fits:
  "n < 2 ^ 32 \<Longrightarrow> unat (word_of_nat n :: u32) = n" "n < 2 ^ 64 \<Longrightarrow> unat (word_of_nat n :: u64) = n"
  by (simp_all add: unsigned_of_nat take_bit_nat_eq_self)

interpretation cseg: fixed_codec segment_fits PutSegment GetSegment
proof unfold_locales
  fix s :: KVIMRTrackSegment and xs ys assume fits: "segment_fits s"
  let ?z = "Put32 (word_of_nat (seg_zone s))" let ?g = "Put32 (word_of_nat (seg_group s))"
  let ?f = "PutFlag (seg_type s = BOTTOM)" let ?l = "Put64 (word_of_nat (logical_sector_start s))"
  let ?n = "Put32 (word_of_nat (sector_length s))"
  define inp where "inp = xs @ PutSegment s @ ys"
  have "Get32 inp (length xs) = Some (word_of_nat (seg_zone s), length xs + 4)"
    using c32.get_put_at [of inp xs _ "?g @ ?f @ ?l @ ?n @ ys"] by (simp add: inp_def PutSegment_def)
  moreover have "Get32 inp (length xs + 4) = Some (word_of_nat (seg_group s), length xs + 8)"
    using c32.get_put_at [of inp "xs @ ?z" _ "?f @ ?l @ ?n @ ys" "length xs + 4"] by (simp add: inp_def PutSegment_def)
  moreover have "GetFlag inp (length xs + 8) = Some (seg_type s = BOTTOM, length xs + 9)"
    using cflag.get_put_at [of inp "xs @ ?z @ ?g" _ "?l @ ?n @ ys" "length xs + 8"] by (simp add: inp_def PutSegment_def)
  moreover have "Get64 inp (length xs + 9) = Some (word_of_nat (logical_sector_start s), length xs + 17)"
    using c64.get_put_at [of inp "xs @ ?z @ ?g @ ?f" _ "?n @ ys" "length xs + 9"] by (simp add: inp_def PutSegment_def)
  moreover have "Get32 inp (length xs + 17) = Some (word_of_nat (sector_length s), length xs + 21)"
    using c32.get_put_at [of inp "xs @ ?z @ ?g @ ?f @ ?l" _ ys "length xs + 17"] by (simp add: inp_def PutSegment_def)
  moreover have "(if seg_type s = BOTTOM then BOTTOM else TOP) = seg_type s"
    by (cases "seg_type s") simp_all
  ultimately show "GetSegment (xs @ PutSegment s @ ys) (length xs) = Some (s, length xs + length (PutSegment s))"
    using fits unfolding inp_def [symmetric]
    by (simp add: GetSegment_def segment_fits_def unat_of_nat_fits)
qed

lemma GetSegments_put:
  "list_all segment_fits segs \<Longrightarrow>
     GetSegments (length segs) (xs @ concat (map PutSegment segs) @ ys) (length xs) =
       Some (segs, length xs + length (concat (map PutSegment segs)))"
proof (induction segs arbitrary: xs)
  case (Cons s segs)
  from Cons.IH [of "xs @ PutSegment s"] Cons.prems
  have "GetSegments (length segs) (xs @ PutSegment s @ concat (map PutSegment segs) @ ys) (length xs + 21) =
      Some (segs, length xs + 21 + length (concat (map PutSegment segs)))"
    by simp
  with Cons.prems cseg.get_put [of s xs "concat (map PutSegment segs) @ ys"] show ?case
    by simp
qed simp

interpretation csegs: fixed_codec "\<lambda>segs. list_all segment_fits segs \<and> length segs = n"
  "\<lambda>segs. concat (map PutSegment segs)" "GetSegments n" for n
  by unfold_locales (use GetSegments_put in auto)

section \<open>File entries\<close>

text \<open>One file of the snapshot, as \<open>LoadSnapshotLocked\<close> reads it before it touches any state.\<close>

record meta_entry =
  me_file_number :: u64
  me_level :: int
  me_largest :: int
  me_size :: u64
  me_synced :: bool
  me_relative :: string
  me_tracks :: "KVIMRTrackSegment list"

definition PutEntry :: "meta_entry \<Rightarrow> bytes" where
  "PutEntry e =
     Put64 (me_file_number e) @ Put32 (word_of_int (me_level e)) @ Put32 (word_of_int (me_largest e)) @
     Put64 (me_size e) @ PutFlag (me_synced e) @
     Put32 (word_of_nat (length (me_relative e))) @ me_relative e @
     Put32 (word_of_nat (length (me_tracks e))) @ concat (map PutSegment (me_tracks e))"

definition get_or :: "Status \<Rightarrow> ('a \<times> nat) option \<Rightarrow> ('a \<Rightarrow> nat \<Rightarrow> Status + 'b) \<Rightarrow> Status + 'b" where
  "get_or err r k = (case r of None \<Rightarrow> Inl err | Some (v, pos) \<Rightarrow> k v pos)"

lemma get_or_simps [simp]: "get_or err None k = Inl err" "get_or err (Some (v, pos)) k = k v pos"
  by (simp_all add: get_or_def)

definition GetEntry :: "bytes \<Rightarrow> nat \<Rightarrow> Status + (meta_entry \<times> nat)" where
  "GetEntry inp pos =
     (let truncated = Corruption ''truncated KVIMR metadata entry'' in
      get_or truncated (Get64 inp pos) (\<lambda>file_number pos.
      get_or truncated (Get32 inp pos) (\<lambda>level pos.
      get_or truncated (Get32 inp pos) (\<lambda>largest pos.
      get_or truncated (Get64 inp pos) (\<lambda>size pos.
      get_or truncated (GetFlag inp pos) (\<lambda>synced pos.
      get_or truncated (Get32 inp pos) (\<lambda>path_len pos.
      get_or truncated (GetBytes (unat path_len) inp pos) (\<lambda>relative pos.
      get_or (Corruption ''truncated KVIMR segment list'') (Get32 inp pos) (\<lambda>seg_count pos.
      get_or (Corruption ''truncated KVIMR segment'') (GetSegments (unat seg_count) inp pos) (\<lambda>tracks pos.
        Inr (\<lparr>me_file_number = file_number, me_level = sint level, me_largest = sint largest,
               me_size = size, me_synced = synced, me_relative = relative,
               me_tracks = tracks\<rparr>, pos)))))))))))"

text \<open>Entries whose fields fit their C types and 32-bit counts.\<close>

definition entry_fits :: "meta_entry \<Rightarrow> bool" where
  "entry_fits e \<longleftrightarrow> - (2 ^ 31) \<le> me_level e \<and> me_level e < 2 ^ 31 \<and>
     - (2 ^ 31) \<le> me_largest e \<and> me_largest e < 2 ^ 31 \<and>
     length (me_relative e) < 2 ^ 32 \<and> length (me_tracks e) < 2 ^ 32 \<and>
     list_all segment_fits (me_tracks e)"

lemma sint_of_int_fits: "- (2 ^ 31) \<le> i \<Longrightarrow> i < 2 ^ 31 \<Longrightarrow> sint (word_of_int i :: u32) = i"
  by (simp add: signed_of_int signed_take_bit_int_eq_self)

lemma GetEntry_put:
  assumes fits: "entry_fits e"
  shows "GetEntry (xs @ PutEntry e @ ys) (length xs) = Inr (e, length xs + length (PutEntry e))"
proof -
  let ?a = "Put64 (me_file_number e)" let ?b = "Put32 (word_of_int (me_level e))"
  let ?c = "Put32 (word_of_int (me_largest e))" let ?d = "Put64 (me_size e)"
  let ?e = "PutFlag (me_synced e)" let ?f = "Put32 (word_of_nat (length (me_relative e)))"
  let ?g = "me_relative e" let ?h = "Put32 (word_of_nat (length (me_tracks e)))"
  let ?i = "concat (map PutSegment (me_tracks e))"
  let ?n = "length xs" and ?m = "length (me_relative e)"
  define inp where "inp = xs @ PutEntry e @ ys"
  have inp: "inp = xs @ ?a @ ?b @ ?c @ ?d @ ?e @ ?f @ ?g @ ?h @ ?i @ ys"
    by (simp add: inp_def PutEntry_def)
  have "Get64 inp ?n = Some (me_file_number e, ?n + 8)"
    using c64.get_put_at [of inp xs _ "?b @ ?c @ ?d @ ?e @ ?f @ ?g @ ?h @ ?i @ ys"] by (simp add: inp)
  moreover have "Get32 inp (?n + 8) = Some (word_of_int (me_level e), ?n + 12)"
    using c32.get_put_at [of inp "xs @ ?a" _ "?c @ ?d @ ?e @ ?f @ ?g @ ?h @ ?i @ ys" "?n + 8"] by (simp add: inp)
  moreover have "Get32 inp (?n + 12) = Some (word_of_int (me_largest e), ?n + 16)"
    using c32.get_put_at [of inp "xs @ ?a @ ?b" _ "?d @ ?e @ ?f @ ?g @ ?h @ ?i @ ys" "?n + 12"] by (simp add: inp)
  moreover have "Get64 inp (?n + 16) = Some (me_size e, ?n + 24)"
    using c64.get_put_at [of inp "xs @ ?a @ ?b @ ?c" _ "?e @ ?f @ ?g @ ?h @ ?i @ ys" "?n + 16"] by (simp add: inp)
  moreover have "GetFlag inp (?n + 24) = Some (me_synced e, ?n + 25)"
    using cflag.get_put_at [of inp "xs @ ?a @ ?b @ ?c @ ?d" _ "?f @ ?g @ ?h @ ?i @ ys" "?n + 24"] by (simp add: inp)
  moreover have "Get32 inp (?n + 25) = Some (word_of_nat ?m, ?n + 29)"
    using c32.get_put_at [of inp "xs @ ?a @ ?b @ ?c @ ?d @ ?e" _ "?g @ ?h @ ?i @ ys" "?n + 25"] by (simp add: inp)
  moreover have "GetBytes ?m inp (?n + 29) = Some (?g, ?n + 29 + ?m)"
    using cbytes.get_put_at [of ?g ?m inp "xs @ ?a @ ?b @ ?c @ ?d @ ?e @ ?f" "?h @ ?i @ ys" "?n + 29"]
    by (simp add: inp)
  moreover have "Get32 inp (?n + 29 + ?m) = Some (word_of_nat (length (me_tracks e)), ?n + 33 + ?m)"
    using c32.get_put_at [of inp "xs @ ?a @ ?b @ ?c @ ?d @ ?e @ ?f @ ?g" _ "?i @ ys" "?n + 29 + ?m"]
    by (simp add: inp)
  moreover have "GetSegments (length (me_tracks e)) inp (?n + 33 + ?m) = Some (me_tracks e, ?n + 33 + ?m + length ?i)"
    using csegs.get_put_at [of "me_tracks e" "length (me_tracks e)" inp
        "xs @ ?a @ ?b @ ?c @ ?d @ ?e @ ?f @ ?g @ ?h" ys "?n + 33 + ?m"] fits
    by (simp add: inp entry_fits_def)
  ultimately show ?thesis
    using fits unfolding inp_def [symmetric]
    by (simp add: GetEntry_def entry_fits_def unat_of_nat_fits sint_of_int_fits PutEntry_def)
qed

section \<open>Snapshot header\<close>

definition kMetadataVersion :: nat where "kMetadataVersion = 1"
definition kMetadataMagic :: string where "kMetadataMagic = ''KVIMR35A''"

definition PutHeader :: "nat \<Rightarrow> nat \<Rightarrow> bytes" where
  "PutHeader configured_zones count =
     kMetadataMagic @ Put32 (word_of_nat kMetadataVersion) @ Put32 (word_of_nat kSectorSize) @
     Put32 (word_of_nat kZoneSectors) @ Put32 (word_of_nat kGroupsPerZone) @
     Put32 (word_of_nat kTopSectors) @ Put32 (word_of_nat kBottomSectors) @
     Put32 (word_of_nat configured_zones) @ Put32 (word_of_nat count)"

fun GetWords :: "nat \<Rightarrow> bytes \<Rightarrow> nat \<Rightarrow> (u32 list \<times> nat) option" where
  "GetWords 0 inp pos = Some ([], pos)"
| "GetWords (Suc n) inp pos =
     (case Get32 inp pos of None \<Rightarrow> None | Some (v, pos) \<Rightarrow>
     (case GetWords n inp pos of None \<Rightarrow> None | Some (vs, pos) \<Rightarrow> Some (v # vs, pos)))"

text \<open>The checks of \<open>LoadSnapshotLocked\<close> before its entry loop: the entry count and the position.\<close>

definition GetHeader :: "nat \<Rightarrow> bytes \<Rightarrow> Status + (nat \<times> nat)" where
  "GetHeader configured_zones inp =
     (if length inp < length kMetadataMagic \<or> take (length kMetadataMagic) inp \<noteq> kMetadataMagic
      then Inl (Corruption ''invalid KVIMR metadata magic'')
      else case GetWords 8 inp (length kMetadataMagic) of
          None \<Rightarrow> Inl (Corruption ''truncated KVIMR metadata'')
        | Some (ws, pos) \<Rightarrow>
            if map unat (take 7 ws) \<noteq>
                 [kMetadataVersion, kSectorSize, kZoneSectors, kGroupsPerZone, kTopSectors, kBottomSectors,
                  configured_zones]
            then Inl (InvalidArgument ''KVIMR metadata geometry mismatch'')
            else Inr (unat (ws ! 7), pos))"

lemma GetWords_put:
  "GetWords (length ws) (xs @ concat (map Put32 ws) @ ys) (length xs) =
     Some (ws, length xs + length (concat (map Put32 ws)))"
proof (induction ws arbitrary: xs)
  case (Cons w ws)
  from Cons.IH [of "xs @ Put32 w"] c32.get_put [of xs w "concat (map Put32 ws) @ ys"] show ?case
    by simp
qed simp

lemma length_PutHeader [simp]: "length (PutHeader z n) = 40"
  by (simp add: PutHeader_def kMetadataMagic_def)

lemma GetHeader_put:
  assumes "z < 2 ^ 32" "n < 2 ^ 32"
  shows "GetHeader z (PutHeader z n @ ys) = Inr (n, 40)"
proof -
  let ?ws = "map word_of_nat [kMetadataVersion, kSectorSize, kZoneSectors, kGroupsPerZone, kTopSectors,
      kBottomSectors, z, n] :: u32 list"
  have "PutHeader z n = kMetadataMagic @ concat (map Put32 ?ws)"
    by (simp add: PutHeader_def)
  moreover have "length ?ws = 8" "length kMetadataMagic + length (concat (map Put32 ?ws)) = 40"
    by (simp_all add: kMetadataMagic_def)
  ultimately have "GetWords 8 (PutHeader z n @ ys) (length kMetadataMagic) = Some (?ws, 40)"
    using GetWords_put [of ?ws kMetadataMagic ys] by (metis append.assoc)
  moreover have "map unat (take 7 ?ws) =
      [kMetadataVersion, kSectorSize, kZoneSectors, kGroupsPerZone, kTopSectors, kBottomSectors, z]"
    using assms by (simp add: unat_of_nat_fits kMetadataVersion_def kSectorSize_def geometry_defs)
  moreover have "take (length kMetadataMagic) (PutHeader z n @ ys) = kMetadataMagic"
    by (simp add: PutHeader_def)
  ultimately show ?thesis
    using assms by (simp add: GetHeader_def unat_of_nat_fits kMetadataMagic_def)
qed

section \<open>File names\<close>

definition is_slash :: "char \<Rightarrow> bool" where
  "is_slash c \<longleftrightarrow> c = CHR ''/'' \<or> c = CHR 0x5C"

text \<open>\<open>fname.find_last_of\<close> of a slash: the part up to and including it, and the part after it.\<close>

definition base_name :: "string \<Rightarrow> string" where
  "base_name fname = rev (takeWhile (\<lambda>c. \<not> is_slash c) (rev fname))"

definition is_digit :: "char \<Rightarrow> bool" where
  "is_digit c \<longleftrightarrow> CHR ''0'' \<le> c \<and> c \<le> CHR ''9''"

definition FileNumber :: "string \<Rightarrow> u64" where
  "FileNumber fname =
     (let base = base_name fname; stem = takeWhile (\<lambda>c. c \<noteq> CHR ''.'') base
      in if stem = base \<or> stem = [] then 0
         else if \<not> list_all is_digit stem then 0
         else foldl (\<lambda>number c. number * 10 + word_of_nat (of_char c - of_char (CHR ''0''))) 0 stem)"

text \<open>The name relative to the database directory, as \<open>PersistSnapshotLocked\<close> strips it.\<close>

definition relative_name :: "string \<Rightarrow> string \<Rightarrow> string" where
  "relative_name dbname fname =
     (if take (length dbname) fname = dbname
      then dropWhile is_slash (drop (length dbname) fname) else fname)"

definition full_name :: "string \<Rightarrow> string \<Rightarrow> string" where
  "full_name dbname relative = dbname @ ''/'' @ relative"

text \<open>Names directly usable for a round trip: under the directory, not starting with a slash.\<close>

definition under_db :: "string \<Rightarrow> string \<Rightarrow> bool" where
  "under_db dbname fname \<longleftrightarrow> (\<exists>r. fname = full_name dbname r \<and> (r = [] \<or> \<not> is_slash (hd r)))"

lemma full_relative_name: "under_db d f \<Longrightarrow> full_name d (relative_name d f) = f"
proof -
  assume "under_db d f"
  then obtain r where r: "f = full_name d r" "r = [] \<or> \<not> is_slash (hd r)" by (auto simp: under_db_def)
  then have "dropWhile is_slash r = r" by (cases r) auto
  then show ?thesis
    using r(1) by (simp add: relative_name_def full_name_def is_slash_def)
qed

end
