(* ===== verification/Kvimr.thy ===== *)
theory Kvimr
  imports Kvimr_Metadata
begin

text \<open>
  The middleware state and operations of \<open>db/kvimr.h\<close> and \<open>db/kvimr.cc\<close>.  Every public
  operation holds \<open>mutex_\<close> for its whole body, so an execution is a sequence of operations, each a
  function on the state \<open>KVIMR\<close> and on the system-call world of \<open>Imrsim_Backend\<close>.
  Byte offsets and lengths are natural numbers; counters are 64-bit words and wrap.
\<close>

section \<open>State\<close>

datatype RMWMode = NAIVE | MERGED

record RMWCounters =
  naive_rmw_count :: u64
  naive_rmw_read_bytes :: u64
  naive_rmw_write_bytes :: u64
  direct_write_bytes :: u64
  merged_rmw_count :: u64
  merged_rmw_read_bytes :: u64
  merged_rmw_write_bytes :: u64
  merged_logical_update_count :: u64
  merged_updates_saved :: u64
  merged_buffer_create_count :: u64
  merged_buffer_hit_count :: u64
  merged_buffer_flush_count :: u64

definition zero_counters :: RMWCounters where
  "zero_counters = \<lparr>naive_rmw_count = 0, naive_rmw_read_bytes = 0, naive_rmw_write_bytes = 0,
     direct_write_bytes = 0, merged_rmw_count = 0, merged_rmw_read_bytes = 0,
     merged_rmw_write_bytes = 0, merged_logical_update_count = 0, merged_updates_saved = 0,
     merged_buffer_create_count = 0, merged_buffer_hit_count = 0, merged_buffer_flush_count = 0\<rparr>"

record PendingUpdate =
  upd_offset :: nat
  upd_data :: bytes

record MergedTrackBuffer =
  buf_segment :: KVIMRTrackSegment
  buf_data :: bytes
  update_count :: u64
  loaded :: bool
  dirty :: bool

text \<open>The value-initialised buffer that \<open>merged_buffers[index]\<close> creates.\<close>

definition new_buffer :: MergedTrackBuffer where
  "new_buffer = \<lparr>buf_segment = \<lparr>seg_zone = 0, seg_group = 0, seg_type = TOP, logical_sector_start = 0,
     sector_length = 0\<rparr>, buf_data = [], update_count = 0, loaded = False, dirty = False\<rparr>"

record SSTableState =
  file_number :: u64
  sst_level :: int
  effective_largest_level :: int
  synced :: bool
  sst_data :: bytes
  sst_tracks :: "KVIMRTrackSegment list"
  pending_updates :: "PendingUpdate list"
  merged_buffers :: "(nat, MergedTrackBuffer) std_map"

definition new_sstable :: SSTableState where
  "new_sstable = \<lparr>file_number = 0, sst_level = -1, effective_largest_level = -1, synced = False,
     sst_data = [], sst_tracks = [], pending_updates = [], merged_buffers = []\<rparr>"

record KVIMR =
  kv_files :: "(string, SSTableState) std_map"
  s2tmap :: "(u64, KVIMRTrackSegment list) std_map"
  allocator :: KVIMRTrackAllocator
  backend :: IMRSimBackend
  persistence_enabled :: bool
  configured_zones :: nat
  kv_dbname :: string
  metadata_path :: string
  rmw_counters :: RMWCounters
  rmw_mode :: RMWMode

definition new_kvimr :: KVIMR where
  "new_kvimr = \<lparr>kv_files = [], s2tmap = [], allocator = new_allocator 0, backend = new_backend,
     persistence_enabled = False, configured_zones = 0, kv_dbname = [], metadata_path = [],
     rmw_counters = zero_counters, rmw_mode = NAIVE\<rparr>"

text \<open>\<open>files_[fname]\<close> and a write through the reference it returns.\<close>

definition file_at :: "string \<Rightarrow> KVIMR \<Rightarrow> SSTableState" where
  "file_at fname k = (case map_find (kv_files k) fname of None \<Rightarrow> new_sstable | Some st \<Rightarrow> st)"

definition put_file :: "string \<Rightarrow> SSTableState \<Rightarrow> KVIMR \<Rightarrow> KVIMR" where
  "put_file fname st k = k\<lparr>kv_files := map_put fname st (kv_files k)\<rparr>"

section \<open>Registration, writing and reading\<close>

definition RegisterSSTable :: "string \<Rightarrow> u64 \<Rightarrow> int \<Rightarrow> int \<Rightarrow> KVIMR \<Rightarrow> KVIMR" where
  "RegisterSSTable fname number level largest k =
     (let k' = put_file fname ((file_at fname k)\<lparr>file_number := number, sst_level := level,
                 effective_largest_level := largest\<rparr>) k
      in case map_find (s2tmap k') number of
           None \<Rightarrow> k'\<lparr>s2tmap := map_put number [] (s2tmap k')\<rparr>
         | Some _ \<Rightarrow> k')"

definition BeginWrite :: "string \<Rightarrow> KVIMR \<Rightarrow> KVIMR" where
  "BeginWrite fname k =
     (case map_find (kv_files k) fname of
        None \<Rightarrow> k
      | Some st \<Rightarrow>
          (let k' = (if sst_tracks st \<noteq> []
                     then k\<lparr>allocator := snd (Release (file_number st) (allocator k)),
                            s2tmap := map_erase (file_number st) (s2tmap k)\<rparr>
                     else k)
           in put_file fname (st\<lparr>sst_tracks := [], sst_data := [], pending_updates := [],
                merged_buffers := [], synced := False\<rparr>) k'))"

definition kvwrite :: "string \<Rightarrow> bytes \<Rightarrow> KVIMR \<Rightarrow> Status \<times> KVIMR" where
  "kvwrite fname dat k =
     (let st = file_at fname k; offset = length (sst_data st);
          st1 = st\<lparr>sst_data := sst_data st @ dat\<rparr>;
          st2 = (if dat \<noteq> []
                 then st1\<lparr>pending_updates := pending_updates st1 @ [\<lparr>upd_offset = offset, upd_data = dat\<rparr>]\<rparr>
                 else st1)
      in (OK, put_file fname (st2\<lparr>synced := False\<rparr>) k))"

definition kvread :: "string \<Rightarrow> nat \<Rightarrow> nat \<Rightarrow> KVIMR \<Rightarrow> Status \<times> bytes option" where
  "kvread fname offset n k =
     (case map_find (kv_files k) fname of
        None \<Rightarrow> (NotFound fname, None)
      | Some st \<Rightarrow>
          if offset > length (sst_data st) then (OK, Some [])
          else (let available = length (sst_data st) - offset; len = min n available
                in (OK, Some (substr (sst_data st) offset len))))"

section \<open>Read-modify-write\<close>

text \<open>What the loops of \<open>ApplyPendingUpdatesLocked\<close> change besides their indices.\<close>

record rmw_state =
  rs_buffers :: "(nat, MergedTrackBuffer) std_map"
  rs_counters :: RMWCounters
  rs_world :: os_world

definition naive_update :: "IMRSimBackend \<Rightarrow> nat \<Rightarrow> nat \<Rightarrow> nat \<Rightarrow> bytes \<Rightarrow> rmw_state \<Rightarrow> Status \<times> rmw_state" where
  "naive_update b byte_offset capacity local src s =
     (case Read byte_offset (replicate capacity zero_byte) b (rs_world s) of
        (OK, track, w1) \<Rightarrow>
          (case Write byte_offset (memcpy_at track local src) b w1 of
             (OK, w2) \<Rightarrow>
               (let c = rs_counters s
                in (OK, s\<lparr>rs_world := w2, rs_counters := c\<lparr>
                     naive_rmw_count := naive_rmw_count c + 1,
                     naive_rmw_read_bytes := naive_rmw_read_bytes c + word_of_nat capacity,
                     naive_rmw_write_bytes := naive_rmw_write_bytes c + word_of_nat capacity\<rparr>\<rparr>))
           | (err, w2) \<Rightarrow> (err, s\<lparr>rs_world := w2\<rparr>))
      | (err, _, w1) \<Rightarrow> (err, s\<lparr>rs_world := w1\<rparr>))"

definition buffer_at :: "nat \<Rightarrow> (nat, MergedTrackBuffer) std_map \<Rightarrow> MergedTrackBuffer" where
  "buffer_at index bufs = (case map_find bufs index of None \<Rightarrow> new_buffer | Some b \<Rightarrow> b)"

text \<open>\<open>std::vector::resize(n, 0)\<close>.\<close>

definition resize :: "bytes \<Rightarrow> nat \<Rightarrow> bytes" where
  "resize xs n = take n xs @ replicate (n - length xs) zero_byte"

definition patch_buffer :: "nat \<Rightarrow> bytes \<Rightarrow> MergedTrackBuffer \<Rightarrow> MergedTrackBuffer" where
  "patch_buffer local src buffer = buffer\<lparr>buf_data := memcpy_at (buf_data buffer) local src,
     update_count := update_count buffer + 1, dirty := True\<rparr>"

definition merged_update ::
  "IMRSimBackend \<Rightarrow> nat \<Rightarrow> KVIMRTrackSegment \<Rightarrow> nat \<Rightarrow> nat \<Rightarrow> nat \<Rightarrow> bytes \<Rightarrow> rmw_state \<Rightarrow> Status \<times> rmw_state" where
  "merged_update b index segment byte_offset capacity local src s =
     (let c = rs_counters s;
          c1 = c\<lparr>merged_logical_update_count := merged_logical_update_count c + 1\<rparr>;
          buffer = buffer_at index (rs_buffers s)
      in if \<not> loaded buffer
         then
           (let buffer1 = buffer\<lparr>buf_segment := segment, buf_data := resize (buf_data buffer) capacity\<rparr>
            in case Read byte_offset (buf_data buffer1) b (rs_world s) of
                 (OK, dat, w1) \<Rightarrow>
                   (OK, \<lparr>rs_buffers = map_put index
                            (patch_buffer local src (buffer1\<lparr>buf_data := dat, loaded := True\<rparr>)) (rs_buffers s),
                         rs_counters = c1\<lparr>
                            merged_rmw_read_bytes := merged_rmw_read_bytes c1 + word_of_nat capacity,
                            merged_buffer_create_count := merged_buffer_create_count c1 + 1\<rparr>,
                         rs_world = w1\<rparr>)
               | (err, dat, w1) \<Rightarrow>
                   (err, \<lparr>rs_buffers = map_put index (buffer1\<lparr>buf_data := dat\<rparr>) (rs_buffers s),
                          rs_counters = c1, rs_world = w1\<rparr>))
         else
           (OK, s\<lparr>rs_buffers := map_put index (patch_buffer local src buffer) (rs_buffers s),
                  rs_counters := c1\<lparr>
                     merged_updates_saved := merged_updates_saved c1 + 1,
                     merged_buffer_hit_count := merged_buffer_hit_count c1 + 1\<rparr>\<rparr>))"

text \<open>A sector-aligned write of the file's bytes to a BOTTOM track, zero-padded after the data.\<close>

definition direct_write ::
  "IMRSimBackend \<Rightarrow> nat \<Rightarrow> bytes \<Rightarrow> nat \<Rightarrow> nat \<Rightarrow> nat \<Rightarrow> rmw_state \<Rightarrow> Status \<times> rmw_state" where
  "direct_write b byte_offset dat segment_start overlap_start overlap_end s =
     (let aligned_start = overlap_start div kSectorSize * kSectorSize;
          aligned_end = (overlap_end + kSectorSize - 1) div kSectorSize * kSectorSize;
          write_size = aligned_end - aligned_start;
          file_offset = aligned_start;
          direct = (if file_offset < length dat
                    then memcpy_at (replicate write_size zero_byte) 0
                           (substr dat file_offset (min write_size (length dat - file_offset)))
                    else replicate write_size zero_byte)
      in case Write (byte_offset + aligned_start - segment_start) direct b (rs_world s) of
           (OK, w1) \<Rightarrow>
             (let c = rs_counters s
              in (OK, s\<lparr>rs_world := w1,
                   rs_counters := c\<lparr>direct_write_bytes := direct_write_bytes c + word_of_nat write_size\<rparr>\<rparr>))
         | (err, w1) \<Rightarrow> (err, s\<lparr>rs_world := w1\<rparr>))"

text \<open>The body of the segment loop for one update; \<open>segment_start\<close> is the file offset of the segment.\<close>

definition segment_capacity :: "KVIMRTrackSegment \<Rightarrow> nat" where
  "segment_capacity segment = sector_length segment * kSectorSize"

definition apply_segment ::
  "IMRSimBackend \<Rightarrow> RMWMode \<Rightarrow> bytes \<Rightarrow> PendingUpdate \<Rightarrow> nat \<Rightarrow> KVIMRTrackSegment \<Rightarrow> nat
    \<Rightarrow> rmw_state \<Rightarrow> Status \<times> rmw_state" where
  "apply_segment b mode dat update index segment segment_start s =
     (let update_end = upd_offset update + length (upd_data update);
          capacity = segment_capacity segment;
          segment_end = segment_start + capacity;
          overlap_start = max (upd_offset update) segment_start;
          overlap_end = min update_end segment_end
      in if overlap_start < overlap_end
         then
           (let local = overlap_start - segment_start;
                source = overlap_start - upd_offset update;
                len = overlap_end - overlap_start;
                byte_offset = logical_sector_start segment * kSectorSize;
                src = substr (upd_data update) source len
            in if seg_type segment = TOP
               then (if mode = NAIVE then naive_update b byte_offset capacity local src s
                     else merged_update b index segment byte_offset capacity local src s)
               else direct_write b byte_offset dat segment_start overlap_start overlap_end s)
         else (OK, s))"

fun apply_segments ::
  "IMRSimBackend \<Rightarrow> RMWMode \<Rightarrow> bytes \<Rightarrow> PendingUpdate \<Rightarrow> nat \<Rightarrow> KVIMRTrackSegment list \<Rightarrow> nat
    \<Rightarrow> rmw_state \<Rightarrow> Status \<times> rmw_state" where
  "apply_segments b mode dat update index [] segment_start s = (OK, s)"
| "apply_segments b mode dat update index (segment # segments) segment_start s =
     (case apply_segment b mode dat update index segment segment_start s of
        (OK, s') \<Rightarrow>
          (let segment_end = segment_start + segment_capacity segment
           in if segment_end \<ge> upd_offset update + length (upd_data update) then (OK, s')
              else apply_segments b mode dat update (index + 1) segments segment_end s')
      | (err, s') \<Rightarrow> (err, s'))"

fun apply_updates ::
  "IMRSimBackend \<Rightarrow> RMWMode \<Rightarrow> bytes \<Rightarrow> KVIMRTrackSegment list \<Rightarrow> PendingUpdate list
    \<Rightarrow> rmw_state \<Rightarrow> Status \<times> rmw_state" where
  "apply_updates b mode dat tracks [] s = (OK, s)"
| "apply_updates b mode dat tracks (update # updates) s =
     (case apply_segments b mode dat update 0 tracks 0 s of
        (OK, s') \<Rightarrow> apply_updates b mode dat tracks updates s'
      | (err, s') \<Rightarrow> (err, s'))"

text \<open>\<open>FlushMergedBuffersLocked\<close>: one whole-track write per dirty buffer.\<close>

fun flush_buffers ::
  "IMRSimBackend \<Rightarrow> (nat, MergedTrackBuffer) std_map \<Rightarrow> RMWCounters \<Rightarrow> os_world
    \<Rightarrow> Status \<times> RMWCounters \<times> os_world" where
  "flush_buffers b [] c w = (OK, c, w)"
| "flush_buffers b ((index, buffer) # bufs) c w =
     (if \<not> dirty buffer then flush_buffers b bufs c w
      else
        let offset = logical_sector_start (buf_segment buffer) * kSectorSize;
            nbytes = length (buf_data buffer)
        in case Write offset (buf_data buffer) b w of
             (OK, w') \<Rightarrow>
               flush_buffers b bufs
                 (c\<lparr>merged_rmw_count := merged_rmw_count c + 1,
                    merged_rmw_write_bytes := merged_rmw_write_bytes c + word_of_nat nbytes,
                    merged_buffer_flush_count := merged_buffer_flush_count c + 1\<rparr>) w'
           | (err, w') \<Rightarrow> (err, c, w'))"

definition ApplyPendingUpdatesLocked ::
  "SSTableState \<Rightarrow> KVIMR \<Rightarrow> os_world \<Rightarrow> Status \<times> SSTableState \<times> KVIMR \<times> os_world" where
  "ApplyPendingUpdatesLocked st k w =
     (let total_capacity = sum_list (map segment_capacity (sst_tracks st))
      in if length (sst_data st) > total_capacity
         then (IOError ''KVIMR payload exceeds allocated tracks'', st, k, w)
         else
           case apply_updates (backend k) (rmw_mode k) (sst_data st) (sst_tracks st) (pending_updates st)
                  \<lparr>rs_buffers = merged_buffers st, rs_counters = rmw_counters k, rs_world = w\<rparr> of
             (OK, s) \<Rightarrow>
               (if rmw_mode k = MERGED
                then (case flush_buffers (backend k) (rs_buffers s) (rs_counters s) (rs_world s) of
                        (status, c, w') \<Rightarrow>
                          (status, st\<lparr>merged_buffers := rs_buffers s\<rparr>, k\<lparr>rmw_counters := c\<rparr>, w'))
                else (OK, st\<lparr>merged_buffers := rs_buffers s\<rparr>, k\<lparr>rmw_counters := rs_counters s\<rparr>, rs_world s))
           | (err, s) \<Rightarrow>
               (err, st\<lparr>merged_buffers := rs_buffers s\<rparr>, k\<lparr>rmw_counters := rs_counters s\<rparr>, rs_world s))"

text \<open>The allocation shared by \<open>kvsync\<close> and \<open>PersistPayloadLocked\<close>: only when there are no tracks.\<close>

definition ensure_tracks :: "SSTableState \<Rightarrow> KVIMR \<Rightarrow> Status \<times> SSTableState \<times> KVIMR" where
  "ensure_tracks st k =
     (if sst_tracks st = []
      then case Allocate (file_number st) (length (sst_data st)) (sst_level st)
                  (effective_largest_level st) (allocator k) of
          (OK, segs, a) \<Rightarrow>
            (OK, st\<lparr>sst_tracks := segs\<rparr>,
             k\<lparr>allocator := a, s2tmap := map_put (file_number st) segs (s2tmap k)\<rparr>)
        | (err, segs, a) \<Rightarrow> (err, st\<lparr>sst_tracks := segs\<rparr>, k\<lparr>allocator := a\<rparr>)
      else (OK, st, k))"

definition PersistPayloadLocked ::
  "SSTableState \<Rightarrow> KVIMR \<Rightarrow> os_world \<Rightarrow> Status \<times> SSTableState \<times> KVIMR \<times> os_world" where
  "PersistPayloadLocked st k w =
     (case ensure_tracks st k of
        (OK, st', k') \<Rightarrow> ApplyPendingUpdatesLocked st' k' w
      | (err, st', k') \<Rightarrow> (err, st', k', w))"

section \<open>Snapshot files\<close>

definition sys_create :: "string \<Rightarrow> os_world \<Rightarrow> (errno + unit) \<times> os_world" where
  "sys_create path w = (case sys_simple w of
     (Inl e, w') \<Rightarrow> (Inl e, w')
   | (Inr _, w') \<Rightarrow> (Inr (), w'\<lparr>os_files := (os_files w')(path \<mapsto> [])\<rparr>))"

definition sys_append :: "string \<Rightarrow> bytes \<Rightarrow> os_world \<Rightarrow> (errno + nat) \<times> os_world" where
  "sys_append path bs w = (case next_event w of
     (Sys_fail e, w') \<Rightarrow> (Inl e, w')
   | (e, w') \<Rightarrow>
       (let n = event_limit e (length bs);
            old = (case os_files w' path of None \<Rightarrow> [] | Some c \<Rightarrow> c)
        in (Inr n, w'\<lparr>os_files := (os_files w')(path \<mapsto> old @ take n bs)\<rparr>)))"

text \<open>\<open>read\<close> returns at least one byte unless the file is at its end.\<close>

definition sys_read_file :: "string \<Rightarrow> nat \<Rightarrow> nat \<Rightarrow> os_world \<Rightarrow> (errno + bytes) \<times> os_world" where
  "sys_read_file path pos len w = (case next_event w of
     (Sys_fail e, w') \<Rightarrow> (Inl e, w')
   | (e, w') \<Rightarrow>
       (let c = (case os_files w' path of None \<Rightarrow> [] | Some c \<Rightarrow> c);
            avail = min len (length c - pos);
            n = (case e of Sys_short k \<Rightarrow> min (max 1 k) avail | _ \<Rightarrow> avail)
        in (Inr (substr c pos n), w')))"

definition sys_rename :: "string \<Rightarrow> string \<Rightarrow> os_world \<Rightarrow> (errno + unit) \<times> os_world" where
  "sys_rename old new w = (case sys_simple w of
     (Inl e, w') \<Rightarrow> (Inl e, w')
   | (Inr _, w') \<Rightarrow>
       (case os_files w' old of
          None \<Rightarrow> (Inl ENOENT, w')
        | Some c \<Rightarrow> (Inr (), w'\<lparr>os_files := ((os_files w')(old := None))(new \<mapsto> c)\<rparr>)))"

definition sys_open_read :: "string \<Rightarrow> os_world \<Rightarrow> (errno + unit) \<times> os_world" where
  "sys_open_read path w = (case sys_simple w of
     (Inl e, w') \<Rightarrow> (Inl e, w')
   | (Inr _, w') \<Rightarrow> (case os_files w' path of None \<Rightarrow> (Inl ENOENT, w') | Some _ \<Rightarrow> (Inr (), w')))"

abbreviation sys_close :: "os_world \<Rightarrow> os_world" where
  "sys_close w \<equiv> snd (sys_simple w)"

lemma sys_append_interrupted:
  "sys_append path bs w = (Inl e, w') \<Longrightarrow> length (os_script w') < length (os_script w)"
  by (auto simp: sys_append_def Let_def dest: next_event_fail split: prod.splits sys_event.splits)

lemma sys_append_data:
  assumes "sys_append path bs w = (Inr n, w')"
  shows "n \<le> length bs" "length (os_script w') \<le> length (os_script w)"
proof -
  obtain e w1 where e: "next_event w = (e, w1)" by (cases "next_event w")
  show "n \<le> length bs" "length (os_script w') \<le> length (os_script w)"
    using assms next_event_script [OF e] event_limit_le [of e "length bs"]
    by (auto simp: sys_append_def e Let_def split: sys_event.splits)
qed

lemma sys_read_file_interrupted:
  "sys_read_file path pos len w = (Inl e, w') \<Longrightarrow>
     length (os_script w') < length (os_script w) \<and> os_files w' = os_files w"
  by (auto simp: sys_read_file_def Let_def dest: next_event_fail next_event_world
      split: prod.splits sys_event.splits)

lemma sys_read_file_data:
  assumes "sys_read_file path pos len w = (Inr chunk, w')"
  shows "length (os_script w') \<le> length (os_script w)" "os_files w' = os_files w"
    "pos + length chunk \<le> max pos (length (case os_files w path of None \<Rightarrow> [] | Some c \<Rightarrow> c))"
proof -
  obtain e w1 where e: "next_event w = (e, w1)" by (cases "next_event w")
  show "length (os_script w') \<le> length (os_script w)" "os_files w' = os_files w"
    using assms next_event_script [OF e] next_event_world [OF e]
    by (auto simp: sys_read_file_def e Let_def split: sys_event.splits)
  show "pos + length chunk \<le> max pos (length (case os_files w path of None \<Rightarrow> [] | Some c \<Rightarrow> c))"
    using assms next_event_world [OF e]
    by (auto simp: sys_read_file_def e Let_def substr_def split: sys_event.splits option.splits)
qed

text \<open>The loop that writes the temporary file.\<close>

function write_meta :: "string \<Rightarrow> nat \<Rightarrow> bytes \<Rightarrow> os_world \<Rightarrow> Status \<times> os_world" where
  "write_meta temp written bs w =
     (if written < length bs
      then case sys_append temp (drop written bs) w of
          (Inl e, w') \<Rightarrow>
            if e = EINTR then write_meta temp written bs w'
            else (IOError ''write KVIMR metadata'', sys_close w')
        | (Inr n, w') \<Rightarrow>
            if n = 0 then (IOError ''write KVIMR metadata'', sys_close w')
            else write_meta temp (written + n) bs w'
      else (OK, w))"
  by pat_completeness auto
termination
proof (relation "measure (\<lambda>(_, written, bs, w). length (os_script w) + (length bs - written))", goal_cases)
  case (2 temp written bs w r w' e)
  then show ?case using sys_append_interrupted [of temp "drop written bs" w e w'] by simp
next
  case (3 temp written bs w r w' n)
  then show ?case using sys_append_data [of temp "drop written bs" w n w'] by auto
qed simp

text \<open>The loop that reads the snapshot in pieces of at most 4096 bytes.\<close>

function read_meta :: "string \<Rightarrow> bytes \<Rightarrow> os_world \<Rightarrow> (Status + bytes) \<times> os_world" where
  "read_meta path bs w =
     (case sys_read_file path (length bs) 4096 w of
        (Inl e, w') \<Rightarrow>
          if e = EINTR then read_meta path bs w'
          else (Inl (IOError ''read KVIMR metadata''), sys_close w')
      | (Inr chunk, w') \<Rightarrow>
          if chunk = [] then (Inr bs, sys_close w') else read_meta path (bs @ chunk) w')"
  by pat_completeness auto
termination
proof (relation "measure (\<lambda>(path, bs, w). length (os_script w) +
    (length (case os_files w path of None \<Rightarrow> [] | Some c \<Rightarrow> c) - length bs))", goal_cases)
  case (2 path bs w r w' e)
  then show ?case using sys_read_file_interrupted [of path "length bs" 4096 w e w'] by simp
next
  case (3 path bs w r w' chunk)
  then obtain c cs where "chunk = c # cs" by (cases chunk) auto
  with 3 show ?case using sys_read_file_data [of path "length bs" 4096 w chunk w'] by auto
qed simp

declare write_meta.simps [simp del] read_meta.simps [simp del]

definition entry_of :: "string \<Rightarrow> string \<times> SSTableState \<Rightarrow> meta_entry" where
  "entry_of dbname entry =
     (let st = snd entry
      in \<lparr>me_file_number = file_number st, me_level = sst_level st,
          me_largest = effective_largest_level st, me_size = word_of_nat (length (sst_data st)),
          me_synced = synced st, me_relative = relative_name dbname (fst entry),
          me_tracks = sst_tracks st\<rparr>)"

definition snapshot_bytes :: "KVIMR \<Rightarrow> bytes" where
  "snapshot_bytes k = PutHeader (configured_zones k) (length (kv_files k)) @
     concat (map (PutEntry \<circ> entry_of (kv_dbname k)) (kv_files k))"

definition unsupported :: "errno \<Rightarrow> bool" where
  "unsupported e \<longleftrightarrow> e = EINVAL \<or> e = ENOTSUP"

definition sync_directory :: "os_world \<Rightarrow> Status \<times> os_world" where
  "sync_directory w =
     (case sys_simple w of
        (Inl e, w1) \<Rightarrow> if \<not> unsupported e then (IOError ''open KVIMR metadata directory'', w1) else (OK, w1)
      | (Inr _, w1) \<Rightarrow>
          (case sys_simple w1 of
             (Inl e, w2) \<Rightarrow>
               if \<not> unsupported e then (IOError ''fsync KVIMR metadata directory'', sys_close w2)
               else (OK, sys_close w2)
           | (Inr _, w2) \<Rightarrow> (OK, sys_close w2)))"

definition PersistSnapshotLocked :: "KVIMR \<Rightarrow> os_world \<Rightarrow> Status \<times> os_world" where
  "PersistSnapshotLocked k w =
     (let bs = snapshot_bytes k; temp = metadata_path k @ ''.tmp''
      in case sys_create temp w of
           (Inl _, w1) \<Rightarrow> (IOError ''open KVIMR metadata temporary file'', w1)
         | (Inr _, w1) \<Rightarrow>
             (case write_meta temp 0 bs w1 of
                (OK, w2) \<Rightarrow>
                  (case sys_simple w2 of
                     (Inl _, w3) \<Rightarrow> (IOError ''fdatasync KVIMR metadata'', sys_close w3)
                   | (Inr _, w3) \<Rightarrow>
                       (case sys_simple w3 of
                          (Inl _, w4) \<Rightarrow> (IOError ''close KVIMR metadata'', w4)
                        | (Inr _, w4) \<Rightarrow>
                            (case sys_rename temp (metadata_path k) w4 of
                               (Inl _, w5) \<Rightarrow> (IOError ''rename KVIMR metadata'', w5)
                             | (Inr _, w5) \<Rightarrow> sync_directory w5)))
              | (err, w2) \<Rightarrow> (err, w2)))"

text \<open>\<open>RestorePayloadLocked\<close>: the loop over the tracks, then the length check.\<close>

fun restore_payload ::
  "IMRSimBackend \<Rightarrow> KVIMRTrackSegment list \<Rightarrow> nat \<Rightarrow> bytes \<Rightarrow> os_world
    \<Rightarrow> Status \<times> nat \<times> bytes \<times> os_world" where
  "restore_payload b [] offset restored w = (OK, offset, restored, w)"
| "restore_payload b (segment # segments) offset restored w =
     (if offset \<ge> length restored then (OK, offset, restored, w)
      else
        let capacity = segment_capacity segment;
            chunk = min capacity (length restored - offset);
            read_size = (chunk + kSectorSize - 1) div kSectorSize * kSectorSize
        in case Read (logical_sector_start segment * kSectorSize) (replicate read_size zero_byte) b w of
             (OK, buffer, w') \<Rightarrow>
               restore_payload b segments (offset + chunk) (memcpy_at restored offset (take chunk buffer)) w'
           | (err, _, w') \<Rightarrow> (err, offset, restored, w'))"

definition RestorePayloadLocked ::
  "IMRSimBackend \<Rightarrow> SSTableState \<Rightarrow> os_world \<Rightarrow> Status \<times> SSTableState \<times> os_world" where
  "RestorePayloadLocked b st w =
     (case restore_payload b (sst_tracks st) 0 (replicate (length (sst_data st)) zero_byte) w of
        (OK, offset, restored, w') \<Rightarrow>
          if offset \<noteq> length restored then (IOError ''KVIMR payload shorter than metadata'', st, w')
          else (OK, st\<lparr>sst_data := restored\<rparr>, w')
      | (err, _, _, w') \<Rightarrow> (err, st, w'))"

text \<open>What \<open>LoadSnapshotLocked\<close> does with one parsed entry.\<close>

definition sstable_of :: "meta_entry \<Rightarrow> SSTableState" where
  "sstable_of e = new_sstable\<lparr>file_number := me_file_number e, sst_level := me_level e,
     effective_largest_level := me_largest e, synced := me_synced e,
     sst_data := replicate (unat (me_size e)) zero_byte, sst_tracks := me_tracks e\<rparr>"

definition load_entry :: "meta_entry \<Rightarrow> KVIMR \<Rightarrow> os_world \<Rightarrow> Status \<times> KVIMR \<times> os_world" where
  "load_entry e k w =
     (let st = sstable_of e; fname = full_name (kv_dbname k) (me_relative e)
      in case (if sst_tracks st \<noteq> [] then Restore (file_number st) (sst_tracks st) (allocator k)
               else (OK, allocator k)) of
           (OK, a) \<Rightarrow>
             (let k1 = put_file fname st
                    (k\<lparr>allocator := a, s2tmap := map_put (file_number st) (sst_tracks st) (s2tmap k)\<rparr>)
              in case RestorePayloadLocked (backend k1) st w of
                   (status, st', w') \<Rightarrow> (status, put_file fname st' k1, w'))
         | (err, a) \<Rightarrow> (err, k\<lparr>allocator := a\<rparr>, w))"

fun load_entries :: "nat \<Rightarrow> bytes \<Rightarrow> nat \<Rightarrow> KVIMR \<Rightarrow> os_world \<Rightarrow> Status \<times> KVIMR \<times> os_world" where
  "load_entries 0 bs pos k w = (OK, k, w)"
| "load_entries (Suc n) bs pos k w =
     (case GetEntry bs pos of
        Inl err \<Rightarrow> (err, k, w)
      | Inr (e, pos') \<Rightarrow>
          (case load_entry e k w of
             (OK, k', w') \<Rightarrow> load_entries n bs pos' k' w'
           | (err, k', w') \<Rightarrow> (err, k', w')))"

definition LoadSnapshotLocked :: "KVIMR \<Rightarrow> os_world \<Rightarrow> Status \<times> KVIMR \<times> os_world" where
  "LoadSnapshotLocked k w =
     (case sys_open_read (metadata_path k) w of
        (Inl e, w1) \<Rightarrow> (if e = ENOENT then OK else IOError ''open KVIMR metadata'', k, w1)
      | (Inr _, w1) \<Rightarrow>
          (case read_meta (metadata_path k) [] w1 of
             (Inl err, w2) \<Rightarrow> (err, k, w2)
           | (Inr bs, w2) \<Rightarrow>
               (case GetHeader (configured_zones k) bs of
                  Inl err \<Rightarrow> (err, k, w2)
                | Inr (count, pos) \<Rightarrow> load_entries count bs pos k w2)))"

section \<open>Synchronisation, deletion and configuration\<close>

definition kvsync :: "string \<Rightarrow> KVIMR \<Rightarrow> os_world \<Rightarrow> Status \<times> KVIMR \<times> os_world" where
  "kvsync fname k w =
     (case map_find (kv_files k) fname of
        None \<Rightarrow> (NotFound fname, k, w)
      | Some st \<Rightarrow>
          if sst_data st = [] \<and> pending_updates st = []
          then
            (let k1 = put_file fname (st\<lparr>synced := True\<rparr>) k
             in if \<not> persistence_enabled k1 then (OK, k1, w)
                else case Sync (backend k1) w of
                    (OK, w1) \<Rightarrow>
                      (case PersistSnapshotLocked k1 w1 of
                         (OK, w2) \<Rightarrow> (OK, k1, w2)
                       | (err, w2) \<Rightarrow> (err, put_file fname (st\<lparr>synced := False\<rparr>) k1, w2))
                  | (err, w1) \<Rightarrow> (err, k1, w1))
          else
            case ensure_tracks st k of
              (OK, st1, k1) \<Rightarrow>
                if persistence_enabled k1
                then case PersistPayloadLocked st1 k1 w of
                    (OK, st2, k2, w2) \<Rightarrow>
                      (case Sync (backend k2) w2 of
                         (OK, w3) \<Rightarrow>
                           (let k3 = put_file fname (st2\<lparr>synced := True\<rparr>) k2
                            in case PersistSnapshotLocked k3 w3 of
                                 (OK, w4) \<Rightarrow>
                                   (OK, put_file fname (st2\<lparr>synced := True, pending_updates := [],
                                          merged_buffers := []\<rparr>) k3, w4)
                               | (err, w4) \<Rightarrow> (err, put_file fname (st2\<lparr>synced := False\<rparr>) k3, w4))
                       | (err, w3) \<Rightarrow> (err, put_file fname st2 k2, w3))
                  | (err, st2, k2, w2) \<Rightarrow> (err, put_file fname st2 k2, w2)
                else (OK, put_file fname (st1\<lparr>synced := True\<rparr>) k1, w)
            | (err, st1, k1) \<Rightarrow> (err, put_file fname st1 k1, w))"

definition finish_unlink :: "KVIMR \<Rightarrow> os_world \<Rightarrow> Status \<times> KVIMR \<times> os_world" where
  "finish_unlink k w =
     (if persistence_enabled k
      then case PersistSnapshotLocked k w of (status, w') \<Rightarrow> (status, k, w')
      else (OK, k, w))"

definition drop_file :: "string \<Rightarrow> u64 \<Rightarrow> KVIMR \<Rightarrow> KVIMR" where
  "drop_file fname number k = k\<lparr>allocator := snd (Release number (allocator k)),
     s2tmap := map_erase number (s2tmap k), kv_files := map_erase fname (kv_files k)\<rparr>"

definition kvunlink :: "string \<Rightarrow> KVIMR \<Rightarrow> os_world \<Rightarrow> Status \<times> KVIMR \<times> os_world" where
  "kvunlink fname k w =
     (case map_find (kv_files k) fname of
        None \<Rightarrow> finish_unlink (k\<lparr>s2tmap := map_erase (FileNumber fname) (s2tmap k)\<rparr>) w
      | Some st \<Rightarrow>
          if persistence_enabled k \<and> pending_updates st \<noteq> []
          then case PersistPayloadLocked st k w of
              (OK, st1, k1, w1) \<Rightarrow>
                (case Sync (backend k1) w1 of
                   (OK, w2) \<Rightarrow> finish_unlink (drop_file fname (file_number st1) (put_file fname st1 k1)) w2
                 | (err, w2) \<Rightarrow> (err, put_file fname st1 k1, w2))
            | (err, st1, k1, w1) \<Rightarrow> (err, put_file fname st1 k1, w1)
          else finish_unlink (drop_file fname (file_number st) k) w)"

definition HasSSTable :: "string \<Rightarrow> KVIMR \<Rightarrow> bool" where
  "HasSSTable fname k \<longleftrightarrow> map_find (kv_files k) fname \<noteq> None"

definition GetSSTableSize :: "string \<Rightarrow> KVIMR \<Rightarrow> Status \<times> nat option" where
  "GetSSTableSize fname k =
     (case map_find (kv_files k) fname of
        None \<Rightarrow> (NotFound fname, None) | Some st \<Rightarrow> (OK, Some (length (sst_data st))))"

definition parent_name :: "string \<Rightarrow> string" where
  "parent_name fname = butlast (take (length fname - length (base_name fname)) fname)"

definition ListSSTables :: "string \<Rightarrow> KVIMR \<Rightarrow> string list" where
  "ListSSTables dir k = map (base_name \<circ> fst) (filter (\<lambda>entry. parent_name (fst entry) = dir) (kv_files k))"

definition SSTableCount :: "KVIMR \<Rightarrow> nat" where
  "SSTableCount k = length (kv_files k)"

definition S2TMapSize :: "KVIMR \<Rightarrow> nat" where
  "S2TMapSize k = length (s2tmap k)"

definition GetTrackSegmentCounts :: "KVIMR \<Rightarrow> nat \<times> nat" where
  "GetTrackSegmentCounts k =
     (let segs = concat (map (sst_tracks \<circ> snd) (kv_files k))
      in (length (filter (\<lambda>s. seg_type s = TOP) segs), length (filter (\<lambda>s. seg_type s \<noteq> TOP) segs)))"

definition ConfigureTrackAllocator :: "nat \<Rightarrow> KVIMR \<Rightarrow> KVIMR" where
  "ConfigureTrackAllocator z k = k\<lparr>allocator := Reset z (allocator k),
     kv_files := map (\<lambda>(fname, st). (fname, st\<lparr>sst_tracks := []\<rparr>)) (kv_files k), s2tmap := []\<rparr>"

definition InitializePersistence ::
  "string \<Rightarrow> nat \<Rightarrow> string \<Rightarrow> KVIMR \<Rightarrow> os_world \<Rightarrow> Status \<times> KVIMR \<times> os_world" where
  "InitializePersistence dbname z dev_path k w =
     (if z = 0 then (InvalidArgument ''KVIMR zone count must be nonzero'', k, w)
      else
        let (b0, w0) = (if persistence_enabled k then snd (Close (backend k) w) else (backend k, w));
            k0 = k\<lparr>backend := b0, kv_dbname := dbname, metadata_path := dbname @ ''/KVIMR-META'',
                   configured_zones := z, kv_files := [], s2tmap := [], allocator := Reset z (allocator k)\<rparr>
        in case Open dev_path b0 w0 of
             (OK, b1, w1) \<Rightarrow>
               LoadSnapshotLocked (k0\<lparr>backend := b1, persistence_enabled := True\<rparr>) w1
           | (err, b1, w1) \<Rightarrow> (err, k0\<lparr>backend := b1\<rparr>, w1))"

definition GetRMWCounters :: "KVIMR \<Rightarrow> RMWCounters" where
  "GetRMWCounters k = rmw_counters k"

definition ResetRMWCounters :: "KVIMR \<Rightarrow> KVIMR" where
  "ResetRMWCounters k = k\<lparr>rmw_counters := zero_counters\<rparr>"

definition SetRMWMode :: "RMWMode \<Rightarrow> KVIMR \<Rightarrow> KVIMR" where
  "SetRMWMode mode k = k\<lparr>rmw_mode := mode\<rparr>"

definition GetRMWMode :: "KVIMR \<Rightarrow> RMWMode" where
  "GetRMWMode k = rmw_mode k"

end
