(* ===== verification/Kvimr_Payload.thy ===== *)
theory Kvimr_Payload
  imports Kvimr
begin

text \<open>
  Correctness of the payload path of \<open>db/kvimr.cc\<close>: what \<open>ApplyPendingUpdatesLocked\<close> does to the
  device.  The specification \<open>settled\<close> says which device bytes get which file bytes; both the
  naive read-modify-write and the merged track buffers implement it, and a run that stops with an
  error has only moved bytes towards it.
\<close>

section \<open>Where a file's bytes live\<close>

definition start_of :: "KVIMRTrackSegment list \<Rightarrow> nat \<Rightarrow> nat" where
  "start_of tracks i = sum_list (map segment_bytes (take i tracks))"

definition pos_in :: "KVIMRTrackSegment list \<Rightarrow> nat \<Rightarrow> nat \<Rightarrow> nat" where
  "pos_in tracks i a = start_of tracks i + (a - segment_base (tracks ! i))"

definition placed :: "KVIMRTrackSegment list \<Rightarrow> bool" where
  "placed tracks \<longleftrightarrow> (\<forall>i < length tracks. \<forall>j < length tracks.
     i \<noteq> j \<longrightarrow> segment_range (tracks ! i) \<inter> segment_range (tracks ! j) = {})"

definition pad_byte :: "bytes \<Rightarrow> nat \<Rightarrow> char" where
  "pad_byte dat p = (if p < length dat then dat ! p else zero_byte)"

definition upd_end :: "PendingUpdate \<Rightarrow> nat" where
  "upd_end u = upd_offset u + length (upd_data u)"

text \<open>An update is a nonempty piece of the file's data.\<close>

definition consistent :: "bytes \<Rightarrow> PendingUpdate \<Rightarrow> bool" where
  "consistent dat u \<longleftrightarrow> upd_data u \<noteq> [] \<and> upd_end u \<le> length dat \<and>
     upd_data u = substr dat (upd_offset u) (length (upd_data u))"

text \<open>
  The file positions an update rewrites in a segment: its own bytes in a TOP track, the sectors
  it touches in a BOTTOM track.
\<close>

definition updated :: "PendingUpdate \<Rightarrow> KVIMRTrackSegment \<Rightarrow> nat \<Rightarrow> bool" where
  "updated u seg p \<longleftrightarrow>
     (if seg_type seg = TOP then upd_offset u \<le> p \<and> p < upd_end u
      else upd_offset u div 512 * 512 \<le> p \<and> p < (upd_end u + 511) div 512 * 512)"

lemma segment_capacity_bytes: "segment_capacity seg = segment_bytes seg"
  by (simp add: segment_capacity_def segment_bytes_def kSectorSize_def)

lemma start_of_0 [simp]: "start_of tracks 0 = 0"
  by (simp add: start_of_def)

lemma start_of_Suc: "i < length tracks \<Longrightarrow> start_of tracks (Suc i) = start_of tracks i + segment_bytes (tracks ! i)"
  by (simp add: start_of_def take_Suc_conv_app_nth)

lemma start_of_mono: "i \<le> j \<Longrightarrow> start_of tracks i \<le> start_of tracks j"
proof (induction j)
  case (Suc j)
  show ?case
  proof (cases "i = Suc j")
    case False
    with Suc have "start_of tracks i \<le> start_of tracks j" by simp
    also have "start_of tracks j \<le> start_of tracks (Suc j)"
    proof (cases "j < length tracks")
      case False
      then show ?thesis by (simp add: start_of_def)
    qed (simp add: start_of_Suc)
    finally show ?thesis .
  qed simp
qed simp

lemma start_of_dvd [simp]: "512 dvd start_of tracks i"
proof (induction i)
  case (Suc i)
  show ?case
  proof (cases "i < length tracks")
    case False
    with Suc show ?thesis by (simp add: start_of_def)
  qed (use Suc in \<open>simp add: start_of_Suc\<close>)
qed simp

lemma placed_unique:
  "placed tracks \<Longrightarrow> i < length tracks \<Longrightarrow> j < length tracks \<Longrightarrow>
     a \<in> segment_range (tracks ! i) \<Longrightarrow> a \<in> segment_range (tracks ! j) \<Longrightarrow> i = j"
  by (auto simp: placed_def)

lemma round_down_le:
  fixes p s x :: nat
  assumes "512 dvd s" "s \<le> p"
  shows "max x s div 512 * 512 \<le> p \<longleftrightarrow> x div 512 * 512 \<le> p"
proof -
  have "s div 512 * 512 = s" using assms(1) by simp
  then show ?thesis
    using assms div_le_mono [of x s 512] by (cases "x \<le> s") (auto simp: max_def)
qed

lemma round_up_less:
  fixes p t x :: nat
  assumes "512 dvd t" "p < t"
  shows "p < (min x t + 511) div 512 * 512 \<longleftrightarrow> p < (x + 511) div 512 * 512"
proof -
  obtain k where t: "t = 512 * k" using assms(1) by blast
  then have "(t + 511) div 512 * 512 = t" by simp
  moreover have "(t + 511) div 512 \<le> (x + 511) div 512" if "t \<le> x" using that by (intro div_le_mono) simp
  ultimately show ?thesis
    using assms(2) t by (cases "x \<le> t") (auto simp: min_def)
qed

text \<open>A segment overlaps an update exactly when the update rewrites one of its positions.\<close>

lemma updated_overlap:
  assumes "512 dvd s" "512 dvd n" "s \<le> p" "p < s + n" "updated u seg p" "upd_offset u < upd_end u"
  shows "max (upd_offset u) s < min (upd_end u) (s + n)"
proof (cases "seg_type seg = TOP")
  case False
  obtain k m where k: "s = 512 * k" "n = 512 * m" using assms(1,2) by blast
  have o: "upd_offset u div 512 * 512 \<le> p" "p < (upd_end u + 511) div 512 * 512"
    using assms(5) False by (simp_all add: updated_def)
  have "p div 512 < k + m" using assms(4) k by (simp add: less_mult_imp_div_less mult.commute algebra_simps)
  moreover have "upd_offset u div 512 \<le> p div 512" using o(1) by simp
  ultimately have "upd_offset u div 512 < k + m" by linarith
  then have 1: "upd_offset u < s + n" using k by linarith
  have "k \<le> p div 512" using assms(3) k by simp
  moreover have "p div 512 < (upd_end u + 511) div 512" using o(2) by simp
  ultimately have "k < (upd_end u + 511) div 512" by linarith
  then have 2: "s < upd_end u" using k by linarith
  have "0 < n" using assms(3,4) by simp
  then show ?thesis using 1 2 assms(6) by simp
qed (use assms in \<open>simp add: updated_def\<close>)

section \<open>One update on one segment\<close>

definition hits :: "KVIMRTrackSegment list \<Rightarrow> nat \<Rightarrow> PendingUpdate \<Rightarrow> nat \<Rightarrow> bool" where
  "hits tracks i u a \<longleftrightarrow> i < length tracks \<and> a \<in> segment_range (tracks ! i) \<and>
     updated u (tracks ! i) (pos_in tracks i a)"

text \<open>
  \<open>moves H v ok c c'\<close>: every byte of \<open>c'\<close> is the old one or, where \<open>H\<close> allows, the value \<open>v\<close>; a
  complete run has written them all.
\<close>

definition moves :: "(nat \<Rightarrow> bool) \<Rightarrow> (nat \<Rightarrow> char) \<Rightarrow> bool \<Rightarrow> (nat \<Rightarrow> char) \<Rightarrow> (nat \<Rightarrow> char) \<Rightarrow> bool" where
  "moves H v ok c c' \<longleftrightarrow> (\<forall>a. c' a = c a \<or> H a \<and> c' a = v a) \<and> (ok \<longrightarrow> (\<forall>a. H a \<longrightarrow> c' a = v a))"

lemma moves_refl: "(ok \<Longrightarrow> \<forall>a. \<not> H a) \<Longrightarrow> moves H v ok c c"
  by (auto simp: moves_def)

lemma moves_frame: "moves H v ok c c' \<Longrightarrow> \<not> H a \<Longrightarrow> c' a = c a"
  by (auto simp: moves_def)

lemma moves_cong:
  assumes "moves H v ok c c'" "\<And>a. H a \<longleftrightarrow> H' a" "\<And>a. H' a \<Longrightarrow> v a = v' a"
  shows "moves H' v' ok c c'"
  unfolding moves_def
proof (intro conjI allI impI)
  fix a show "c' a = c a \<or> H' a \<and> c' a = v' a" using assms by (metis moves_def)
  assume "ok" "H' a" then show "c' a = v' a" using assms by (metis moves_def)
qed

lemma Write_moves:
  assumes "Write off bs b w = (st, w')"
  shows "moves (\<lambda>a. off \<le> a \<and> a < off + length bs) (\<lambda>a. bs ! (a - off)) (st = OK) (content b w) (content b w')"
  using dev.wr_each [OF assms] dev.wr_OK [of off bs b w w'] assms by (auto simp: moves_def in_range_def)

definition file_byte :: "KVIMRTrackSegment list \<Rightarrow> bytes \<Rightarrow> nat \<Rightarrow> nat \<Rightarrow> char" where
  "file_byte tracks dat i a = pad_byte dat (pos_in tracks i a)"

lemma naive_update_moves:
  assumes run: "naive_update b base cap local src s = (st, s')" and len: "local + length src \<le> cap"
  shows "rs_buffers s' = rs_buffers s"
    "moves (\<lambda>a. base + local \<le> a \<and> a < base + local + length src) (\<lambda>a. src ! (a - (base + local)))
       (st = OK) (content b (rs_world s)) (content b (rs_world s'))"
proof -
  obtain r track w1 where r: "Read base (replicate cap zero_byte) b (rs_world s) = (r, track, w1)"
    by (cases "Read base (replicate cap zero_byte) b (rs_world s)") auto
  obtain r' w2 where w: "Write base (memcpy_at track local src) b w1 = (r', w2)"
    by (cases "Write base (memcpy_at track local src) b w1")
  show "rs_buffers s' = rs_buffers s"
    using run by (auto simp: naive_update_def r w Let_def split: Status.splits)
  show "moves (\<lambda>a. base + local \<le> a \<and> a < base + local + length src) (\<lambda>a. src ! (a - (base + local)))
       (st = OK) (content b (rs_world s)) (content b (rs_world s'))"
  proof (cases "r = OK")
    case False
    then have "rs_world s' = w1" "st \<noteq> OK" using run by (auto simp: naive_update_def r split: Status.splits)
    then show ?thesis using dev.rd_content [OF r] by (simp add: moves_refl)
  next
    case True
    have s': "rs_world s' = w2" "st = r'"
      using run True by (auto simp: naive_update_def r w Let_def split: Status.splits)
    have l: "local + length src \<le> length (replicate cap zero_byte)" using len by simp
    show ?thesis
      using dev.rmw_each [OF r [unfolded True] w l] dev.rmw_OK [OF r [unfolded True] _ l] w
      by (auto simp: moves_def s' in_range_def)
  qed
qed

lemma direct_buffer:
  "(if off < length dat
    then memcpy_at (replicate n zero_byte) 0 (substr dat off (min n (length dat - off)))
    else replicate n zero_byte) = map (pad_byte dat) [off..<off + n]"
proof (rule nth_equalityI)
  fix i assume "i < length (if off < length dat
    then memcpy_at (replicate n zero_byte) 0 (substr dat off (min n (length dat - off)))
    else replicate n zero_byte)"
  then have "i < n" by (simp split: if_splits)
  then show "(if off < length dat
      then memcpy_at (replicate n zero_byte) 0 (substr dat off (min n (length dat - off)))
      else replicate n zero_byte) ! i = map (pad_byte dat) [off..<off + n] ! i"
    by (auto simp: nth_memcpy_at nth_substr pad_byte_def)
qed simp

lemma direct_write_moves:
  assumes run: "direct_write b base dat start os oe s = (st, s')"
    and al: "512 dvd start" "start \<le> os" "os < oe"
  shows "rs_buffers s' = rs_buffers s"
    "moves (\<lambda>a. base \<le> a \<and> os div 512 * 512 \<le> start + (a - base) \<and> start + (a - base) < (oe + 511) div 512 * 512)
       (\<lambda>a. pad_byte dat (start + (a - base))) (st = OK) (content b (rs_world s)) (content b (rs_world s'))"
proof -
  define x where "x = os div 512 * 512"
  define y where "y = (oe + 511) div 512 * 512"
  have le: "start \<le> x" using al by (metis div_le_mono dvd_div_mult_self mult_le_mono1 x_def)
  have xy: "x \<le> y" unfolding x_def y_def using al(3) by (intro mult_le_mono1 div_le_mono) simp
  obtain r w where w: "Write (base + x - start) (map (pad_byte dat) [x..<x + (y - x)]) b (rs_world s) = (r, w)"
    by (cases "Write (base + x - start) (map (pad_byte dat) [x..<x + (y - x)]) b (rs_world s)")
  have s': "rs_buffers s' = rs_buffers s" "rs_world s' = w" "st = r"
    using run w unfolding direct_write_def
    by (auto simp: Let_def kSectorSize_def direct_buffer x_def y_def add.commute [of 511 oe]
        split: Status.splits prod.splits)
  then show "rs_buffers s' = rs_buffers s" by simp
  have in_r: "in_range (base + x - start) (map (pad_byte dat) [x..<x + (y - x)]) a c \<longleftrightarrow>
      base \<le> a \<and> x \<le> start + (a - base) \<and> start + (a - base) < y \<and> c = pad_byte dat (start + (a - base))" for a c
  proof -
    have "base + x - start \<le> a \<and> a < base + x - start + (y - x) \<longleftrightarrow>
        base \<le> a \<and> x \<le> start + (a - base) \<and> start + (a - base) < y"
      using le xy by linarith
    moreover have "x + (a - (base + x - start)) = start + (a - base)" if "base + x - start \<le> a"
      using le that by linarith
    ultimately show ?thesis by (auto simp: in_range_def add.commute [of a start])
  qed
  have "content b w a = pad_byte dat (start + (a - base))"
    if "r = OK" "base \<le> a" "x \<le> start + (a - base)" "start + (a - base) < y" for a
  proof -
    have "in_range (base + x - start) (map (pad_byte dat) [x..<x + (y - x)]) a (pad_byte dat (start + (a - base)))"
      using in_r that by blast
    then show ?thesis
      using dev.wr_OK [OF w [unfolded that(1)], of a] by (auto simp: in_range_def)
  qed
  then show "moves (\<lambda>a. base \<le> a \<and> os div 512 * 512 \<le> start + (a - base) \<and> start + (a - base) < (oe + 511) div 512 * 512)
       (\<lambda>a. pad_byte dat (start + (a - base))) (st = OK) (content b (rs_world s)) (content b (rs_world s'))"
    using dev.wr_each [OF w] in_r
    by (auto simp: moves_def s' simp flip: x_def y_def)
qed

text \<open>The overlap of an update with the segment at file offset \<open>start\<close>.\<close>

definition ov_start :: "PendingUpdate \<Rightarrow> nat \<Rightarrow> nat" where
  "ov_start u start = max (upd_offset u) start"

definition ov_end :: "PendingUpdate \<Rightarrow> nat \<Rightarrow> nat \<Rightarrow> nat" where
  "ov_end u start n = min (upd_end u) (start + n)"

definition ov_data :: "PendingUpdate \<Rightarrow> nat \<Rightarrow> nat \<Rightarrow> bytes" where
  "ov_data u start n = substr (upd_data u) (ov_start u start - upd_offset u) (ov_end u start n - ov_start u start)"

lemma apply_segment_cases:
  "apply_segment b mode dat u i seg start s =
     (if ov_start u start < ov_end u start (segment_bytes seg)
      then if seg_type seg = TOP
           then (if mode = NAIVE
                 then naive_update b (segment_base seg) (segment_bytes seg) (ov_start u start - start)
                        (ov_data u start (segment_bytes seg)) s
                 else merged_update b i seg (segment_base seg) (segment_bytes seg) (ov_start u start - start)
                        (ov_data u start (segment_bytes seg)) s)
           else direct_write b (segment_base seg) dat start (ov_start u start) (ov_end u start (segment_bytes seg)) s
      else (OK, s))"
proof -
  have "logical_sector_start seg * kSectorSize = segment_base seg"
    by (simp add: segment_base_def kSectorSize_def)
  then show ?thesis
    by (simp add: apply_segment_def Let_def segment_capacity_bytes ov_start_def ov_end_def ov_data_def upd_end_def)
qed

lemma round_up_dvd: "512 dvd t \<Longrightarrow> (t + 511) div 512 * 512 = (t::nat)"
  by (auto elim!: dvdE)

lemma consistent_less: "consistent dat u \<Longrightarrow> upd_offset u < upd_end u"
  by (simp add: consistent_def upd_end_def)

lemma consistent_nth:
  assumes "consistent dat u" "j < length (upd_data u)"
  shows "upd_data u ! j = dat ! (upd_offset u + j)" "upd_offset u + j < length dat"
proof -
  show "upd_offset u + j < length dat" using assms by (simp add: consistent_def upd_end_def)
  with assms show "upd_data u ! j = dat ! (upd_offset u + j)"
    by (metis consistent_def nth_substr)
qed

lemma ov_data:
  assumes u: "consistent dat u" and lt: "ov_start u start < ov_end u start n"
  shows "length (ov_data u start n) = ov_end u start n - ov_start u start"
    "ov_start u start - start + length (ov_data u start n) \<le> n"
    "p < ov_end u start n \<Longrightarrow> ov_start u start \<le> p \<Longrightarrow>
       ov_data u start n ! (p - ov_start u start) = pad_byte dat p"
proof -
  have b: "upd_offset u \<le> ov_start u start" "ov_end u start n \<le> upd_end u" "start \<le> ov_start u start"
    "ov_end u start n \<le> start + n"
    by (simp_all add: ov_start_def ov_end_def)
  have l: "length (upd_data u) = upd_end u - upd_offset u" by (simp add: upd_end_def)
  show len: "length (ov_data u start n) = ov_end u start n - ov_start u start"
    using b lt by (simp add: ov_data_def l)
  show "ov_start u start - start + length (ov_data u start n) \<le> n"
    using b lt by (simp add: len)
  assume p: "p < ov_end u start n" "ov_start u start \<le> p"
  have "ov_data u start n ! (p - ov_start u start) = upd_data u ! (p - upd_offset u)"
    using p b l by (simp add: ov_data_def nth_substr)
  then show "ov_data u start n ! (p - ov_start u start) = pad_byte dat p"
    using p b l consistent_nth [OF u, of "p - upd_offset u"] by (simp add: pad_byte_def)
qed

lemma hits_no_overlap:
  assumes "hits tracks i u a" "consistent dat u"
  shows "ov_start u (start_of tracks i) < ov_end u (start_of tracks i) (segment_bytes (tracks ! i))"
  using assms updated_overlap [of "start_of tracks i" "segment_bytes (tracks ! i)" "pos_in tracks i a" u "tracks ! i"]
  by (auto simp: hits_def pos_in_def segment_range_def ov_start_def ov_end_def consistent_less)

lemma hits_TOP:
  assumes "i < length tracks" "seg_type (tracks ! i) = TOP"
    "ov_start u (start_of tracks i) < ov_end u (start_of tracks i) (segment_bytes (tracks ! i))"
  shows "hits tracks i u a \<longleftrightarrow> segment_base (tracks ! i) \<le> a \<and> ov_start u (start_of tracks i) \<le> pos_in tracks i a \<and>
    pos_in tracks i a < ov_end u (start_of tracks i) (segment_bytes (tracks ! i))"
  using assms by (auto simp: hits_def segment_range_def updated_def pos_in_def ov_start_def ov_end_def)

lemma hits_BOTTOM:
  assumes "i < length tracks" "seg_type (tracks ! i) \<noteq> TOP"
  shows "hits tracks i u a \<longleftrightarrow> segment_base (tracks ! i) \<le> a \<and>
    ov_start u (start_of tracks i) div 512 * 512 \<le> pos_in tracks i a \<and>
    pos_in tracks i a < (ov_end u (start_of tracks i) (segment_bytes (tracks ! i)) + 511) div 512 * 512"
proof -
  let ?s = "start_of tracks i" let ?n = "segment_bytes (tracks ! i)" let ?p = "pos_in tracks i a"
  have up: "(ov_end u ?s ?n + 511) div 512 * 512 \<le> ?s + ?n"
  proof -
    have "(ov_end u ?s ?n + 511) div 512 * 512 \<le> (?s + ?n + 511) div 512 * 512"
      by (intro mult_le_mono1 div_le_mono) (simp add: ov_end_def)
    then show ?thesis by (simp add: round_up_dvd)
  qed
  show ?thesis
  proof (cases "segment_base (tracks ! i) \<le> a \<and> a < segment_base (tracks ! i) + ?n")
    case True
    then have p: "?s \<le> ?p" "?p < ?s + ?n" by (auto simp: pos_in_def)
    show ?thesis
      using assms True round_down_le [OF _ p(1), of "upd_offset u"] round_up_less [OF _ p(2), of "upd_end u"]
      by (simp add: hits_def segment_range_def updated_def ov_start_def ov_end_def)
  next
    case False
    with up show ?thesis by (auto simp: hits_def segment_range_def pos_in_def)
  qed
qed

text \<open>An update written straight to the device: naive mode, or a BOTTOM track in any mode.\<close>

lemma apply_segment_direct:
  assumes run: "apply_segment b mode dat u i (tracks ! i) (start_of tracks i) s = (st, s')"
    and i: "i < length tracks" and u: "consistent dat u"
    and direct: "mode = NAIVE \<or> seg_type (tracks ! i) \<noteq> TOP"
  shows "rs_buffers s' = rs_buffers s \<and>
    moves (hits tracks i u) (file_byte tracks dat i) (st = OK) (content b (rs_world s)) (content b (rs_world s'))"
proof -
  let ?n = "segment_bytes (tracks ! i)" let ?s = "start_of tracks i" let ?base = "segment_base (tracks ! i)"
  consider (none) "\<not> ov_start u ?s < ov_end u ?s ?n"
    | (bottom) "ov_start u ?s < ov_end u ?s ?n" "seg_type (tracks ! i) \<noteq> TOP"
    | (top) "ov_start u ?s < ov_end u ?s ?n" "seg_type (tracks ! i) = TOP" "mode = NAIVE"
    using direct by blast
  then show ?thesis
  proof cases
    case none
    then show ?thesis
      using run hits_no_overlap [OF _ u, of tracks i] by (auto simp: apply_segment_cases intro: moves_refl)
  next
    case bottom
    then have "direct_write b ?base dat ?s (ov_start u ?s) (ov_end u ?s ?n) s = (st, s')"
      using run by (simp add: apply_segment_cases)
    note m = direct_write_moves [OF this start_of_dvd _ bottom(1)]
    have le: "?s \<le> ov_start u ?s" by (simp add: ov_start_def)
    have "hits tracks i u = (\<lambda>a. ?base \<le> a \<and> ov_start u ?s div 512 * 512 \<le> ?s + (a - ?base) \<and>
        ?s + (a - ?base) < (ov_end u ?s ?n + 511) div 512 * 512)"
      by (rule ext) (simp add: hits_BOTTOM [OF i bottom(2)] pos_in_def)
    moreover have "file_byte tracks dat i = (\<lambda>a. pad_byte dat (?s + (a - ?base)))"
      by (rule ext) (simp add: file_byte_def pos_in_def)
    ultimately show ?thesis using m [OF le] by simp
  next
    case top
    let ?src = "ov_data u ?s ?n" let ?H = "\<lambda>a. ?base + (ov_start u ?s - ?s) \<le> a \<and>
        a < ?base + (ov_start u ?s - ?s) + length ?src"
    have "naive_update b ?base ?n (ov_start u ?s - ?s) ?src s = (st, s')"
      using run top by (simp add: apply_segment_cases)
    note m = naive_update_moves [OF this ov_data(2) [OF u top(1)]]
    have le: "?s \<le> ov_start u ?s" by (simp add: ov_start_def)
    have H: "?H a \<longleftrightarrow> hits tracks i u a" for a
      using le top(1) by (auto simp: hits_TOP [OF i top(2,1)] ov_data(1) [OF u top(1)] pos_in_def)
    moreover have "?src ! (a - (?base + (ov_start u ?s - ?s))) = file_byte tracks dat i a" if "hits tracks i u a" for a
    proof -
      have "a - (?base + (ov_start u ?s - ?s)) = pos_in tracks i a - ov_start u ?s"
        using le by (simp add: pos_in_def)
      then show ?thesis
        using ov_data(3) [OF u top(1), of "pos_in tracks i a"] that
        by (simp add: hits_TOP [OF i top(2,1)] file_byte_def)
    qed
    ultimately show ?thesis
      using m moves_cong [OF m(2), of "hits tracks i u" "file_byte tracks dat i"] by blast
  qed
qed

section \<open>Merged buffers\<close>

text \<open>The shape of a file's buffers: one per TOP track, loaded exactly when dirty.\<close>

definition buffer_ok :: "KVIMRTrackSegment list \<Rightarrow> nat \<Rightarrow> MergedTrackBuffer \<Rightarrow> bool" where
  "buffer_ok tracks i bf \<longleftrightarrow> i < length tracks \<and> loaded bf = dirty bf \<and>
     (loaded bf \<longrightarrow> buf_segment bf = tracks ! i \<and> seg_type (tracks ! i) = TOP \<and>
        length (buf_data bf) = segment_bytes (tracks ! i))"

definition bufs_ok :: "KVIMRTrackSegment list \<Rightarrow> (nat, MergedTrackBuffer) std_map \<Rightarrow> bool" where
  "bufs_ok tracks bufs \<longleftrightarrow> map_ok bufs \<and> (\<forall>i bf. map_find bufs i = Some bf \<longrightarrow> buffer_ok tracks i bf)"

definition buffered_at :: "KVIMRTrackSegment list \<Rightarrow> (nat, MergedTrackBuffer) std_map \<Rightarrow> nat \<Rightarrow> nat \<Rightarrow> bool" where
  "buffered_at tracks bufs i a \<longleftrightarrow>
     (\<exists>bf. map_find bufs i = Some bf \<and> loaded bf \<and> i < length tracks \<and> a \<in> segment_range (tracks ! i))"

text \<open>
  \<open>shadows tracks bufs c E\<close>: reading through the loaded buffers, the device with content \<open>c\<close>
  looks like \<open>E\<close>.
\<close>

definition shadows ::
  "KVIMRTrackSegment list \<Rightarrow> (nat, MergedTrackBuffer) std_map \<Rightarrow> (nat \<Rightarrow> char) \<Rightarrow> (nat \<Rightarrow> char) \<Rightarrow> bool" where
  "shadows tracks bufs c E \<longleftrightarrow>
     (\<forall>i bf a. map_find bufs i = Some bf \<longrightarrow> loaded bf \<longrightarrow> a \<in> segment_range (tracks ! i) \<longrightarrow>
        i < length tracks \<longrightarrow> buf_data bf ! (a - segment_base (tracks ! i)) = E a) \<and>
     (\<forall>a. (\<forall>i. \<not> buffered_at tracks bufs i a) \<longrightarrow> c a = E a)"

lemma bufs_ok_put: "bufs_ok tracks bufs \<Longrightarrow> buffer_ok tracks i bf \<Longrightarrow> bufs_ok tracks (map_put i bf bufs)"
  by (auto simp: bufs_ok_def)

lemma bufs_okD:
  assumes "bufs_ok tracks bufs" "map_find bufs i = Some bf"
  shows "buffer_ok tracks i bf"
  using assms by (auto simp: bufs_ok_def)

lemma buffered_at_put:
  "loaded bf \<Longrightarrow> i < length tracks \<Longrightarrow>
     buffered_at tracks (map_put i bf bufs) j a \<longleftrightarrow> buffered_at tracks bufs j a \<or> j = i \<and> a \<in> segment_range (tracks ! i)"
  by (auto simp: buffered_at_def)

text \<open>Patching a loaded buffer is the update on the shadowed device.\<close>

lemma patch_buffer_shadows:
  assumes sh: "shadows tracks bufs c E" and pl: "placed tracks" and i: "i < length tracks"
    and u: "consistent dat u" and top: "seg_type (tracks ! i) = TOP"
    and lt: "ov_start u (start_of tracks i) < ov_end u (start_of tracks i) (segment_bytes (tracks ! i))"
    and len: "length (buf_data bf) = segment_bytes (tracks ! i)" and ld: "loaded bf"
    and bf: "\<And>a. a \<in> segment_range (tracks ! i) \<Longrightarrow> buf_data bf ! (a - segment_base (tracks ! i)) = E a"
    and E': "moves (hits tracks i u) (file_byte tracks dat i) True E E'"
  shows "shadows tracks (map_put i (patch_buffer (ov_start u (start_of tracks i) - start_of tracks i)
    (ov_data u (start_of tracks i) (segment_bytes (tracks ! i))) bf) bufs) c E'"
proof -
  let ?n = "segment_bytes (tracks ! i)" let ?s = "start_of tracks i" let ?base = "segment_base (tracks ! i)"
  let ?off = "ov_start u ?s - ?s" let ?src = "ov_data u ?s ?n"
  note src = ov_data(1,2) [OF u lt]
  have le: "?s \<le> ov_start u ?s" by (simp add: ov_start_def)
  have new: "memcpy_at (buf_data bf) ?off ?src ! (a - ?base) = E' a" if a: "a \<in> segment_range (tracks ! i)" for a
  proof -
    have o: "a - ?base < length (buf_data bf)" "?base \<le> a" using a len by (auto simp: segment_range_def)
    have H: "?off \<le> a - ?base \<and> a - ?base < ?off + length ?src \<longleftrightarrow> hits tracks i u a"
      using le lt o(2) by (auto simp: hits_TOP [OF i top lt] src(1) pos_in_def)
    have "memcpy_at (buf_data bf) ?off ?src ! (a - ?base) =
        (if hits tracks i u a then ?src ! (a - ?base - ?off) else buf_data bf ! (a - ?base))"
      using nth_memcpy_at [of ?off ?src "buf_data bf" "a - ?base"] o src(2) len H by simp
    also have "\<dots> = E' a"
    proof (cases "hits tracks i u a")
      case True
      have "a - ?base - ?off = pos_in tracks i a - ov_start u ?s"
        using le by (simp add: pos_in_def)
      then have "?src ! (a - ?base - ?off) = file_byte tracks dat i a"
        using ov_data(3) [OF u lt, of "pos_in tracks i a"] True
        by (simp add: hits_TOP [OF i top lt] file_byte_def)
      then show ?thesis using E' True by (simp add: moves_def)
    next
      case False
      then show ?thesis using bf [OF a] moves_frame [OF E'] by simp
    qed
    finally show ?thesis .
  qed
  have other: "E' a = E a" if "a \<notin> segment_range (tracks ! i)" for a
    using moves_frame [OF E', of a] that by (simp add: hits_def)
  have apart: "a \<notin> segment_range (tracks ! i)" if "buffered_at tracks bufs j a" "j \<noteq> i" for j a
    using that placed_unique [OF pl _ i, of j a] by (auto simp: buffered_at_def)
  let ?bf = "patch_buffer ?off ?src bf"
  have "buf_data bf' ! (a - segment_base (tracks ! j)) = E' a"
    if "map_find (map_put i ?bf bufs) j = Some bf'" "loaded bf'" "a \<in> segment_range (tracks ! j)"
      "j < length tracks" for j bf' a
  proof (cases "j = i")
    case True
    with that new show ?thesis by (auto simp: patch_buffer_def)
  next
    case False
    with that have f: "map_find bufs j = Some bf'" by simp
    then have "buffered_at tracks bufs j a" using that by (simp add: buffered_at_def)
    with sh f that apart [of j a] other [of a] False show ?thesis
      by (simp add: shadows_def)
  qed
  moreover have "c a = E' a" if "\<forall>j. \<not> buffered_at tracks (map_put i ?bf bufs) j a" for a
  proof -
    have "loaded ?bf" using ld by (simp add: patch_buffer_def)
    with that have "a \<notin> segment_range (tracks ! i)" "\<forall>j. \<not> buffered_at tracks bufs j a"
      using i by (auto simp: buffered_at_put)
    then show ?thesis using sh other by (simp add: shadows_def)
  qed
  ultimately show ?thesis by (simp add: shadows_def)
qed

lemma unbuffered_range:
  assumes pl: "placed tracks" and i: "i < length tracks" and no: "\<And>bf. map_find bufs i = Some bf \<Longrightarrow> \<not> loaded bf"
    and a: "a \<in> segment_range (tracks ! i)"
  shows "\<not> buffered_at tracks bufs j a"
  using no placed_unique [OF pl i _ a, of j] a by (auto simp: buffered_at_def)

text \<open>The update as a function on device contents.\<close>

definition revise :: "KVIMRTrackSegment list \<Rightarrow> bytes \<Rightarrow> nat \<Rightarrow> PendingUpdate \<Rightarrow> (nat \<Rightarrow> char) \<Rightarrow> nat \<Rightarrow> char" where
  "revise tracks dat i u c a = (if hits tracks i u a then file_byte tracks dat i a else c a)"

lemma moves_revise: "moves (hits tracks i u) (file_byte tracks dat i) ok c (revise tracks dat i u c)"
  by (simp add: moves_def revise_def)

text \<open>A loaded buffer of the right size that agrees with \<open>E\<close>, patched and stored back.\<close>

lemma patch_buffer_ok:
  fixes tracks dat i u
  defines "n \<equiv> segment_bytes (tracks ! i)" and "start \<equiv> start_of tracks i" and "base \<equiv> segment_base (tracks ! i)"
  assumes pl: "placed tracks" and i: "i < length tracks" and u: "consistent dat u"
    and top: "seg_type (tracks ! i) = TOP" and lt: "ov_start u start < ov_end u start n"
    and ok: "bufs_ok tracks bufs" and sh: "shadows tracks bufs c E"
    and bf: "loaded bf" "buf_segment bf = tracks ! i" "length (buf_data bf) = n"
      "\<And>a. a \<in> segment_range (tracks ! i) \<Longrightarrow> buf_data bf ! (a - base) = E a"
  shows "bufs_ok tracks (map_put i (patch_buffer (ov_start u start - start) (ov_data u start n) bf) bufs) \<and>
    shadows tracks (map_put i (patch_buffer (ov_start u start - start) (ov_data u start n) bf) bufs) c
      (revise tracks dat i u E)"
  using bf top i ov_data(2) [OF u lt] patch_buffer_shadows [OF sh pl i u top _ _ _ _ moves_revise, of bf] lt
  unfolding n_def start_def base_def
  by (intro conjI bufs_ok_put [OF ok]) (auto simp: buffer_ok_def patch_buffer_def)

lemma unloaded_buffer:
  assumes ok: "bufs_ok tracks bufs" and sh: "shadows tracks bufs c E" and i: "i < length tracks"
    and no: "\<not> loaded (buffer_at i bufs)" and bf: "bf = (buffer_at i bufs)\<lparr>buf_segment := g, buf_data := d\<rparr>"
  shows "bufs_ok tracks (map_put i bf bufs) \<and> shadows tracks (map_put i bf bufs) c E"
proof -
  have "\<not> dirty (buffer_at i bufs)"
  proof (cases "map_find bufs i")
    case (Some b)
    then show ?thesis using bufs_okD [OF ok Some] no by (simp add: buffer_ok_def buffer_at_def)
  qed (simp add: buffer_at_def new_buffer_def)
  then have "buffer_ok tracks i bf" using no i by (simp add: buffer_ok_def bf)
  moreover have "buffered_at tracks (map_put i bf bufs) j a \<longleftrightarrow> buffered_at tracks bufs j a" for j a
    using no by (auto simp: buffered_at_def buffer_at_def bf split: option.splits)
  ultimately show ?thesis
    using sh no bufs_ok_put [OF ok] by (auto simp: shadows_def bf)
qed

text \<open>One merged update: the device is untouched and the shadowed device gets the update.\<close>

lemma merged_update_load:
  fixes tracks dat i u
  defines "n \<equiv> segment_bytes (tracks ! i)" and "start \<equiv> start_of tracks i" and "base \<equiv> segment_base (tracks ! i)"
  assumes run: "merged_update b i (tracks ! i) base n (ov_start u start - start) (ov_data u start n) s = (st, s')"
    and pl: "placed tracks" and i: "i < length tracks" and u: "consistent dat u"
    and top: "seg_type (tracks ! i) = TOP" and lt: "ov_start u start < ov_end u start n"
    and ok: "bufs_ok tracks (rs_buffers s)" and sh: "shadows tracks (rs_buffers s) (content b (rs_world s)) E"
    and no: "\<not> loaded (buffer_at i (rs_buffers s))"
  shows "bufs_ok tracks (rs_buffers s') \<and> content b (rs_world s') = content b (rs_world s) \<and>
    shadows tracks (rs_buffers s') (content b (rs_world s)) (if st = OK then revise tracks dat i u E else E)"
proof -
  let ?bf = "buffer_at i (rs_buffers s)"
  let ?bf1 = "?bf\<lparr>buf_segment := tracks ! i, buf_data := resize (buf_data ?bf) n\<rparr>"
  have len: "length (resize (buf_data ?bf) n) = n" by (simp add: resize_def)
  obtain r d w where r: "Read base (resize (buf_data ?bf) n) b (rs_world s) = (r, d, w)"
    by (cases "Read base (resize (buf_data ?bf) n) b (rs_world s)") auto
  have un: "\<not> buffered_at tracks (rs_buffers s) j a" if "a \<in> segment_range (tracks ! i)" for j a
    by (rule unbuffered_range [OF pl i _ that]) (use no in \<open>auto simp: buffer_at_def\<close>)
  have w: "rs_world s' = w" "st = r" "content b w = content b (rs_world s)"
    using run no r dev.rd_content [OF r] by (auto simp: merged_update_def Let_def split: Status.splits)
  show ?thesis
  proof (cases "r = OK")
    case True
    let ?new = "?bf1\<lparr>buf_data := d, loaded := True\<rparr>"
    have d: "d = map (content b (rs_world s)) [base..<base + n]"
      using dev.rd_OK [OF r [unfolded True]] len by simp
    have "d ! (a - base) = E a" if "a \<in> segment_range (tracks ! i)" for a
      using un [OF that] sh that by (auto simp: d shadows_def segment_range_def base_def n_def)
    then have "buf_data ?new ! (a - base) = E a" if "a \<in> segment_range (tracks ! i)" for a
      using that by simp
    then have "bufs_ok tracks (map_put i (patch_buffer (ov_start u start - start) (ov_data u start n) ?new) (rs_buffers s)) \<and>
      shadows tracks (map_put i (patch_buffer (ov_start u start - start) (ov_data u start n) ?new) (rs_buffers s))
        (content b (rs_world s)) (revise tracks dat i u E)"
      unfolding n_def start_def base_def
      by (intro patch_buffer_ok [OF pl i u top lt [unfolded start_def n_def] ok sh]) (simp_all add: d n_def)
    moreover have "rs_buffers s' = map_put i (patch_buffer (ov_start u start - start) (ov_data u start n) ?new) (rs_buffers s)"
      using run no r True by (auto simp: merged_update_def Let_def)
    ultimately show ?thesis using w True by simp
  next
    case False
    have "rs_buffers s' = map_put i (?bf\<lparr>buf_segment := tracks ! i, buf_data := d\<rparr>) (rs_buffers s)"
      using run no r False by (auto simp: merged_update_def Let_def split: Status.splits)
    with unloaded_buffer [OF ok sh i no refl] w False show ?thesis by simp
  qed
qed

lemma merged_update_shadows:
  fixes tracks dat i u
  defines "n \<equiv> segment_bytes (tracks ! i)" and "start \<equiv> start_of tracks i" and "base \<equiv> segment_base (tracks ! i)"
  assumes run: "merged_update b i (tracks ! i) base n (ov_start u start - start) (ov_data u start n) s = (st, s')"
    and pl: "placed tracks" and i: "i < length tracks" and u: "consistent dat u"
    and top: "seg_type (tracks ! i) = TOP" and lt: "ov_start u start < ov_end u start n"
    and ok: "bufs_ok tracks (rs_buffers s)" and sh: "shadows tracks (rs_buffers s) (content b (rs_world s)) E"
  shows "bufs_ok tracks (rs_buffers s') \<and> content b (rs_world s') = content b (rs_world s) \<and>
    shadows tracks (rs_buffers s') (content b (rs_world s)) (if st = OK then revise tracks dat i u E else E)"
proof (cases "loaded (buffer_at i (rs_buffers s))")
  case True
  let ?bf = "buffer_at i (rs_buffers s)"
  from True have f: "map_find (rs_buffers s) i = Some ?bf"
    by (auto simp: buffer_at_def new_buffer_def split: option.splits)
  from bufs_okD [OF ok f] True have bf: "buf_segment ?bf = tracks ! i" "length (buf_data ?bf) = n"
    by (simp_all add: buffer_ok_def n_def)
  have E: "buf_data ?bf ! (a - segment_base (tracks ! i)) = E a" if "a \<in> segment_range (tracks ! i)" for a
    using sh f True that i by (simp add: shadows_def)
  have "st = OK" "rs_world s' = rs_world s"
    "rs_buffers s' = map_put i (patch_buffer (ov_start u start - start) (ov_data u start n) ?bf) (rs_buffers s)"
    using run True by (auto simp: merged_update_def Let_def)
  with patch_buffer_ok [OF pl i u top lt [unfolded start_def n_def] ok sh True bf(1) bf(2) [unfolded n_def] E]
  show ?thesis by (simp add: n_def start_def)
next
  case False
  from merged_update_load [OF run [unfolded n_def start_def base_def] pl i u top lt [unfolded start_def n_def] ok sh False]
  show ?thesis .
qed

section \<open>The loops\<close>

text \<open>
  \<open>settles tracks dat H ok c c'\<close>: from \<open>c\<close> to \<open>c'\<close> bytes changed only at addresses and tracks
  that \<open>H\<close> names, and only to the file's byte there; with \<open>ok\<close> all of them hold it.
\<close>

definition settles ::
  "KVIMRTrackSegment list \<Rightarrow> bytes \<Rightarrow> (nat \<Rightarrow> nat \<Rightarrow> bool) \<Rightarrow> bool \<Rightarrow> (nat \<Rightarrow> char) \<Rightarrow> (nat \<Rightarrow> char) \<Rightarrow> bool" where
  "settles tracks dat H ok c c' \<longleftrightarrow>
     (\<forall>a. c' a = c a \<or> (\<exists>i. H i a \<and> c' a = file_byte tracks dat i a)) \<and>
     (ok \<longrightarrow> (\<forall>i a. H i a \<longrightarrow> c' a = file_byte tracks dat i a))"

definition located :: "KVIMRTrackSegment list \<Rightarrow> (nat \<Rightarrow> nat \<Rightarrow> bool) \<Rightarrow> bool" where
  "located tracks H \<longleftrightarrow> (\<forall>i a. H i a \<longrightarrow> i < length tracks \<and> a \<in> segment_range (tracks ! i))"

lemma located_hits: "located tracks (\<lambda>i a. P i a \<and> hits tracks i (u i) a)"
  by (auto simp: located_def hits_def)

lemma settles_refl: "settles tracks dat H False c c"
  by (simp add: settles_def)

lemma settles_none: "(\<And>i a. \<not> H i a) \<Longrightarrow> settles tracks dat H ok c c"
  by (simp add: settles_def)

lemma settles_weaken:
  assumes "settles tracks dat H ok c c'" "\<And>i a. H i a \<Longrightarrow> H' i a" "ok' \<Longrightarrow> ok" "\<And>i a. ok' \<Longrightarrow> H' i a \<Longrightarrow> H i a"
  shows "settles tracks dat H' ok' c c'"
  using assms unfolding settles_def by metis

lemma settles_trans:
  assumes pl: "placed tracks" "located tracks H" "located tracks H'"
    and s: "settles tracks dat H True c c'" "settles tracks dat H' ok c' c''"
  shows "settles tracks dat (\<lambda>i a. H i a \<or> H' i a) ok c c''"
proof -
  have same: "i = j" if "H i a" "H' j a" for i j a
    using that pl(2,3) placed_unique [OF pl(1), of i j a] unfolding located_def by blast
  have each: "c'' a = c a \<or> (\<exists>i. (H i a \<or> H' i a) \<and> c'' a = file_byte tracks dat i a)" for a
    using s unfolding settles_def by metis
  have all: "c'' a = file_byte tracks dat i a" if "ok" "H i a \<or> H' i a" for i a
  proof (cases "H' i a")
    case False
    with that have "H i a" by simp
    then have "c' a = file_byte tracks dat i a" using s(1) by (simp add: settles_def)
    moreover have "c'' a = c' a \<or> (\<exists>j. H' j a \<and> c'' a = file_byte tracks dat j a)"
      using s(2) by (simp add: settles_def)
    ultimately show ?thesis using same [OF \<open>H i a\<close>] by auto
  qed (use s(2) that in \<open>simp add: settles_def\<close>)
  show ?thesis using each all by (simp add: settles_def)
qed

lemma settles_trans_each:
  assumes "settles tracks dat H ok c c'" "settles tracks dat H' ok' c' c''"
  shows "settles tracks dat (\<lambda>i a. H i a \<or> H' i a) False c c''"
  using assms unfolding settles_def by metis

lemma settles_moves:
  "moves (hits tracks i u) (file_byte tracks dat i) ok c c' \<longleftrightarrow>
     settles tracks dat (\<lambda>j a. j = i \<and> hits tracks j u a) ok c c'"
  by (auto simp: moves_def settles_def)

lemma settles_unique:
  assumes "settles tracks dat H True c c1" "settles tracks dat H True c c2"
  shows "c1 = c2"
proof
  fix a
  show "c1 a = c2 a"
  proof (cases "\<exists>i. H i a")
    case True
    then obtain i where "H i a" ..
    with assms show ?thesis by (simp add: settles_def)
  next
    case False
    with assms have "c1 a = c a" "c2 a = c a" unfolding settles_def by blast+
    then show ?thesis by simp
  qed
qed

text \<open>The device as the mode's reads see it: directly, or through the buffers.\<close>

definition view :: "IMRSimBackend \<Rightarrow> RMWMode \<Rightarrow> KVIMRTrackSegment list \<Rightarrow> rmw_state \<Rightarrow> (nat \<Rightarrow> char) \<Rightarrow> bool" where
  "view b mode tracks s E \<longleftrightarrow>
     (if mode = NAIVE then E = content b (rs_world s)
      else bufs_ok tracks (rs_buffers s) \<and> shadows tracks (rs_buffers s) (content b (rs_world s)) E)"

text \<open>A direct write to a BOTTOM track goes past the buffers.\<close>

lemma shadows_bottom:
  assumes pl: "placed tracks" and i: "i < length tracks" "seg_type (tracks ! i) \<noteq> TOP"
    and ok: "bufs_ok tracks bufs" and sh: "shadows tracks bufs c E"
    and m: "moves (hits tracks i u) (file_byte tracks dat i) ok' c c'"
  obtains E' where "shadows tracks bufs c' E'" "moves (hits tracks i u) (file_byte tracks dat i) ok' E E'"
proof -
  define E' where "E' a = (if a \<in> segment_range (tracks ! i) then c' a else E a)" for a
  have un: "\<not> buffered_at tracks bufs j a" if "a \<in> segment_range (tracks ! i)" for j a
    by (rule unbuffered_range [OF pl i(1) _ that]) (use ok i(2) in \<open>auto dest: bufs_okD simp: buffer_ok_def\<close>)
  have out: "c' a = c a" if "a \<notin> segment_range (tracks ! i)" for a
    using moves_frame [OF m] that by (simp add: hits_def)
  have "E a = c a" if "a \<in> segment_range (tracks ! i)" for a
    using sh un [OF that] by (simp add: shadows_def)
  then have "moves (hits tracks i u) (file_byte tracks dat i) ok' E E'"
    using m by (auto simp: moves_def E'_def hits_def)
  moreover have "shadows tracks bufs c' E'"
    using sh un out by (auto simp: shadows_def E'_def buffered_at_def)
  ultimately show thesis using that by blast
qed

lemma apply_segment_view:
  assumes run: "apply_segment b mode dat u i (tracks ! i) (start_of tracks i) s = (st, s')"
    and pl: "placed tracks" and i: "i < length tracks" and u: "consistent dat u" and v: "view b mode tracks s E"
  obtains E' where "view b mode tracks s' E'"
    "moves (hits tracks i u) (file_byte tracks dat i) (st = OK) E E'"
    "moves (hits tracks i u) (file_byte tracks dat i) False (content b (rs_world s)) (content b (rs_world s'))"
    "mode = NAIVE \<longrightarrow> rs_buffers s' = rs_buffers s"
proof (cases "mode = NAIVE \<or> seg_type (tracks ! i) \<noteq> TOP")
  case True
  note d = apply_segment_direct [OF run i u True]
  then have w: "moves (hits tracks i u) (file_byte tracks dat i) False (content b (rs_world s)) (content b (rs_world s'))"
    by (simp add: moves_def)
  show thesis
  proof (cases mode)
    case NAIVE
    with d v that [of "content b (rs_world s')"] w show thesis by (simp add: view_def)
  next
    case MERGED
    with True v d have a: "seg_type (tracks ! i) \<noteq> TOP" "bufs_ok tracks (rs_buffers s)"
      "shadows tracks (rs_buffers s) (content b (rs_world s)) E"
      by (simp_all add: view_def)
    show thesis
      by (rule shadows_bottom [OF pl i a conjunct2 [OF d]]) (use that w d MERGED a(2) in \<open>auto simp: view_def\<close>)
  qed
next
  case False
  then have m: "mode = MERGED" "seg_type (tracks ! i) = TOP" by (cases mode; simp)+
  have v': "bufs_ok tracks (rs_buffers s)" "shadows tracks (rs_buffers s) (content b (rs_world s)) E"
    using v m by (simp_all add: view_def)
  show thesis
  proof (cases "ov_start u (start_of tracks i) < ov_end u (start_of tracks i) (segment_bytes (tracks ! i))")
    case True
    with run m have "merged_update b i (tracks ! i) (segment_base (tracks ! i)) (segment_bytes (tracks ! i))
        (ov_start u (start_of tracks i) - start_of tracks i)
        (ov_data u (start_of tracks i) (segment_bytes (tracks ! i))) s = (st, s')"
      by (simp add: apply_segment_cases)
    from merged_update_shadows [OF this pl i u m(2) True v'] m moves_revise [of tracks i u dat "st = OK" E]
    show thesis
      by (intro that [of "if st = OK then revise tracks dat i u E else E"]) (auto simp: view_def moves_refl)
  next
    case False
    then have "s' = s" "st = OK" using run by (simp_all add: apply_segment_cases)
    moreover have "\<not> hits tracks i u a" for a using hits_no_overlap [OF _ u] False by blast
    ultimately show thesis using that v by (simp add: moves_refl)
  qed
qed

text \<open>Segments after the end of an update are not hit, so leaving the loop early loses nothing.\<close>

lemma hits_after_end:
  assumes "upd_end u \<le> start_of tracks i" "i \<le> j"
  shows "\<not> hits tracks j u a"
proof
  assume h: "hits tracks j u a"
  then have p: "start_of tracks j \<le> pos_in tracks j a" "updated u (tracks ! j) (pos_in tracks j a)"
    by (simp_all add: hits_def pos_in_def)
  have "(upd_end u + 511) div 512 * 512 \<le> (start_of tracks j + 511) div 512 * 512"
    using assms(1) start_of_mono [OF assms(2), of tracks] by (intro mult_le_mono1 div_le_mono) simp
  then have "(upd_end u + 511) div 512 * 512 \<le> start_of tracks j"
    by (simp add: round_up_dvd)
  with p assms(1) start_of_mono [OF assms(2), of tracks] show False
    by (auto simp: updated_def split: if_splits)
qed

definition hits_from :: "KVIMRTrackSegment list \<Rightarrow> nat \<Rightarrow> PendingUpdate \<Rightarrow> nat \<Rightarrow> nat \<Rightarrow> bool" where
  "hits_from tracks i u j a \<longleftrightarrow> i \<le> j \<and> hits tracks j u a"

lemma located_simps [simp]:
  "located tracks (\<lambda>j a. j = i \<and> hits tracks j u a)" "located tracks (hits_from tracks i u)"
  by (auto simp: located_def hits_def hits_from_def)

lemma hits_from_Suc: "(j = i \<and> hits tracks j u a \<or> hits_from tracks (Suc i) u j a) = hits_from tracks i u j a"
  by (auto simp: hits_from_def Suc_le_eq order_le_less)

lemma apply_segments_view:
  assumes run: "apply_segments b mode dat u i (drop i tracks) (start_of tracks i) s = (st, s')"
    and pl: "placed tracks" and u: "consistent dat u" and v: "view b mode tracks s E" and i: "i \<le> length tracks"
  shows "\<exists>E'. view b mode tracks s' E' \<and> settles tracks dat (hits_from tracks i u) (st = OK) E E' \<and>
    settles tracks dat (hits_from tracks i u) False (content b (rs_world s)) (content b (rs_world s')) \<and>
    (mode = NAIVE \<longrightarrow> rs_buffers s' = rs_buffers s)"
  using run v i
proof (induction "length tracks - i" arbitrary: i s E)
  case 0
  then have "s' = s" "\<And>j a. \<not> hits_from tracks i u j a" by (auto simp: hits_from_def hits_def)
  with 0 show ?case by (auto intro!: exI [of _ E] settles_none)
next
  case (Suc n)
  then have i: "i < length tracks" by simp
  then have d: "drop i tracks = tracks ! i # drop (Suc i) tracks" by (simp add: Cons_nth_drop_Suc)
  obtain r s1 where r: "apply_segment b mode dat u i (tracks ! i) (start_of tracks i) s = (r, s1)"
    by (cases "apply_segment b mode dat u i (tracks ! i) (start_of tracks i) s")
  obtain E1 where E1: "view b mode tracks s1 E1"
    "moves (hits tracks i u) (file_byte tracks dat i) (r = OK) E E1"
    "moves (hits tracks i u) (file_byte tracks dat i) False (content b (rs_world s)) (content b (rs_world s1))"
    "mode = NAIVE \<longrightarrow> rs_buffers s1 = rs_buffers s"
    by (rule apply_segment_view [OF r pl i u Suc.prems(2)])
  have "start_of tracks (Suc i) = start_of tracks i + segment_capacity (tracks ! i)"
    using i by (simp add: start_of_Suc segment_capacity_bytes)
  then have run: "(if r = OK then if upd_end u \<le> start_of tracks (Suc i) then (OK, s1)
      else apply_segments b mode dat u (Suc i) (drop (Suc i) tracks) (start_of tracks (Suc i)) s1 else (r, s1)) = (st, s')"
    using Suc.prems(1) by (cases r) (auto simp: d r Let_def upd_end_def)
  note E = E1(2) [unfolded settles_moves] and C = E1(3) [unfolded settles_moves]
  show ?case
  proof (cases "r = OK \<and> \<not> upd_end u \<le> start_of tracks (Suc i)")
    case True
    with run have "apply_segments b mode dat u (Suc i) (drop (Suc i) tracks) (start_of tracks (Suc i)) s1 = (st, s')"
      by simp
    moreover have n: "n = length tracks - Suc i" "Suc i \<le> length tracks" using Suc.hyps(2) by simp_all
    ultimately obtain E2 where E2: "view b mode tracks s' E2"
      "settles tracks dat (hits_from tracks (Suc i) u) (st = OK) E1 E2"
      "settles tracks dat (hits_from tracks (Suc i) u) False (content b (rs_world s1)) (content b (rs_world s'))"
      "mode = NAIVE \<longrightarrow> rs_buffers s' = rs_buffers s1"
      using Suc.hyps(1) [OF n(1) _ E1(1) n(2)] by blast
    have E1': "settles tracks dat (\<lambda>j a. j = i \<and> hits tracks j u a) True E E1" using E True by simp
    have "settles tracks dat (hits_from tracks i u) (st = OK) E E2"
      using settles_trans [OF pl _ _ E1' E2(2)] by (simp add: hits_from_Suc)
    moreover have "settles tracks dat (hits_from tracks i u) False (content b (rs_world s)) (content b (rs_world s'))"
      using settles_trans_each [OF C E2(3)] by (simp add: hits_from_Suc)
    ultimately show ?thesis using E2(1,4) E1(4) by auto
  next
    case False
    with run have s': "s' = s1" "st = r" by (auto split: if_splits)
    have "hits_from tracks i u j a \<Longrightarrow> j = i" if "st = OK" for j a
      using False that s' hits_after_end [of u tracks "Suc i" j a] by (fastforce simp: hits_from_def Suc_le_eq)
    then have "settles tracks dat (hits_from tracks i u) (st = OK) E E1"
      by (intro settles_weaken [OF E]) (auto simp: s' hits_from_def)
    moreover have "settles tracks dat (hits_from tracks i u) False (content b (rs_world s)) (content b (rs_world s1))"
      by (intro settles_weaken [OF C]) (auto simp: hits_from_def)
    ultimately show ?thesis using E1(1,4) s' by auto
  qed
qed

definition hits_some :: "KVIMRTrackSegment list \<Rightarrow> PendingUpdate list \<Rightarrow> nat \<Rightarrow> nat \<Rightarrow> bool" where
  "hits_some tracks us i a \<longleftrightarrow> (\<exists>u \<in> set us. hits tracks i u a)"

lemma located_hits_some [simp]: "located tracks (hits_some tracks us)"
  by (auto simp: located_def hits_def hits_some_def)

lemma hits_some_Cons: "(hits_from tracks 0 u i a \<or> hits_some tracks us i a) = hits_some tracks (u # us) i a"
  by (auto simp: hits_some_def hits_from_def)

lemma apply_updates_view:
  assumes run: "apply_updates b mode dat tracks us s = (st, s')"
    and pl: "placed tracks" and u: "list_all (consistent dat) us" and v: "view b mode tracks s E"
  shows "\<exists>E'. view b mode tracks s' E' \<and> settles tracks dat (hits_some tracks us) (st = OK) E E' \<and>
    settles tracks dat (hits_some tracks us) False (content b (rs_world s)) (content b (rs_world s')) \<and>
    (mode = NAIVE \<longrightarrow> rs_buffers s' = rs_buffers s)"
  using run v u
proof (induction us arbitrary: s E)
  case Nil
  then show ?case by (auto intro!: exI [of _ E] settles_none simp: hits_some_def)
next
  case (Cons u us)
  obtain r s1 where r: "apply_segments b mode dat u 0 tracks 0 s = (r, s1)"
    by (cases "apply_segments b mode dat u 0 tracks 0 s")
  have "\<exists>E'. view b mode tracks s1 E' \<and> settles tracks dat (hits_from tracks 0 u) (r = OK) E E' \<and>
    settles tracks dat (hits_from tracks 0 u) False (content b (rs_world s)) (content b (rs_world s1)) \<and>
    (mode = NAIVE \<longrightarrow> rs_buffers s1 = rs_buffers s)"
    by (rule apply_segments_view [OF _ pl _ Cons.prems(2)]) (use r Cons.prems(3) in auto)
  then obtain E1 where E1: "view b mode tracks s1 E1" "settles tracks dat (hits_from tracks 0 u) (r = OK) E E1"
    "settles tracks dat (hits_from tracks 0 u) False (content b (rs_world s)) (content b (rs_world s1))"
    "mode = NAIVE \<longrightarrow> rs_buffers s1 = rs_buffers s"
    by blast
  show ?case
  proof (cases "r = OK")
    case True
    with Cons.prems r have "apply_updates b mode dat tracks us s1 = (st, s')" by simp
    from Cons.IH [OF this E1(1)] Cons.prems(3) obtain E2 where E2: "view b mode tracks s' E2"
      "settles tracks dat (hits_some tracks us) (st = OK) E1 E2"
      "settles tracks dat (hits_some tracks us) False (content b (rs_world s1)) (content b (rs_world s'))"
      "mode = NAIVE \<longrightarrow> rs_buffers s' = rs_buffers s1"
      by auto
    have E1': "settles tracks dat (hits_from tracks 0 u) True E E1" using E1(2) True by simp
    have "settles tracks dat (hits_some tracks (u # us)) (st = OK) E E2"
      using settles_trans [OF pl _ _ E1' E2(2)] by (simp add: hits_some_Cons)
    moreover have "settles tracks dat (hits_some tracks (u # us)) False (content b (rs_world s)) (content b (rs_world s'))"
      using settles_trans_each [OF E1(3) E2(3)] by (simp add: hits_some_Cons)
    ultimately show ?thesis using E2(1,4) E1(4) by auto
  next
    case False
    then have s': "s' = s1" "st = r" using Cons.prems(1) r by (cases r; simp)+
    have "settles tracks dat (hits_some tracks (u # us)) (st = OK) E E1"
      by (intro settles_weaken [OF E1(2)]) (use False s' in \<open>auto simp: hits_from_def hits_some_def\<close>)
    moreover have "settles tracks dat (hits_some tracks (u # us)) False (content b (rs_world s)) (content b (rs_world s1))"
      by (intro settles_weaken [OF E1(3)]) (auto simp: hits_from_def hits_some_def)
    ultimately show ?thesis using E1(1,4) s' by auto
  qed
qed

section \<open>Flushing\<close>

text \<open>A flush moves the device towards the shadowed content; a complete one reaches it.\<close>

lemma flush_buffers_moves:
  assumes "flush_buffers b bufs c w = (st, c', w')"
    and "\<And>i bf. (i, bf) \<in> set bufs \<Longrightarrow> buffer_ok tracks i bf"
    and "\<And>i bf a. (i, bf) \<in> set bufs \<Longrightarrow> loaded bf \<Longrightarrow> a \<in> segment_range (tracks ! i) \<Longrightarrow>
      buf_data bf ! (a - segment_base (tracks ! i)) = E a"
  shows "moves (\<lambda>a. \<exists>i bf. (i, bf) \<in> set bufs \<and> loaded bf \<and> a \<in> segment_range (tracks ! i)) E (st = OK)
    (content b w) (content b w')"
  using assms
proof (induction b bufs c w rule: flush_buffers.induct)
  case (1 b c w)
  then show ?case by (simp add: moves_def)
next
  case (2 b i bf bufs c w)
  note ok = "2.prems"(2) [of i bf, simplified]
  let ?H = "\<lambda>bufs a. \<exists>i bf. (i, bf) \<in> set bufs \<and> loaded bf \<and> a \<in> segment_range (tracks ! i)"
  show ?case
  proof (cases "dirty bf")
    case False
    with "2.prems"(1) have "flush_buffers b bufs c w = (st, c', w')" by simp
    from "2.IH"(1) [OF False this "2.prems"(2,3)] have m: "moves (?H bufs) E (st = OK) (content b w) (content b w')"
      by simp
    have "\<not> loaded bf" using ok False by (simp add: buffer_ok_def)
    then show ?thesis by (intro moves_cong [OF m]) auto
  next
    case True
    have bf: "buf_segment bf = tracks ! i" "length (buf_data bf) = segment_bytes (tracks ! i)" "loaded bf"
      using ok True by (simp_all add: buffer_ok_def)
    obtain r w1 where r: "Write (segment_base (tracks ! i)) (buf_data bf) b w = (r, w1)"
      by (cases "Write (segment_base (tracks ! i)) (buf_data bf) b w")
    have base: "logical_sector_start (buf_segment bf) * kSectorSize = segment_base (tracks ! i)"
      by (simp add: bf segment_base_def kSectorSize_def)
    have E: "buf_data bf ! (a - segment_base (tracks ! i)) = E a" if "a \<in> segment_range (tracks ! i)" for a
      using "2.prems"(3) [of i bf a] bf that by simp
    have m: "moves (\<lambda>a. a \<in> segment_range (tracks ! i)) E (r = OK) (content b w) (content b w1)"
      by (rule moves_cong [OF Write_moves [OF r]]) (use E bf(2) in \<open>auto simp: segment_range_def\<close>)
    show ?thesis
    proof (cases "r = OK")
      case False
      then have "w' = w1" "st = r" using "2.prems"(1) r base True by (cases r; simp add: Let_def)+
      then show ?thesis using m False bf(3) by (auto simp: moves_def)
    next
      case rOK: True
      let ?c1 = "c\<lparr>merged_rmw_count := merged_rmw_count c + 1,
        merged_rmw_write_bytes := merged_rmw_write_bytes c + word_of_nat (length (buf_data bf)),
        merged_buffer_flush_count := merged_buffer_flush_count c + 1\<rparr>"
      have "flush_buffers b bufs ?c1 w1 = (st, c', w')"
        using "2.prems"(1) r base True rOK by (simp add: Let_def)
      moreover have "Write (logical_sector_start (buf_segment bf) * kSectorSize) (buf_data bf) b w = (OK, w1)"
        using r base rOK by simp
      ultimately have "moves (?H bufs) E (st = OK) (content b w1) (content b w')"
        using "2.IH"(2) [of _ _ OK w1] "2.prems"(2,3) True by simp
      then show ?thesis using m rOK bf(3) unfolding moves_def by (auto, (metis)+)
    qed
  qed
qed

section \<open>\<open>ApplyPendingUpdatesLocked\<close>\<close>

text \<open>
  Buffers may survive a failed synchronisation.  They may differ from the device only where a
  pending update will be applied again.
\<close>

definition buf_inv ::
  "KVIMRTrackSegment list \<Rightarrow> PendingUpdate list \<Rightarrow> (nat, MergedTrackBuffer) std_map \<Rightarrow> (nat \<Rightarrow> char) \<Rightarrow> bool" where
  "buf_inv tracks us bufs c \<longleftrightarrow> bufs_ok tracks bufs \<and>
     (\<forall>i bf a. map_find bufs i = Some bf \<longrightarrow> loaded bf \<longrightarrow> a \<in> segment_range (tracks ! i) \<longrightarrow>
        buf_data bf ! (a - segment_base (tracks ! i)) = c a \<or> hits_some tracks us i a)"

lemma buf_inv_Nil [simp]: "buf_inv tracks us [] c"
  by (simp add: buf_inv_def bufs_ok_def)

lemma buf_inv_shadows:
  assumes pl: "placed tracks" and inv: "buf_inv tracks us bufs c"
  obtains E where "shadows tracks bufs c E" "\<forall>a. E a = c a \<or> (\<exists>i. hits_some tracks us i a)"
proof -
  define E where "E a = (if \<exists>i. buffered_at tracks bufs i a
      then (let i = SOME i. buffered_at tracks bufs i a
            in buf_data (the (map_find bufs i)) ! (a - segment_base (tracks ! i))) else c a)" for a
  have idx: "(SOME i. buffered_at tracks bufs i a) = i" if "buffered_at tracks bufs i a" for i a
  proof (rule some_equality [of "\<lambda>i. buffered_at tracks bufs i a", OF that])
    fix j assume "buffered_at tracks bufs j a"
    with that show "j = i" using placed_unique [OF pl, of j i a] by (auto simp: buffered_at_def)
  qed
  have Ei: "E a = buf_data bf ! (a - segment_base (tracks ! i))"
    if "map_find bufs i = Some bf" "loaded bf" "a \<in> segment_range (tracks ! i)" "i < length tracks" for i bf a
  proof -
    have ex: "\<exists>i. buffered_at tracks bufs i a" and "(SOME i. buffered_at tracks bufs i a) = i"
      using that idx [of i a] by (auto simp: buffered_at_def)
    then show ?thesis using that by (simp add: E_def Let_def)
  qed
  have "E a = c a \<or> (\<exists>i. hits_some tracks us i a)" for a
  proof (cases "\<exists>i. buffered_at tracks bufs i a")
    case True
    then obtain i bf where "map_find bufs i = Some bf" "loaded bf" "a \<in> segment_range (tracks ! i)" "i < length tracks"
      by (auto simp: buffered_at_def)
    with inv Ei show ?thesis by (metis buf_inv_def)
  qed (simp add: E_def)
  moreover have "shadows tracks bufs c E"
    using Ei by (auto simp: shadows_def E_def)
  ultimately show thesis using that by blast
qed

lemma buf_inv_settles:
  assumes pl: "placed tracks" and inv: "buf_inv tracks us bufs c"
    and s: "settles tracks dat (hits_some tracks us) ok c c'"
  shows "buf_inv tracks us bufs c'"
proof -
  have "buf_data bf ! (a - segment_base (tracks ! i)) = c' a \<or> hits_some tracks us i a"
    if f: "map_find bufs i = Some bf" "loaded bf" "a \<in> segment_range (tracks ! i)" for i bf a
  proof -
    have i: "i < length tracks" using inv f by (auto simp: buf_inv_def buffer_ok_def dest: bufs_okD)
    have "j = i" if "hits_some tracks us j a" for j
      using that i f(3) placed_unique [OF pl, of j i a] by (auto simp: hits_some_def hits_def)
    moreover have "c' a = c a \<or> (\<exists>j. hits_some tracks us j a)" using s by (auto simp: settles_def)
    moreover have "buf_data bf ! (a - segment_base (tracks ! i)) = c a \<or> hits_some tracks us i a"
      using inv f unfolding buf_inv_def by blast
    ultimately show ?thesis by auto
  qed
  then show ?thesis using inv by (auto simp: buf_inv_def)
qed

lemma settles_from_shadow:
  assumes "settles tracks dat H True E E'" "\<And>a. E a = c a \<or> (\<exists>i. H i a)"
  shows "settles tracks dat H True c E'"
  using assms unfolding settles_def by metis

lemma flush_settles:
  assumes pl: "placed tracks" and v: "view b MERGED tracks s E'"
    and s: "settles tracks dat H True c E'" "settles tracks dat H False c (content b (rs_world s))"
    and fl: "flush_buffers b (rs_buffers s) (rs_counters s) (rs_world s) = (r, c', w')"
  shows "settles tracks dat H (r = OK) c (content b w')" "\<And>a. content b w' a = content b (rs_world s) a \<or> content b w' a = E' a"
proof -
  have ok: "bufs_ok tracks (rs_buffers s)" and sh: "shadows tracks (rs_buffers s) (content b (rs_world s)) E'"
    using v by (simp_all add: view_def)
  then have mok: "map_ok (rs_buffers s)" by (simp add: bufs_ok_def)
  let ?L = "\<lambda>a. \<exists>i bf. (i, bf) \<in> set (rs_buffers s) \<and> loaded bf \<and> a \<in> segment_range (tracks ! i)"
  have m: "moves ?L E' (r = OK) (content b (rs_world s)) (content b w')"
  proof (rule flush_buffers_moves [OF fl])
    fix i bf assume "(i, bf) \<in> set (rs_buffers s)"
    then have f: "map_find (rs_buffers s) i = Some bf" using mok by (simp add: map_find_iff)
    then show b: "buffer_ok tracks i bf" by (rule bufs_okD [OF ok])
    fix a assume "loaded bf" "a \<in> segment_range (tracks ! i)"
    with f b sh show "buf_data bf ! (a - segment_base (tracks ! i)) = E' a" by (simp add: shadows_def buffer_ok_def)
  qed
  have "content b (rs_world s) a = E' a" if "\<not> ?L a" for a
    using sh that mok by (auto simp: shadows_def buffered_at_def map_find_iff)
  then have all: "content b w' = E'" if "r = OK"
    using m that unfolding moves_def by (metis ext)
  show each: "content b w' a = content b (rs_world s) a \<or> content b w' a = E' a" for a
    using m unfolding moves_def by blast
  show "settles tracks dat H (r = OK) c (content b w')"
  proof (cases "r = OK")
    case False
    have "content b w' a = c a \<or> (\<exists>i. H i a \<and> content b w' a = file_byte tracks dat i a)" for a
      using each [of a] s unfolding settles_def by metis
    with False show ?thesis by (simp add: settles_def)
  qed (use all s(1) in simp)
qed

text \<open>The control flow of \<open>ApplyPendingUpdatesLocked\<close> in one line: updates, then perhaps a flush.\<close>

lemma ApplyPending_run:
  "ApplyPendingUpdatesLocked st k w =
     (if length (sst_data st) > sum_list (map segment_bytes (sst_tracks st))
      then (IOError ''KVIMR payload exceeds allocated tracks'', st, k, w)
      else let (a, s) = apply_updates (backend k) (rmw_mode k) (sst_data st) (sst_tracks st) (pending_updates st)
                 \<lparr>rs_buffers = merged_buffers st, rs_counters = rmw_counters k, rs_world = w\<rparr>;
               (r, c, w') = (if a = OK \<and> rmw_mode k = MERGED
                 then flush_buffers (backend k) (rs_buffers s) (rs_counters s) (rs_world s)
                 else (a, rs_counters s, rs_world s))
           in (r, st\<lparr>merged_buffers := rs_buffers s\<rparr>, k\<lparr>rmw_counters := c\<rparr>, w'))"
proof -
  have "segment_capacity = segment_bytes"
    by (rule ext) (rule segment_capacity_bytes)
  then show ?thesis
    by (auto simp: ApplyPendingUpdatesLocked_def Let_def split: prod.splits Status.splits)
qed

lemma apply_then_flush:
  assumes ap: "apply_updates b mode dat tracks us \<lparr>rs_buffers = bufs, rs_counters = c0, rs_world = w\<rparr> = (a, s)"
    and fl: "(if a = OK \<and> mode = MERGED then flush_buffers b (rs_buffers s) (rs_counters s) (rs_world s)
      else (a, rs_counters s, rs_world s)) = (r, c', w')"
    and pl: "placed tracks" and u: "list_all (consistent dat) us" and inv: "buf_inv tracks us bufs (content b w)"
  shows "settles tracks dat (hits_some tracks us) (r = OK) (content b w) (content b w') \<and>
    buf_inv tracks us (rs_buffers s) (content b w')"
proof (cases mode)
  let ?s = "\<lparr>rs_buffers = bufs, rs_counters = c0, rs_world = w\<rparr>"
  case NAIVE
  then have v: "view b mode tracks ?s (content b w)" by (simp add: view_def)
  have "settles tracks dat (hits_some tracks us) (a = OK) (content b w) (content b (rs_world s))"
    "rs_buffers s = bufs"
    using apply_updates_view [OF ap pl u v] NAIVE by (auto simp: view_def)
  moreover have "r = a" "w' = rs_world s" using fl NAIVE by auto
  ultimately show ?thesis using buf_inv_settles [OF pl inv] by simp
next
  let ?s = "\<lparr>rs_buffers = bufs, rs_counters = c0, rs_world = w\<rparr>" and ?H = "hits_some tracks us"
  case MERGED
  obtain E where E: "shadows tracks bufs (content b w) E" "\<forall>x. E x = content b w x \<or> (\<exists>i. ?H i x)"
    by (rule buf_inv_shadows [OF pl inv])
  have v: "view b mode tracks ?s E" using E(1) inv MERGED by (simp add: view_def buf_inv_def)
  obtain E' where E': "view b mode tracks s E'" "settles tracks dat ?H (a = OK) E E'"
    "settles tracks dat ?H False (content b w) (content b (rs_world s))"
    using apply_updates_view [OF ap pl u v] by auto
  have ok: "bufs_ok tracks (rs_buffers s)" and sh: "shadows tracks (rs_buffers s) (content b (rs_world s)) E'"
    using E'(1) MERGED by (simp_all add: view_def)
  have out: "settles tracks dat ?H (r = OK) (content b w) (content b w')"
    "\<And>x. content b w' x = content b (rs_world s) x \<or> content b w' x = E' x"
  proof -
    have "settles tracks dat ?H (r = OK) (content b w) (content b w') \<and>
        (\<forall>x. content b w' x = content b (rs_world s) x \<or> content b w' x = E' x)"
    proof (cases "a = OK")
      case True
      then have "settles tracks dat ?H True (content b w) E'"
        using settles_from_shadow [of tracks dat ?H E E'] E'(2) E(2) by simp
      with flush_settles [OF pl E'(1) [unfolded MERGED] _ E'(3)] fl True MERGED show ?thesis by simp
    qed (use fl E'(3) in \<open>auto simp: settles_def\<close>)
    then show "settles tracks dat ?H (r = OK) (content b w) (content b w')"
      "\<And>x. content b w' x = content b (rs_world s) x \<or> content b w' x = E' x" by auto
  qed
  have "buf_data bf ! (x - segment_base (tracks ! i)) = content b w' x \<or> ?H i x"
    if f: "map_find (rs_buffers s) i = Some bf" "loaded bf" "x \<in> segment_range (tracks ! i)" for i bf x
  proof -
    have i: "i < length tracks" using bufs_okD [OF ok f(1)] by (simp add: buffer_ok_def)
    have "buf_data bf ! (x - segment_base (tracks ! i)) = E' x"
      using sh f i unfolding shadows_def by blast
    moreover have "E' x = content b w' x \<or> (\<exists>j. ?H j x)"
      using out(2) [of x] E(2) E'(2,3) unfolding settles_def by metis
    moreover have "j = i" if "?H j x" for j
      using that i f(3) placed_unique [OF pl, of j i x] by (auto simp: hits_some_def hits_def)
    ultimately show ?thesis by auto
  qed
  with ok out(1) show ?thesis by (auto simp: buf_inv_def)
qed

lemma ApplyPending_settles:
  assumes run: "ApplyPendingUpdatesLocked st k w = (r, st', k', w')"
    and pl: "placed (sst_tracks st)" and u: "list_all (consistent (sst_data st)) (pending_updates st)"
    and inv: "buf_inv (sst_tracks st) (pending_updates st) (merged_buffers st) (content (backend k) w)"
  shows "settles (sst_tracks st) (sst_data st) (hits_some (sst_tracks st) (pending_updates st)) (r = OK)
      (content (backend k) w) (content (backend k) w')"
    "buf_inv (sst_tracks st) (pending_updates st) (merged_buffers st') (content (backend k) w')"
    "st' = st\<lparr>merged_buffers := merged_buffers st'\<rparr>" "k' = k\<lparr>rmw_counters := rmw_counters k'\<rparr>"
    "r = OK \<Longrightarrow> length (sst_data st) \<le> sum_list (map segment_bytes (sst_tracks st))"
proof -
  let ?s = "\<lparr>rs_buffers = merged_buffers st, rs_counters = rmw_counters k, rs_world = w\<rparr>"
  obtain a s where ap: "apply_updates (backend k) (rmw_mode k) (sst_data st) (sst_tracks st) (pending_updates st) ?s = (a, s)"
    by (cases "apply_updates (backend k) (rmw_mode k) (sst_data st) (sst_tracks st) (pending_updates st) ?s")
  obtain r1 c1 w1 where fl: "(if a = OK \<and> rmw_mode k = MERGED
      then flush_buffers (backend k) (rs_buffers s) (rs_counters s) (rs_world s)
      else (a, rs_counters s, rs_world s)) = (r1, c1, w1)"
    by (cases "if a = OK \<and> rmw_mode k = MERGED
      then flush_buffers (backend k) (rs_buffers s) (rs_counters s) (rs_world s)
      else (a, rs_counters s, rs_world s)") auto
  note eq = run [unfolded ApplyPending_run ap fl Let_def prod.case]
  show "settles (sst_tracks st) (sst_data st) (hits_some (sst_tracks st) (pending_updates st)) (r = OK)
      (content (backend k) w) (content (backend k) w')"
    "buf_inv (sst_tracks st) (pending_updates st) (merged_buffers st') (content (backend k) w')"
    "st' = st\<lparr>merged_buffers := merged_buffers st'\<rparr>" "k' = k\<lparr>rmw_counters := rmw_counters k'\<rparr>"
    "r = OK \<Longrightarrow> length (sst_data st) \<le> sum_list (map segment_bytes (sst_tracks st))"
    using eq apply_then_flush [OF ap fl pl u inv] inv by (auto simp: settles_refl split: if_splits)
qed

section \<open>Counters\<close>

text \<open>The TOP tracks one pass of the segment loop updates, and their number over all updates.\<close>

fun count_top :: "PendingUpdate \<Rightarrow> KVIMRTrackSegment list \<Rightarrow> nat \<Rightarrow> nat" where
  "count_top u [] start = 0"
| "count_top u (seg # segs) start =
     (if seg_type seg = TOP \<and> ov_start u start < ov_end u start (segment_bytes seg) then 1 else 0) +
     (if upd_end u \<le> start + segment_bytes seg then 0 else count_top u segs (start + segment_bytes seg))"

definition touch_count :: "KVIMRTrackSegment list \<Rightarrow> PendingUpdate list \<Rightarrow> nat" where
  "touch_count tracks us = sum_list (map (\<lambda>u. count_top u tracks 0) us)"

definition loaded_tracks :: "(nat, MergedTrackBuffer) std_map \<Rightarrow> nat set" where
  "loaded_tracks bufs = {i. \<exists>bf. map_find bufs i = Some bf \<and> loaded bf}"

lemma finite_loaded [simp]: "finite (loaded_tracks bufs)"
  by (rule finite_subset [OF _ finite_dom_map_of [of bufs]]) (auto simp: loaded_tracks_def)

text \<open>How \<open>n\<close> touches of TOP tracks change the counters.\<close>

definition counted :: "RMWMode \<Rightarrow> nat \<Rightarrow> rmw_state \<Rightarrow> rmw_state \<Rightarrow> bool" where
  "counted mode n s s' \<longleftrightarrow>
     (let c = rs_counters s; c' = rs_counters s'
      in (mode = NAIVE \<longrightarrow> naive_rmw_count c' = naive_rmw_count c + word_of_nat n) \<and>
         (mode = MERGED \<longrightarrow>
            merged_logical_update_count c' = merged_logical_update_count c + word_of_nat n \<and>
            merged_buffer_create_count c' + merged_buffer_hit_count c' =
              merged_buffer_create_count c + merged_buffer_hit_count c + word_of_nat n \<and>
            merged_updates_saved c' + merged_buffer_hit_count c = merged_updates_saved c + merged_buffer_hit_count c' \<and>
            merged_buffer_create_count c' + word_of_nat (card (loaded_tracks (rs_buffers s))) =
              merged_buffer_create_count c + word_of_nat (card (loaded_tracks (rs_buffers s'))) \<and>
            merged_rmw_count c' = merged_rmw_count c))"

lemma counted_refl: "counted mode 0 s s"
  by (simp add: counted_def)

lemma counted_trans:
  assumes "counted mode m s s1" "counted mode n s1 s2"
  shows "counted mode (m + n) s s2"
proof -
  have chain: "x'' + y = x + y''" if "x' + y = x + y'" "x'' + y' = x' + y''" for x y x' y' x'' y'' :: u64
  proof -
    have "x'' + y + (x' + y') = x + y'' + (x' + y')"
      using arg_cong2 [OF that, of "(+)"] by (simp add: ac_simps)
    then show ?thesis by simp
  qed
  show ?thesis
    using assms unfolding counted_def Let_def
    by (auto simp: ac_simps intro: chain)
qed

lemma loaded_put: "loaded bf \<Longrightarrow> loaded_tracks (map_put i bf bufs) = insert i (loaded_tracks bufs)"
  by (auto simp: loaded_tracks_def)

lemma merged_update_counted:
  assumes "merged_update b i seg base n off src s = (OK, s')"
  shows "counted MERGED 1 s s'"
proof (cases "loaded (buffer_at i (rs_buffers s))")
  case True
  then have "i \<in> loaded_tracks (rs_buffers s)"
    by (auto simp: loaded_tracks_def buffer_at_def new_buffer_def split: option.splits)
  then show ?thesis
    using assms True
    by (auto simp: merged_update_def Let_def counted_def loaded_put patch_buffer_def insert_absorb)
next
  case False
  then have "i \<notin> loaded_tracks (rs_buffers s)"
    by (auto simp: loaded_tracks_def buffer_at_def)
  then show ?thesis
    using assms False
    by (auto simp: merged_update_def Let_def counted_def loaded_put patch_buffer_def split: prod.splits Status.splits)
qed

lemma apply_segment_counted:
  assumes "apply_segment b mode dat u i seg start s = (OK, s')"
  shows "counted mode (if seg_type seg = TOP \<and> ov_start u start < ov_end u start (segment_bytes seg) then 1 else 0) s s'"
proof -
  have n: "counted NAIVE 1 s s'" if "naive_update b base n off src s = (OK, s')" for base n off src
    using that by (auto simp: naive_update_def counted_def Let_def split: prod.splits Status.splits)
  have d: "counted mode 0 s s'" if "direct_write b base dat start x y s = (OK, s')" for base x y
    using that by (auto simp: direct_write_def counted_def Let_def split: prod.splits Status.splits)
  show ?thesis
    using assms n d merged_update_counted [of b i seg]
    by (cases mode) (auto simp: apply_segment_cases counted_refl split: if_splits)
qed

lemma apply_segments_counted:
  "apply_segments b mode dat u i segs start s = (OK, s') \<Longrightarrow> counted mode (count_top u segs start) s s'"
proof (induction segs arbitrary: i start s)
  case (Cons seg segs)
  obtain s1 where s1: "apply_segment b mode dat u i seg start s = (OK, s1)"
    using Cons.prems by (auto split: prod.splits Status.splits)
  have "counted mode (if upd_end u \<le> start + segment_bytes seg then 0 else count_top u segs (start + segment_bytes seg)) s1 s'"
    using Cons s1 by (auto simp: Let_def segment_capacity_bytes upd_end_def counted_refl split: if_splits)
  from counted_trans [OF apply_segment_counted [OF s1] this] show ?case by simp
qed (simp add: counted_refl)

lemma apply_updates_counted:
  "apply_updates b mode dat tracks us s = (OK, s') \<Longrightarrow> counted mode (touch_count tracks us) s s'"
proof (induction us arbitrary: s)
  case (Cons u us)
  obtain s1 where s1: "apply_segments b mode dat u 0 tracks 0 s = (OK, s1)"
    using Cons.prems by (auto split: prod.splits Status.splits)
  with Cons have "counted mode (touch_count tracks us) s1 s'" by simp
  from counted_trans [OF apply_segments_counted [OF s1] this] show ?case by (simp add: touch_count_def)
qed (simp add: counted_refl touch_count_def)

lemma flush_counted:
  "flush_buffers b bufs c w = (OK, c', w') \<Longrightarrow>
     merged_rmw_count c' = merged_rmw_count c + word_of_nat (length (filter (dirty \<circ> snd) bufs)) \<and>
     merged_logical_update_count c' = merged_logical_update_count c \<and>
     merged_updates_saved c' = merged_updates_saved c \<and>
     merged_buffer_create_count c' = merged_buffer_create_count c \<and>
     merged_buffer_hit_count c' = merged_buffer_hit_count c"
  by (induction b bufs c w rule: flush_buffers.induct)
    (auto simp: Let_def algebra_simps split: if_splits prod.splits Status.splits)

lemma dirty_count:
  assumes "bufs_ok tracks bufs"
  shows "length (filter (dirty \<circ> snd) bufs) = card (loaded_tracks bufs)"
proof -
  have ok: "map_ok bufs" and ld: "loaded bf = dirty bf" if "(i, bf) \<in> set bufs" for i bf
    using assms that by (auto simp: bufs_ok_def map_find_iff buffer_ok_def)
  have mok: "map_ok bufs" using assms by (simp add: bufs_ok_def)
  have "loaded_tracks bufs = fst ` set (filter (dirty \<circ> snd) bufs)"
    using ld by (force simp: loaded_tracks_def map_find_iff [OF mok])
  moreover have "distinct (map fst (filter (dirty \<circ> snd) bufs))"
    using map_ok_distinct [OF mok] by (rule distinct_map_filter)
  ultimately show ?thesis
    by (metis distinct_card length_map list.set_map)
qed

lemma counter_sum:
  fixes n m :: u64
  assumes "create + hit = create0 + hit0 + n" "saved + hit0 = saved0 + hit" "create = create0 + m"
  shows "n = m + (saved - saved0)"
proof -
  have "n = create + hit - (create0 + hit0)" using assms(1) by simp
  moreover have "hit = saved + hit0 - saved0" using assms(2) by (simp add: eq_diff_eq add.commute)
  ultimately show ?thesis using assms(3) by simp
qed

lemma naive_run_count:
  assumes "rmw_mode k = NAIVE" "ApplyPendingUpdatesLocked st k w = (OK, st', k', w')"
  shows "naive_rmw_count (rmw_counters k') =
    naive_rmw_count (rmw_counters k) + word_of_nat (touch_count (sst_tracks st) (pending_updates st))"
proof -
  let ?s = "\<lparr>rs_buffers = merged_buffers st, rs_counters = rmw_counters k, rs_world = w\<rparr>"
  obtain s where ap: "apply_updates (backend k) NAIVE (sst_data st) (sst_tracks st) (pending_updates st) ?s = (OK, s)"
    and k': "k' = k\<lparr>rmw_counters := rs_counters s\<rparr>"
    using assms by (auto simp: ApplyPending_run Let_def split: if_splits prod.splits)
  show ?thesis
    using apply_updates_counted [OF ap] by (simp add: counted_def k')
qed

lemma merged_run_count:
  assumes "rmw_mode k = MERGED" "ApplyPendingUpdatesLocked st k w = (OK, st', k', w')"
    "merged_buffers st = []" "placed (sst_tracks st)" "list_all (consistent (sst_data st)) (pending_updates st)"
  shows "merged_logical_update_count (rmw_counters k') =
      merged_logical_update_count (rmw_counters k) + word_of_nat (touch_count (sst_tracks st) (pending_updates st))"
    "merged_logical_update_count (rmw_counters k') - merged_logical_update_count (rmw_counters k) =
      (merged_rmw_count (rmw_counters k') - merged_rmw_count (rmw_counters k)) +
      (merged_updates_saved (rmw_counters k') - merged_updates_saved (rmw_counters k))"
proof -
  let ?b = "backend k" and ?t = "sst_tracks st" and ?us = "pending_updates st"
  let ?s = "\<lparr>rs_buffers = [], rs_counters = rmw_counters k, rs_world = w\<rparr>"
  obtain s c where ap: "apply_updates ?b MERGED (sst_data st) ?t ?us ?s = (OK, s)"
    and fl: "flush_buffers ?b (rs_buffers s) (rs_counters s) (rs_world s) = (OK, c, w')"
    and k': "k' = k\<lparr>rmw_counters := c\<rparr>"
    using assms(1-3) by (auto simp: ApplyPending_run Let_def split: if_splits prod.splits)
  have "view ?b MERGED ?t ?s (content ?b w)"
    by (simp add: view_def bufs_ok_def shadows_def)
  from apply_updates_view [OF ap assms(4,5) this] have "bufs_ok ?t (rs_buffers s)"
    by (auto simp: view_def)
  note dirty = dirty_count [OF this]
  have none: "loaded_tracks [] = {}" by (simp add: loaded_tracks_def)
  note counts = apply_updates_counted [OF ap, unfolded counted_def Let_def, simplified] flush_counted [OF fl]
  show "merged_logical_update_count (rmw_counters k') =
      merged_logical_update_count (rmw_counters k) + word_of_nat (touch_count ?t ?us)"
    using counts by (simp add: k')
  have "(word_of_nat (touch_count ?t ?us) :: u64) = word_of_nat (card (loaded_tracks (rs_buffers s))) +
      (merged_updates_saved (rs_counters s) - merged_updates_saved (rmw_counters k))"
    by (rule counter_sum [of "merged_buffer_create_count (rs_counters s)" "merged_buffer_hit_count (rs_counters s)"
          "merged_buffer_create_count (rmw_counters k)" "merged_buffer_hit_count (rmw_counters k)"])
      (use counts(1) in \<open>blast, blast, simp add: none\<close>)
  then show "merged_logical_update_count (rmw_counters k') - merged_logical_update_count (rmw_counters k) =
      (merged_rmw_count (rmw_counters k') - merged_rmw_count (rmw_counters k)) +
      (merged_updates_saved (rmw_counters k') - merged_updates_saved (rmw_counters k))"
    using counts dirty by (simp add: k')
qed

end
