(* ===== verification/Kvimr_Progress.thy ===== *)
theory Kvimr_Progress
  imports Kvimr_Payload
begin

text \<open>
  Liveness of the payload path: on an open device that is large enough and whose calls are at most
  interrupted or cut short, applying the pending updates of a file with enough tracks succeeds.
\<close>

section \<open>A device that answers\<close>

text \<open>\<open>ready b w n\<close>: the open device has \<open>n\<close> bytes, sector alignment suffices, and the coming
  calls are benign.\<close>

definition ready :: "IMRSimBackend \<Rightarrow> os_world \<Rightarrow> nat \<Rightarrow> bool" where
  "ready b w n \<longleftrightarrow> quiet w \<and> direct_io_alignment b dvd 512 \<and>
     (\<exists>path d. fd b = Some path \<and> os_devices w path = Some d \<and> n \<le> dev_size d \<and> dev_size d < 2 ^ 63)"

lemma ready_Validate:
  assumes "ready b w n" "512 dvd off" "512 dvd len" "off + len \<le> n"
  shows "ValidateRange off len b = OK"
proof -
  have "direct_io_alignment b dvd off" "direct_io_alignment b dvd len"
    using assms by (auto simp: ready_def intro: dvd_trans)
  then show ?thesis using assms by (auto simp: ready_def ValidateRange_OK)
qed

lemma ready_Read:
  assumes "ready b w n" "512 dvd off" "512 dvd length buf" "off + length buf \<le> n"
  obtains buf' w' where "Read off buf b w = (OK, buf', w')" "ready b w' n" "length buf' = length buf"
proof -
  from assms(1) obtain path d where d: "fd b = Some path" "os_devices w path = Some d" "n \<le> dev_size d"
    "quiet w" by (auto simp: ready_def)
  obtain s buf' w' where r: "Read off buf b w = (s, buf', w')" by (cases "Read off buf b w") auto
  have "off + length buf \<le> dev_size d" using assms(4) d(3) by simp
  from Read_progress [OF d(4,1,2) ready_Validate [OF assms] this] have "s = OK" "quiet w'"
    by (simp_all add: r)
  moreover have "ready b w' n"
    using assms(1) \<open>quiet w'\<close> Read_world [OF r] by (simp add: ready_def)
  ultimately show thesis using that r Read_length [OF r] by simp
qed

lemma ready_Write:
  assumes "ready b w n" "512 dvd off" "512 dvd length bs" "off + length bs \<le> n"
  obtains w' where "Write off bs b w = (OK, w')" "ready b w' n"
proof -
  from assms(1) obtain path d where d: "fd b = Some path" "os_devices w path = Some d" "n \<le> dev_size d"
    "quiet w" "dev_size d < 2 ^ 63" by (auto simp: ready_def)
  obtain s w' where r: "Write off bs b w = (s, w')" by (cases "Write off bs b w") auto
  have "off + length bs \<le> dev_size d" using assms(4) d(3) by simp
  from Write_progress [OF d(4,1,2) ready_Validate [OF assms] this] have "s = OK" "quiet w'"
    by (simp_all add: r)
  moreover obtain d' where "os_devices w' path = Some d'" "dev_size d' = dev_size d"
    using Write_wrote [OF r] d(1,2) by (auto elim: wrote_device_size)
  ultimately show thesis
    using that [of w'] r assms(1) d by (auto simp: ready_def)
qed

section \<open>The updates\<close>

definition fits_device :: "nat \<Rightarrow> KVIMRTrackSegment list \<Rightarrow> bool" where
  "fits_device n tracks \<longleftrightarrow> (\<forall>seg \<in> set tracks. segment_base seg + segment_bytes seg \<le> n)"

lemma naive_update_progress:
  assumes "ready b (rs_world s) n" "512 dvd base" "512 dvd cap" "base + cap \<le> n" "local + length src \<le> cap"
  shows "\<exists>s'. naive_update b base cap local src s = (OK, s') \<and> ready b (rs_world s') n"
proof -
  obtain track w1 where r: "Read base (replicate cap zero_byte) b (rs_world s) = (OK, track, w1)" "ready b w1 n"
    "length track = cap"
    using ready_Read [OF assms(1,2), of "replicate cap zero_byte"] assms(3,4) by auto
  obtain w2 where "Write base (memcpy_at track local src) b w1 = (OK, w2)" "ready b w2 n"
    using ready_Write [OF r(2) assms(2), of "memcpy_at track local src"] assms(3-5) r(3) by auto
  with r show ?thesis by (simp add: naive_update_def Let_def)
qed

lemma merged_update_progress:
  assumes "ready b (rs_world s) n" "512 dvd base" "512 dvd cap" "base + cap \<le> n"
  shows "\<exists>s'. merged_update b i seg base cap local src s = (OK, s') \<and> ready b (rs_world s') n"
proof (cases "loaded (buffer_at i (rs_buffers s))")
  case False
  let ?buf = "resize (buf_data (buffer_at i (rs_buffers s))) cap"
  have "length ?buf = cap" by (simp add: resize_def)
  then obtain d w1 where "Read base ?buf b (rs_world s) = (OK, d, w1)" "ready b w1 n"
    using ready_Read [OF assms(1,2), of ?buf thesis] assms(3,4) by simp
  with False show ?thesis by (simp add: merged_update_def Let_def)
qed (use assms in \<open>simp add: merged_update_def Let_def\<close>)

lemma direct_write_progress:
  assumes rd: "ready b (rs_world s) n" and al: "512 dvd base" "512 dvd start" "512 dvd cap"
    and le: "base + cap \<le> n" "start \<le> os" "os < oe" "oe \<le> start + cap"
  shows "\<exists>s'. direct_write b base dat start os oe s = (OK, s') \<and> ready b (rs_world s') n"
proof -
  define x where "x = os div 512 * 512"
  define y where "y = (oe + 511) div 512 * 512"
  have x: "512 dvd x" "start \<le> x" unfolding x_def
    using div_le_mono [OF le(2), of 512] al(2) by (auto elim!: dvdE)
  have y: "512 dvd y" "x \<le> y" using le(3) by (auto simp: x_def y_def intro!: mult_le_mono1 div_le_mono)
  have "y \<le> (start + cap + 511) div 512 * 512"
    using le(4) unfolding y_def by (intro mult_le_mono1 div_le_mono) simp
  then have yc: "y \<le> start + cap" using al by (simp add: round_up_dvd)
  have off: "512 dvd base + x - start" using al x by (simp add: dvd_diff_nat)
  have len: "512 dvd length (map (pad_byte dat) [x..<x + (y - x)])" using x y by (simp add: dvd_diff_nat)
  have "base + x - start + length (map (pad_byte dat) [x..<x + (y - x)]) \<le> n"
    using x y yc le by simp
  from ready_Write [OF rd off len this] obtain w'
    where "Write (base + x - start) (map (pad_byte dat) [x..<x + (y - x)]) b (rs_world s) = (OK, w')" "ready b w' n"
    by blast
  then show ?thesis
    by (simp add: direct_write_def Let_def kSectorSize_def direct_buffer x_def y_def add.commute [of 511 oe])
qed

lemma apply_segment_progress:
  assumes "ready b (rs_world s) n" "consistent dat u" "segment_base seg + segment_bytes seg \<le> n" "512 dvd start"
  shows "\<exists>s'. apply_segment b mode dat u i seg start s = (OK, s') \<and> ready b (rs_world s') n"
proof (cases "ov_start u start < ov_end u start (segment_bytes seg)")
  case True
  have "start \<le> ov_start u start" "ov_end u start (segment_bytes seg) \<le> start + segment_bytes seg"
    by (simp_all add: ov_start_def ov_end_def)
  with True assms show ?thesis
    using naive_update_progress [OF assms(1) _ _ assms(3) ov_data(2) [OF assms(2) True]]
      merged_update_progress [OF assms(1) _ _ assms(3)] direct_write_progress [OF assms(1) _ assms(4) _ assms(3)]
    by (simp add: apply_segment_cases)
qed (use assms(1) in \<open>simp add: apply_segment_cases\<close>)

lemma apply_segments_progress:
  "ready b (rs_world s) n \<Longrightarrow> consistent dat u \<Longrightarrow> fits_device n segs \<Longrightarrow> 512 dvd start \<Longrightarrow>
     \<exists>s'. apply_segments b mode dat u i segs start s = (OK, s') \<and> ready b (rs_world s') n"
proof (induction segs arbitrary: i start s)
  case (Cons seg segs)
  obtain s1 where s1: "apply_segment b mode dat u i seg start s = (OK, s1)" "ready b (rs_world s1) n"
    using apply_segment_progress [OF Cons.prems(1,2) _ Cons.prems(4)] Cons.prems(3)
    by (fastforce simp: fits_device_def)
  have "512 dvd start + segment_capacity seg" using Cons.prems(4) by (simp add: segment_capacity_bytes)
  with Cons.IH [OF s1(2) Cons.prems(2)] Cons.prems(3) s1 show ?case
    by (simp add: Let_def fits_device_def)
qed simp

lemma apply_updates_progress:
  "ready b (rs_world s) n \<Longrightarrow> list_all (consistent dat) us \<Longrightarrow> fits_device n tracks \<Longrightarrow>
     \<exists>s'. apply_updates b mode dat tracks us s = (OK, s') \<and> ready b (rs_world s') n"
proof (induction us arbitrary: s)
  case (Cons u us)
  then obtain s1 where "apply_segments b mode dat u 0 tracks 0 s = (OK, s1)" "ready b (rs_world s1) n"
    using apply_segments_progress [of b s n dat u tracks 0 mode 0] by auto
  with Cons show ?case by simp
qed simp

lemma flush_progress:
  "ready b w n \<Longrightarrow> \<forall>(i, bf) \<in> set bufs. buffer_ok tracks i bf \<Longrightarrow> fits_device n tracks \<Longrightarrow>
     \<exists>c' w'. flush_buffers b bufs c w = (OK, c', w') \<and> ready b w' n"
proof (induction b bufs c w rule: flush_buffers.induct)
  case (2 b i bf bufs c w)
  show ?case
  proof (cases "dirty bf")
    case True
    have bf: "i < length tracks" "buf_segment bf = tracks ! i" "length (buf_data bf) = segment_bytes (tracks ! i)"
      using 2(4) True by (auto simp: buffer_ok_def)
    then have le: "segment_base (tracks ! i) + length (buf_data bf) \<le> n"
      using 2(5) by (auto simp: fits_device_def)
    have base: "logical_sector_start (buf_segment bf) * kSectorSize = segment_base (tracks ! i)"
      by (simp add: bf segment_base_def kSectorSize_def)
    obtain w1 where w1: "Write (segment_base (tracks ! i)) (buf_data bf) b w = (OK, w1)" "ready b w1 n"
      by (rule ready_Write [OF 2(3) _ _ le]) (simp_all add: bf)
    have "\<exists>c' w'. flush_buffers b bufs (c\<lparr>merged_rmw_count := merged_rmw_count c + 1,
        merged_rmw_write_bytes := merged_rmw_write_bytes c + word_of_nat (length (buf_data bf)),
        merged_buffer_flush_count := merged_buffer_flush_count c + 1\<rparr>) w1 = (OK, c', w') \<and> ready b w' n"
      using 2(2) [of _ _ OK w1] True 2(4,5) w1 base by simp
    with True w1 base show ?thesis by (simp add: Let_def)
  qed (use 2 in simp)
qed simp

lemma ApplyPending_progress:
  assumes rd: "ready (backend k) w n" and fit: "fits_device n (sst_tracks st)" and pl: "placed (sst_tracks st)"
    and u: "list_all (consistent (sst_data st)) (pending_updates st)"
    and inv: "buf_inv (sst_tracks st) (pending_updates st) (merged_buffers st) (content (backend k) w)"
    and cap: "length (sst_data st) \<le> sum_list (map segment_bytes (sst_tracks st))"
  shows "\<exists>st' k' w'. ApplyPendingUpdatesLocked st k w = (OK, st', k', w') \<and> ready (backend k) w' n"
proof -
  let ?b = "backend k" and ?t = "sst_tracks st"
  let ?s = "\<lparr>rs_buffers = merged_buffers st, rs_counters = rmw_counters k, rs_world = w\<rparr>"
  obtain s where ap: "apply_updates ?b (rmw_mode k) (sst_data st) ?t (pending_updates st) ?s = (OK, s)" "ready ?b (rs_world s) n"
    using apply_updates_progress [of ?b ?s n, OF _ u fit] rd by auto
  show ?thesis
  proof (cases "rmw_mode k")
    case MERGED
    obtain E where "shadows ?t (merged_buffers st) (content ?b w) E" by (rule buf_inv_shadows [OF pl inv])
    then have "view ?b MERGED ?t ?s E" using inv by (simp add: view_def buf_inv_def)
    from apply_updates_view [OF ap(1) [unfolded MERGED] pl u this] have "bufs_ok ?t (rs_buffers s)"
      by (auto simp: view_def)
    then have "\<forall>(i, bf) \<in> set (rs_buffers s). buffer_ok ?t i bf" by (auto simp: bufs_ok_def map_find_iff)
    with flush_progress [OF ap(2) _ fit] obtain c' w'
      where "flush_buffers ?b (rs_buffers s) (rs_counters s) (rs_world s) = (OK, c', w')" "ready ?b w' n" by blast
    with ap MERGED cap show ?thesis by (simp add: ApplyPending_run)
  qed (use ap cap in \<open>simp add: ApplyPending_run\<close>)
qed

section \<open>Properties\<close>

text \<open>A small file on one TOP and one BOTTOM track, for the witnesses.\<close>

definition demo_file :: SSTableState where
  "demo_file = new_sstable\<lparr>file_number := 7, sst_data := ''abcdef'',
     sst_tracks := [SegmentAt TOP 0, SegmentAt BOTTOM 0],
     pending_updates := [\<lparr>upd_offset = 0, upd_data = ''abc''\<rparr>, \<lparr>upd_offset = 3, upd_data = ''def''\<rparr>]\<rparr>"

definition demo_kvimr :: "RMWMode \<Rightarrow> KVIMR" where
  "demo_kvimr mode = new_kvimr\<lparr>backend := demo_backend, rmw_mode := mode\<rparr>"

lemma demo_kvimr_simps [simp]: "rmw_mode (demo_kvimr mode) = mode" "backend (demo_kvimr mode) = demo_backend"
  by (simp_all add: demo_kvimr_def)

lemma demo_file_ok:
  "placed (sst_tracks demo_file)" "list_all (consistent (sst_data demo_file)) (pending_updates demo_file)"
  "merged_buffers demo_file = []" "length (sst_data demo_file) \<le> sum_list (map segment_bytes (sst_tracks demo_file))"
  "fits_device 1073741824 (sst_tracks demo_file)"
proof -
  have "segment_range (SegmentAt TOP 0) \<inter> segment_range (SegmentAt BOTTOM 0) = {}"
    using segment_range_disjoint [of "(TOP, 0)" "(BOTTOM, 0)"] by (simp add: segment_of_def)
  then show "placed (sst_tracks demo_file)"
    by (auto simp: placed_def demo_file_def nth_Cons' less_Suc_eq)
  show "list_all (consistent (sst_data demo_file)) (pending_updates demo_file)" "merged_buffers demo_file = []"
    by (simp_all add: demo_file_def consistent_def upd_end_def substr_def new_sstable_def)
  show "length (sst_data demo_file) \<le> sum_list (map segment_bytes (sst_tracks demo_file))"
    "fits_device 1073741824 (sst_tracks demo_file)"
    by (simp_all add: demo_file_def segment_bytes_def segment_base_def SegmentAt_start fits_device_def)
qed

lemma demo_ready: "list_all benign es \<Longrightarrow> ready demo_backend (demo_world es) 1073741824"
  by (simp add: ready_def demo_backend_def demo_world_def quiet_def)

lemma demo_run:
  assumes "list_all benign es"
  obtains st' k' w' where "ApplyPendingUpdatesLocked demo_file (demo_kvimr mode) (demo_world es) = (OK, st', k', w')"
proof -
  have "backend (demo_kvimr mode) = demo_backend" by (simp add: demo_kvimr_def)
  then show thesis
    using ApplyPending_progress [of "demo_kvimr mode" "demo_world es" 1073741824 demo_file] demo_ready [OF assms]
      demo_file_ok that by auto
qed

text \<open>C2. Whatever mode is active and whatever the device does, applying a file's pending updates
  changes only bytes inside the file's own tracks that a pending update covers, and only to the
  file's byte there; when it reports success every covered byte of the device holds the file's
  byte.  Buffers left over from an earlier failed attempt do not disturb this.\<close>

theorem ApplyPendingUpdates_correct:
  assumes "ApplyPendingUpdatesLocked st k w = (r, st', k', w')"
    and "placed (sst_tracks st)" "list_all (consistent (sst_data st)) (pending_updates st)"
    and "buf_inv (sst_tracks st) (pending_updates st) (merged_buffers st) (content (backend k) w)"
  shows "(\<forall>a. content (backend k) w' a = content (backend k) w a \<or>
      (\<exists>i. hits_some (sst_tracks st) (pending_updates st) i a \<and>
        content (backend k) w' a = pad_byte (sst_data st) (pos_in (sst_tracks st) i a))) \<and>
    (r = OK \<longrightarrow> (\<forall>i a. hits_some (sst_tracks st) (pending_updates st) i a \<longrightarrow>
        content (backend k) w' a = pad_byte (sst_data st) (pos_in (sst_tracks st) i a)))"
  using ApplyPending_settles(1) [OF assms] by (simp add: settles_def file_byte_def)

theorem ApplyPendingUpdates_correct_witness:
  "\<forall>a. let w' = snd (snd (snd (ApplyPendingUpdatesLocked demo_file (demo_kvimr MERGED) (demo_world [Sys_fail EIO]))))
     in content demo_backend w' a = CHR ''z'' \<or>
        (\<exists>i. hits_some (sst_tracks demo_file) (pending_updates demo_file) i a \<and>
          content demo_backend w' a = pad_byte (sst_data demo_file) (pos_in (sst_tracks demo_file) i a))"
proof -
  obtain r st' k' w' where run: "ApplyPendingUpdatesLocked demo_file (demo_kvimr MERGED) (demo_world [Sys_fail EIO]) =
      (r, st', k', w')"
    by (cases "ApplyPendingUpdatesLocked demo_file (demo_kvimr MERGED) (demo_world [Sys_fail EIO])") auto
  have "backend (demo_kvimr MERGED) = demo_backend" "content demo_backend (demo_world [Sys_fail EIO]) a = CHR ''z''" for a
    by (simp_all add: demo_kvimr_def content_def dev_content_def demo_backend_def demo_world_def)
  with ApplyPendingUpdates_correct [OF run demo_file_ok(1,2)] demo_file_ok(3) show ?thesis
    by (simp add: run Let_def)
qed

text \<open>C3. Merging is transparent and cheaper: from the same file without buffers and the same
  device content, a successful naive run and a successful merged run leave the same device content,
  and, modulo \<open>2^64\<close>, the read-modify-writes of the naive run are the logical updates of the merged
  run, which are its physical track writes plus the updates it saved.\<close>

theorem naive_merged_equivalence:
  assumes "placed (sst_tracks st)" "list_all (consistent (sst_data st)) (pending_updates st)"
    "merged_buffers st = []" "rmw_mode k1 = NAIVE" "rmw_mode k2 = MERGED"
    "backend k1 = b" "backend k2 = b" "content b w1 = content b w2"
    "ApplyPendingUpdatesLocked st k1 w1 = (OK, st1, k1', w1')"
    "ApplyPendingUpdatesLocked st k2 w2 = (OK, st2, k2', w2')"
  shows "content b w1' = content b w2' \<and>
    naive_rmw_count (rmw_counters k1') - naive_rmw_count (rmw_counters k1) =
      merged_logical_update_count (rmw_counters k2') - merged_logical_update_count (rmw_counters k2) \<and>
    merged_logical_update_count (rmw_counters k2') - merged_logical_update_count (rmw_counters k2) =
      (merged_rmw_count (rmw_counters k2') - merged_rmw_count (rmw_counters k2)) +
      (merged_updates_saved (rmw_counters k2') - merged_updates_saved (rmw_counters k2))"
proof (intro conjI)
  let ?H = "hits_some (sst_tracks st) (pending_updates st)"
  have "settles (sst_tracks st) (sst_data st) ?H True (content b w1) (content b w1')"
    using ApplyPending_settles(1) [OF assms(9,1,2)] assms(3,6) by simp
  moreover have "settles (sst_tracks st) (sst_data st) ?H True (content b w1) (content b w2')"
    using ApplyPending_settles(1) [OF assms(10,1,2)] assms(3,7,8) by simp
  ultimately show "content b w1' = content b w2'" by (rule settles_unique)
  show "naive_rmw_count (rmw_counters k1') - naive_rmw_count (rmw_counters k1) =
      merged_logical_update_count (rmw_counters k2') - merged_logical_update_count (rmw_counters k2)"
    using naive_run_count [OF assms(4,9)] merged_run_count(1) [OF assms(5,10,3,1,2)] by simp
  show "merged_logical_update_count (rmw_counters k2') - merged_logical_update_count (rmw_counters k2) =
      (merged_rmw_count (rmw_counters k2') - merged_rmw_count (rmw_counters k2)) +
      (merged_updates_saved (rmw_counters k2') - merged_updates_saved (rmw_counters k2))"
    by (rule merged_run_count(2) [OF assms(5,10,3,1,2)])
qed

theorem naive_merged_equivalence_witness:
  "content demo_backend (snd (snd (snd (ApplyPendingUpdatesLocked demo_file (demo_kvimr NAIVE) (demo_world [Sys_short 9]))))) =
   content demo_backend (snd (snd (snd (ApplyPendingUpdatesLocked demo_file (demo_kvimr MERGED) (demo_world [])))))"
proof -
  obtain st1 k1 w1 where 1: "ApplyPendingUpdatesLocked demo_file (demo_kvimr NAIVE) (demo_world [Sys_short 9]) = (OK, st1, k1, w1)"
    by (rule demo_run [of "[Sys_short 9]" NAIVE]) simp
  obtain st2 k2 w2 where 2: "ApplyPendingUpdatesLocked demo_file (demo_kvimr MERGED) (demo_world []) = (OK, st2, k2, w2)"
    by (rule demo_run [of "[]" MERGED]) simp
  have "content demo_backend (demo_world [Sys_short 9]) = content demo_backend (demo_world [])"
    by (simp add: content_def dev_content_def demo_world_def)
  with naive_merged_equivalence [OF demo_file_ok(1-3) _ _ _ _ _ 1 2, of demo_backend] show ?thesis
    by (simp add: 1 2)
qed

text \<open>C11. Synchronising a file's payload cannot get stuck: on an open, large enough device whose
  calls are only interrupted or cut short, with enough track space and sector alignment, applying
  the pending updates succeeds in either mode.\<close>

theorem ApplyPendingUpdates_completes:
  assumes "list_all benign (os_script w)" "fd (backend k) = Some path" "os_devices w path = Some d"
    "direct_io_alignment (backend k) = 512" "dev_size d < 2 ^ 63"
    "\<forall>seg \<in> set (sst_tracks st). segment_base seg + segment_bytes seg \<le> dev_size d"
    "placed (sst_tracks st)" "list_all (consistent (sst_data st)) (pending_updates st)" "merged_buffers st = []"
    "length (sst_data st) \<le> sum_list (map segment_bytes (sst_tracks st))"
  shows "fst (ApplyPendingUpdatesLocked st k w) = OK"
proof -
  have "ready (backend k) w (dev_size d)" "fits_device (dev_size d) (sst_tracks st)"
    using assms by (auto simp: ready_def quiet_def fits_device_def)
  from ApplyPending_progress [OF this assms(7,8)] assms(9,10) show ?thesis by auto
qed

theorem ApplyPendingUpdates_completes_witness:
  "fst (ApplyPendingUpdatesLocked demo_file (demo_kvimr NAIVE) (demo_world [Sys_short 100, Sys_fail EINTR])) = OK"
proof -
  have "segment_base seg + segment_bytes seg \<le> dev_size (the (os_devices (demo_world []) ''d''))"
    if "seg \<in> set (sst_tracks demo_file)" for seg
    using demo_file_ok(5) that by (auto simp: fits_device_def demo_world_def)
  then show ?thesis
    using demo_file_ok
    by (intro ApplyPendingUpdates_completes [where path = "''d''" and d = "the (os_devices (demo_world []) ''d'')"])
      (auto simp: demo_kvimr_def demo_world_def demo_backend_def)
qed

end
