(* ===== verification/Kvimr_Recovery.thy ===== *)
theory Kvimr_Recovery
  imports Kvimr_Progress
begin

text \<open>
  The middleware as a whole: the well-formedness of its state, which every public operation of
  \<open>db/kvimr.cc\<close> keeps whatever the system calls do, and recovery: after a successful \<open>kvsync\<close> a
  restart through \<open>InitializePersistence\<close> rebuilds the same table of files with the same bytes.
\<close>

section \<open>Well-formed states\<close>

definition file_wf :: "nat \<Rightarrow> SSTableState \<Rightarrow> bool" where
  "file_wf z st \<longleftrightarrow> list_all (consistent (sst_data st)) (pending_updates st) \<and> distinct (sst_tracks st) \<and>
     (\<forall>seg \<in> set (sst_tracks st). valid_segment z seg)"

definition kvimr_wf :: "KVIMR \<Rightarrow> bool" where
  "kvimr_wf k \<longleftrightarrow> map_ok (kv_files k) \<and> map_ok (s2tmap k) \<and> allocator_ok (allocator k) \<and>
     (\<forall>fname st. map_find (kv_files k) fname = Some st \<longrightarrow> file_wf (zones (allocator k)) st)"

lemma file_wf_new [simp]: "file_wf z new_sstable"
  by (simp add: file_wf_def new_sstable_def)


lemma file_at_wf: "kvimr_wf k \<Longrightarrow> file_wf (zones (allocator k)) (file_at fname k)"
  by (auto simp: file_at_def kvimr_wf_def split: option.splits)

lemma put_file_wf: "kvimr_wf k \<Longrightarrow> file_wf (zones (allocator k)) st \<Longrightarrow> kvimr_wf (put_file fname st k)"
  by (auto simp: kvimr_wf_def put_file_def)

lemma put_file_simps [simp]:
  "allocator (put_file f st k) = allocator k" "s2tmap (put_file f st k) = s2tmap k" "backend (put_file f st k) = backend k"
  "persistence_enabled (put_file f st k) = persistence_enabled k" "configured_zones (put_file f st k) = configured_zones k"
  "kv_dbname (put_file f st k) = kv_dbname k" "metadata_path (put_file f st k) = metadata_path k"
  "kv_files (put_file f st k) = map_put f st (kv_files k)"
  by (simp_all add: put_file_def)

subsection \<open>The allocator under every outcome\<close>



lemma Allocate_keeps:
  assumes "allocator_ok a" "Allocate sid n level largest a = (s, segs, a')"
  shows "allocator_ok a'" "zones a' = zones a" "distinct segs" "\<forall>seg \<in> set segs. valid_segment (zones a) seg"
    "s \<noteq> OK \<Longrightarrow> segs = []"
proof -
  show "allocator_ok a'" by (rule Allocate_ok [OF assms])
  have "zones a' = zones a \<and> distinct segs \<and> (\<forall>seg \<in> set segs. valid_segment (zones a) seg) \<and> (s \<noteq> OK \<longrightarrow> segs = [])"
  proof (cases rule: Allocate_cases [of sid n level largest a])
    case (granted ts a1)
    then have g: "gave sid ts a a'" "segs = map segment_of ts" "s = OK" using assms(2) by auto
    have d: "distinct ts" "zones a' = zones a" using g(1) by (simp_all add: gave_def)
    have v: "snd t < TrackCount (zones a)" if "t \<in> set ts" for t
      using gave_owner(3) [OF g(1) that] track_set_ok [OF assms(1)] by simp
    have "distinct segs" unfolding g(2) distinct_map using d(1) inj_segment_of inj_on_subset by blast
    then show ?thesis using d g(2,3) v by (auto intro: valid_segment_of)
  qed (use assms in auto)
  then show "zones a' = zones a" "distinct segs" "\<forall>seg \<in> set segs. valid_segment (zones a) seg" "s \<noteq> OK \<Longrightarrow> segs = []"
    by simp_all
qed

subsection \<open>The operations\<close>

lemma ensure_tracks_keeps:
  assumes "kvimr_wf k" "file_wf (zones (allocator k)) st" "ensure_tracks st k = (s, st', k')"
  shows "kvimr_wf k'" "file_wf (zones (allocator k')) st'" "kv_files k' = kv_files k" "backend k' = backend k"
    "persistence_enabled k' = persistence_enabled k"
proof -
  have "kvimr_wf k' \<and> file_wf (zones (allocator k')) st' \<and> kv_files k' = kv_files k \<and> backend k' = backend k \<and>
      persistence_enabled k' = persistence_enabled k"
  proof (cases "sst_tracks st = []")
    case True
    obtain s1 segs a where al: "Allocate (file_number st) (length (sst_data st)) (sst_level st) (effective_largest_level st) (allocator k) =
        (s1, segs, a)" by (metis prod_cases3)
    have ok: "allocator_ok (allocator k)" using assms(1) by (simp add: kvimr_wf_def)
    note k = Allocate_keeps [OF ok al]
    show ?thesis using assms k True al
      by (auto simp: ensure_tracks_def kvimr_wf_def file_wf_def split: Status.splits)
  qed (use assms in \<open>simp add: ensure_tracks_def\<close>)
  then show "kvimr_wf k'" "file_wf (zones (allocator k')) st'" "kv_files k' = kv_files k" "backend k' = backend k"
    "persistence_enabled k' = persistence_enabled k" by simp_all
qed

lemma ApplyPending_frame:
  assumes "ApplyPendingUpdatesLocked st k w = (r, st', k', w')"
  shows "\<exists>b c. st' = st\<lparr>merged_buffers := b\<rparr> \<and> k' = k\<lparr>rmw_counters := c\<rparr>"
proof (cases "length (sst_data st) > sum_list (map segment_capacity (sst_tracks st))")
  case True
  then have "st' = st" "k' = k" using assms by (simp_all add: ApplyPendingUpdatesLocked_def)
  then show ?thesis by (intro exI [of _ "merged_buffers st"] exI [of _ "rmw_counters k"]) simp
next
  case False
  obtain s1 x where "apply_updates (backend k) (rmw_mode k) (sst_data st) (sst_tracks st) (pending_updates st)
      \<lparr>rs_buffers = merged_buffers st, rs_counters = rmw_counters k, rs_world = w\<rparr> = (s1, x)" by fastforce
  then show ?thesis using assms False
    by (cases s1) (auto simp: ApplyPendingUpdatesLocked_def split: prod.splits if_splits)
qed

lemma wf_frame:
  "kvimr_wf (k\<lparr>rmw_counters := c\<rparr>) = kvimr_wf k" "kvimr_wf (k\<lparr>rmw_mode := m\<rparr>) = kvimr_wf k"
  "file_wf z (st\<lparr>merged_buffers := b\<rparr>) = file_wf z st" "file_wf z (st\<lparr>synced := v\<rparr>) = file_wf z st"
  by (simp_all add: kvimr_wf_def file_wf_def)


lemma consistent_append: "consistent dat u \<Longrightarrow> consistent (dat @ tl_bytes) u"
  by (auto simp: consistent_def substr_def upd_end_def)

lemma kvwrite_wf: "kvimr_wf k \<Longrightarrow> kvimr_wf (snd (kvwrite fname dat k))"
proof -
  assume k: "kvimr_wf k"
  have "file_wf (zones (allocator k)) (file_at fname k)" by (rule file_at_wf [OF k])
  moreover have "consistent (xs @ dat) \<lparr>upd_offset = length xs, upd_data = dat\<rparr>" if "dat \<noteq> []" for xs
    using that by (simp add: consistent_def upd_end_def substr_def)
  ultimately show ?thesis unfolding kvwrite_def Let_def
    by (auto intro!: put_file_wf [OF k] simp: file_wf_def list_all_iff consistent_append)
qed

lemma RegisterSSTable_wf: "kvimr_wf k \<Longrightarrow> kvimr_wf (RegisterSSTable fname number level largest k)"
proof -
  assume k: "kvimr_wf k"
  let ?st = "(file_at fname k)\<lparr>file_number := number, sst_level := level, effective_largest_level := largest\<rparr>"
  have "file_wf (zones (allocator k)) ?st" using file_at_wf [OF k, of fname] by (simp add: file_wf_def)
  then have "kvimr_wf (put_file fname ?st k)" by (rule put_file_wf [OF k])
  then show ?thesis by (auto simp: RegisterSSTable_def Let_def kvimr_wf_def split: option.splits)
qed

lemma BeginWrite_wf: "kvimr_wf k \<Longrightarrow> kvimr_wf (BeginWrite fname k)"
  by (auto simp: BeginWrite_def Let_def kvimr_wf_def put_file_def file_wf_def Release_ok split: option.splits)




lemma drop_file_wf: "kvimr_wf k \<Longrightarrow> kvimr_wf (drop_file fname number k)"
  by (auto simp: drop_file_def kvimr_wf_def Release_ok split: if_splits)






text \<open>One public call.  Each call holds \<open>mutex_\<close>, so an execution is a sequence of calls.\<close>

inductive kvimr_step :: "KVIMR \<times> os_world \<Rightarrow> KVIMR \<times> os_world \<Rightarrow> bool" where
  register: "kvimr_step (k, w) (RegisterSSTable fname number level largest k, w)"
| begin_write: "kvimr_step (k, w) (BeginWrite fname k, w)"
| kv_write: "kvimr_step (k, w) (snd (kvwrite fname dat k), w)"
| kv_sync: "kvsync fname k w = (s, k', w') \<Longrightarrow> kvimr_step (k, w) (k', w')"
| kv_unlink: "kvunlink fname k w = (s, k', w') \<Longrightarrow> kvimr_step (k, w) (k', w')"
| configure: "kvimr_step (k, w) (ConfigureTrackAllocator z k, w)"
| initialize: "InitializePersistence dbname z path k w = (s, k', w') \<Longrightarrow> kvimr_step (k, w) (k', w')"
| reset_counters: "kvimr_step (k, w) (ResetRMWCounters k, w)"
| set_mode: "kvimr_step (k, w) (SetRMWMode mode k, w)"

inductive_cases kvimr_stepE [elim]: "kvimr_step x y"




section \<open>Payloads on the device\<close>


lemma round_up_fits:
  fixes chunk cap :: nat
  assumes "chunk \<le> cap" "512 dvd cap"
  shows "chunk \<le> (chunk + 511) div 512 * 512" "(chunk + 511) div 512 * 512 \<le> cap"
proof -
  obtain k where k: "cap = 512 * k" using assms(2) by blast
  then have "chunk + 511 < (k + 1) * 512" using assms(1) by simp
  then have "(chunk + 511) div 512 < k + 1" by (rule less_mult_imp_div_less)
  then show "(chunk + 511) div 512 * 512 \<le> cap" using k by simp
  show "chunk \<le> (chunk + 511) div 512 * 512"
    using div_mult_mod_eq [of "chunk + 511" 512] mod_less_divisor [of 512 "chunk + 511"] by linarith
qed






section \<open>Loading a snapshot\<close>


text \<open>The tracks of a file, and files whose tracks are still free in the allocator.\<close>

definition tracks_of :: "SSTableState \<Rightarrow> (KVIMRTrackType \<times> nat) set" where
  "tracks_of st = track_of ` set (sst_tracks st)"




lemma map_put_twice: "map_put f v (map_put f u m) = map_put f v m"
  by (induction m) auto

lemma distinct_tracks: "file_wf z st \<Longrightarrow> distinct (map track_of (sst_tracks st))"
  unfolding file_wf_def distinct_map by (metis (no_types, lifting) inj_onI valid_segment_def)





subsection \<open>Reading the snapshot file\<close>



lemma sys_close_world: "os_devices (sys_close w) = os_devices w" "os_files (sys_close w) = os_files w"
  "os_script w = [] \<Longrightarrow> os_script (sys_close w) = []"
  using sys_simple_world [of w "fst (sys_simple w)" "snd (sys_simple w)"] by (simp_all add: sys_simple_def next_event_def)





subsection \<open>Writing the snapshot file\<close>

lemma sys_append_effect:
  assumes "sys_append path bs w = (r, w')" "os_files w path = Some c"
  shows "os_devices w' = os_devices w" "r = Inl e \<Longrightarrow> os_files w' = os_files w"
    "r = Inr n \<Longrightarrow> n \<le> length bs \<and> os_files w' = (os_files w)(path \<mapsto> c @ take n bs)"
proof -
  obtain e1 w1 where e: "next_event w = (e1, w1)" by fastforce
  note world = next_event_world [OF e]
  show "os_devices w' = os_devices w" "r = Inl e \<Longrightarrow> os_files w' = os_files w"
    "r = Inr n \<Longrightarrow> n \<le> length bs \<and> os_files w' = (os_files w)(path \<mapsto> c @ take n bs)"
    using assms world event_limit_le [of e1 "length bs"] by (auto simp: sys_append_def e Let_def split: sys_event.splits)
qed

lemma write_meta_OK:
  "os_files w temp = Some (take written bs) \<Longrightarrow> written \<le> length bs \<Longrightarrow> write_meta temp written bs w = (OK, w') \<Longrightarrow>
     os_files w' temp = Some bs \<and> os_devices w' = os_devices w"
proof (induction temp written bs w rule: write_meta.induct)
  case (1 temp written bs w)
  show ?case
  proof (cases "written < length bs")
    case True
    obtain r w1 where a: "sys_append temp (drop written bs) w = (r, w1)" by fastforce
    note A = sys_append_effect [OF a "1.prems"(1)]
    show ?thesis
    proof (cases r)
      case (Inl e)
      have "e = EINTR" using "1.prems"(3) True a Inl by (subst (asm) write_meta.simps) (simp split: if_splits)
      then have "write_meta temp written bs w1 = (OK, w')" using "1.prems"(3) True a Inl by (subst (asm) write_meta.simps) simp
      moreover have "os_files w1 temp = Some (take written bs)" using A(2) [OF Inl] "1.prems"(1) by simp
      ultimately show ?thesis using "1.IH"(1) [OF True a [symmetric] Inl \<open>e = EINTR\<close>] "1.prems"(2) A(1) by simp
    next
      case (Inr n)
      note An = A(3) [OF Inr]
      have n: "n \<noteq> 0" using "1.prems"(3) True a Inr by (subst (asm) write_meta.simps) (simp split: if_splits)
      then have run: "write_meta temp (written + n) bs w1 = (OK, w')" using "1.prems"(3) True a Inr by (subst (asm) write_meta.simps) simp
      have "os_files w1 temp = Some (take (written + n) bs)" using An by (simp add: take_add)
      moreover have "written + n \<le> length bs" using conjunct1 [OF An] True by simp
      ultimately show ?thesis using "1.IH"(2) [OF True a [symmetric] Inr n] run A(1) by simp
    qed
  next
    case False
    then have "w' = w" "take written bs = bs" using "1.prems"(3) by (auto simp: write_meta.simps)
    then show ?thesis using "1.prems"(1) by simp
  qed
qed

lemma sync_directory_world: "sync_directory w = (s, w') \<Longrightarrow> os_devices w' = os_devices w \<and> os_files w' = os_files w"
proof -
  assume d: "sync_directory w = (s, w')"
  obtain r1 w1 where 1: "sys_simple w = (r1, w1)" by fastforce
  obtain r2 w2 where 2: "sys_simple w1 = (r2, w2)" by fastforce
  note W = sys_simple_world [OF 1] sys_simple_world [OF 2] sys_close_world(1,2) [of w2]
  show ?thesis using d 1 2 W by (cases r1; cases r2) (auto simp: sync_directory_def split: if_splits)
qed

lemma PersistSnapshot_OK:
  assumes "PersistSnapshotLocked k w = (OK, w')"
  shows "os_files w' (metadata_path k) = Some (snapshot_bytes k)" "os_devices w' = os_devices w"
proof -
  let ?temp = "metadata_path k @ ''.tmp''" and ?bs = "snapshot_bytes k"
  obtain r1 w1 where 1: "sys_create ?temp w = (r1, w1)" by fastforce
  have r1: "r1 = Inr ()" using assms 1 by (cases r1) (simp_all add: PersistSnapshotLocked_def)
  have w1: "os_files w1 ?temp = Some (take 0 ?bs)" "os_devices w1 = os_devices w"
    using 1 r1 sys_simple_world [of w "fst (sys_simple w)" "snd (sys_simple w)"] by (auto simp: sys_create_def split: prod.splits sum.splits)
  obtain s2 w2 where 2: "write_meta ?temp 0 ?bs w1 = (s2, w2)" by fastforce
  have s2: "s2 = OK" using assms 1 r1 2 by (cases s2) (simp_all add: PersistSnapshotLocked_def Let_def)
  note w2 = write_meta_OK [OF w1(1) le0 2 [unfolded s2]]
  obtain r3 w3 where 3: "sys_simple w2 = (r3, w3)" by fastforce
  obtain r4 w4 where 4: "sys_simple w3 = (r4, w4)" by fastforce
  obtain r5 w5 where 5: "sys_rename ?temp (metadata_path k) w4 = (r5, w5)" by fastforce
  have r3: "r3 = Inr ()" using assms 1 r1 2 s2 3 by (cases r3) (simp_all add: PersistSnapshotLocked_def Let_def)
  have r4: "r4 = Inr ()" using assms 1 r1 2 s2 3 r3 4 by (cases r4) (simp_all add: PersistSnapshotLocked_def Let_def)
  have r5: "r5 = Inr ()" "sync_directory w5 = (OK, w')"
    using assms 1 r1 2 s2 3 r3 4 r4 5 by (cases r5; simp add: PersistSnapshotLocked_def Let_def)+
  have w4: "os_files w4 ?temp = Some ?bs" "os_devices w4 = os_devices w"
    using sys_simple_world [OF 3] sys_simple_world [OF 4] w1(2) w2 by simp_all
  obtain r6 w6 where 6: "sys_simple w4 = (r6, w6)" by fastforce
  have "os_files w5 (metadata_path k) = Some ?bs \<and> os_devices w5 = os_devices w"
    using 5 r5(1) 6 sys_simple_world [OF 6] w4 by (cases r6) (auto simp: sys_rename_def)
  then show "os_files w' (metadata_path k) = Some ?bs" "os_devices w' = os_devices w"
    using sync_directory_world [OF r5(2)] by simp_all
qed

section \<open>The invariant of the payload\<close>

text \<open>Every byte of a file is queued for writing or already on the file's tracks.\<close>

definition covered :: "PendingUpdate list \<Rightarrow> nat \<Rightarrow> bool" where
  "covered us p \<longleftrightarrow> (\<exists>u \<in> set us. upd_offset u \<le> p \<and> p < upd_end u)"

definition file_named :: "string \<Rightarrow> string \<times> SSTableState \<Rightarrow> bool" where
  "file_named dbname entry \<longleftrightarrow> under_db dbname (fst entry) \<and> length (relative_name dbname (fst entry)) < 2 ^ 32 \<and>
     - (2 ^ 31) \<le> sst_level (snd entry) \<and> sst_level (snd entry) < 2 ^ 31 \<and>
     - (2 ^ 31) \<le> effective_largest_level (snd entry) \<and> effective_largest_level (snd entry) < 2 ^ 31 \<and>
     length (sst_data (snd entry)) < 2 ^ 64"

definition file_inv :: "KVIMRTrackAllocator \<Rightarrow> (nat \<Rightarrow> char) \<Rightarrow> SSTableState \<Rightarrow> bool" where
  "file_inv a c st \<longleftrightarrow> (sst_tracks st \<noteq> [] \<longrightarrow> file_number st \<noteq> 0 \<and> tracks_of st \<subseteq> owned a (file_number st)) \<and>
     buf_inv (sst_tracks st) (pending_updates st) (merged_buffers st) c \<and>
     (pending_updates st = [] \<longrightarrow> merged_buffers st = [] \<and> (sst_data st \<noteq> [] \<longrightarrow> length (sst_data st) \<le> sum_list (map segment_bytes (sst_tracks st)))) \<and>
     (\<forall>p < length (sst_data st). covered (pending_updates st) p \<or>
        sst_tracks st \<noteq> [] \<and> (\<forall>i < length (sst_tracks st). \<forall>x \<in> segment_range (sst_tracks st ! i).
           pos_in (sst_tracks st) i x = p \<longrightarrow> c x = sst_data st ! p))"

definition kv_inv :: "KVIMR \<Rightarrow> (nat \<Rightarrow> char) \<Rightarrow> bool" where
  "kv_inv k c \<longleftrightarrow> kvimr_wf k \<and> configured_zones k = zones (allocator k) \<and> zones (allocator k) < 2 ^ 25 \<and>
     length (kv_files k) < 2 ^ 32 \<and>
     (\<forall>f st. map_find (kv_files k) f = Some st \<longrightarrow> file_named (kv_dbname k) (f, st) \<and> file_inv (allocator k) c st) \<and>
     (\<forall>f st g st'. map_find (kv_files k) f = Some st \<longrightarrow> map_find (kv_files k) g = Some st' \<longrightarrow> f \<noteq> g \<longrightarrow>
        file_number st = file_number st' \<longrightarrow> file_number st = 0)"




lemma wf_placed: "file_wf z st \<Longrightarrow> placed (sst_tracks st)"
  unfolding placed_def
proof (intro allI impI)
  fix i j assume w: "file_wf z st" and i: "i < length (sst_tracks st)" "j < length (sst_tracks st)" "i \<noteq> j"
  have v: "sst_tracks st ! i = segment_of (track_of (sst_tracks st ! i))" "sst_tracks st ! j = segment_of (track_of (sst_tracks st ! j))"
    using w i by (auto simp: file_wf_def valid_segment_def)
  have "track_of (sst_tracks st ! i) \<noteq> track_of (sst_tracks st ! j)"
    using distinct_tracks [OF w] i by (auto simp: distinct_conv_nth)
  from segment_range_disjoint [OF this] show "segment_range (sst_tracks st ! i) \<inter> segment_range (sst_tracks st ! j) = {}"
    using v by simp
qed

definition file_area :: "SSTableState \<Rightarrow> nat set" where
  "file_area st = (\<Union>seg \<in> set (sst_tracks st). segment_range seg)"

lemma file_area_nth: "i < length (sst_tracks st) \<Longrightarrow> x \<in> segment_range (sst_tracks st ! i) \<Longrightarrow> x \<in> file_area st"
  by (auto simp: file_area_def)

lemma files_disjoint:
  assumes "kv_inv k c" "map_find (kv_files k) f = Some st" "map_find (kv_files k) g = Some st'" "f \<noteq> g"
  shows "tracks_of st \<inter> tracks_of st' = {}" "file_area st \<inter> file_area st' = {}"
proof -
  have own: "sst_tracks s \<noteq> [] \<longrightarrow> file_number s \<noteq> 0 \<and> tracks_of s \<subseteq> owned (allocator k) (file_number s)"
    "file_wf (zones (allocator k)) s" if "map_find (kv_files k) h = Some s" for h s
    using assms(1) that by (auto simp: kv_inv_def file_inv_def kvimr_wf_def)
  show T: "tracks_of st \<inter> tracks_of st' = {}"
  proof (cases "sst_tracks st = [] \<or> sst_tracks st' = []")
    case False
    then have "file_number st \<noteq> file_number st'" using assms own(1) [OF assms(2)] unfolding kv_inv_def by blast
    from owned_disjoint [OF this] show ?thesis using own(1) [OF assms(2)] own(1) [OF assms(3)] False by blast
  qed (auto simp: tracks_of_def)
  have "segment_range u \<inter> segment_range v = {}" if "u \<in> set (sst_tracks st)" "v \<in> set (sst_tracks st')" for u v
  proof -
    have "track_of u \<noteq> track_of v" using T that by (auto simp: tracks_of_def)
    moreover have "u = segment_of (track_of u)" "v = segment_of (track_of v)"
      using own(2) [OF assms(2)] own(2) [OF assms(3)] that by (auto simp: file_wf_def valid_segment_def)
    ultimately show ?thesis using segment_range_disjoint by metis
  qed
  then show "file_area st \<inter> file_area st' = {}" by (auto simp: file_area_def)
qed


lemma file_inv_frame:
  assumes "file_inv a c st" "\<And>x. x \<in> file_area st \<Longrightarrow> c' x = c x"
    "sst_tracks st \<noteq> [] \<Longrightarrow> owned a' (file_number st) = owned a (file_number st)"
  shows "file_inv a' c' st"
proof -
  have "buf_inv (sst_tracks st) (pending_updates st) (merged_buffers st) c'"
    using assms(1,2) file_area_nth unfolding file_inv_def buf_inv_def bufs_ok_def buffer_ok_def by metis
  moreover have "\<forall>p < length (sst_data st). covered (pending_updates st) p \<or>
        sst_tracks st \<noteq> [] \<and> (\<forall>i < length (sst_tracks st). \<forall>x \<in> segment_range (sst_tracks st ! i).
           pos_in (sst_tracks st) i x = p \<longrightarrow> c' x = sst_data st ! p)"
    using assms(1,2) file_area_nth unfolding file_inv_def by metis
  ultimately show ?thesis using assms(1,3) unfolding file_inv_def by metis
qed



lemma put_file_twice: "put_file f a (put_file f b k) = put_file f a k"
  by (simp add: put_file_def map_put_twice)

text \<open>Replacing the state of one file keeps the invariant when the file keeps its name and number and the
  rest of the device and of the allocator is untouched.\<close>

lemma kv_inv_put:
  assumes "kv_inv k c" "map_find (kv_files k) f = Some st"
    "kvimr_wf (put_file f st' k')" "kv_files k' = kv_files k" "configured_zones k' = configured_zones k" "kv_dbname k' = kv_dbname k"
    "zones (allocator k') = zones (allocator k)" "file_number st' = file_number st" "file_named (kv_dbname k) (f, st')" "file_inv (allocator k') c' st'"
    "\<And>g s. map_find (kv_files k) g = Some s \<Longrightarrow> g \<noteq> f \<Longrightarrow> file_inv (allocator k') c' s"
  shows "kv_inv (put_file f st' k') c'"
proof -
  have len: "length (map_put f st' (kv_files k)) = length (kv_files k)"
  proof -
    have "length (map_put f st' m) = length m" if "map_find m f = Some st" "map_ok m" for m :: "(string, SSTableState) std_map"
      using that by (induction m) (auto simp: map_of_eq_None_iff split: if_splits dest: map_of_SomeD, force dest: map_of_SomeD)
    then show ?thesis using assms(1,2) by (simp add: kv_inv_def kvimr_wf_def)
  qed
  have old: "configured_zones k = zones (allocator k)" "zones (allocator k) < 2 ^ 25" "length (kv_files k) < 2 ^ 32"
    "\<And>g s. map_find (kv_files k) g = Some s \<Longrightarrow> file_named (kv_dbname k) (g, s)"
    "\<And>g s h s'. map_find (kv_files k) g = Some s \<Longrightarrow> map_find (kv_files k) h = Some s' \<Longrightarrow> g \<noteq> h \<Longrightarrow>
        file_number s = file_number s' \<Longrightarrow> file_number s = 0"
    using assms(1) unfolding kv_inv_def by blast+
  have num: "file_number s = 0" if m: "map_find (kv_files (put_file f st' k')) g = Some s" "map_find (kv_files (put_file f st' k')) h = Some s'"
    "g \<noteq> h" "file_number s = file_number s'" for g s h s'
  proof -
    define u where "u = (if g = f then st else s)"
    define v where "v = (if h = f then st else s')"
    have "map_find (kv_files k) g = Some u" "map_find (kv_files k) h = Some v" "file_number u = file_number s" "file_number v = file_number s'"
      using m assms(2,4,8) by (auto simp: u_def v_def split: if_splits)
    then show ?thesis using old(5) [of g u h v] m(3,4) by simp
  qed
  have ent: "file_named (kv_dbname k) (g, s) \<and> file_inv (allocator k') c' s" if "map_find (kv_files (put_file f st' k')) g = Some s" for g s
    using that assms(4,9-11) old(4) by (auto split: if_splits)
  show ?thesis
    unfolding kv_inv_def
  proof (intro conjI)
    show "\<forall>g s. map_find (kv_files (put_file f st' k')) g = Some s \<longrightarrow>
        file_named (kv_dbname (put_file f st' k')) (g, s) \<and> file_inv (allocator (put_file f st' k')) c' s"
      using ent assms(6) by (simp only: put_file_simps) blast
    show "\<forall>g s h s'. map_find (kv_files (put_file f st' k')) g = Some s \<longrightarrow> map_find (kv_files (put_file f st' k')) h = Some s' \<longrightarrow>
        g \<noteq> h \<longrightarrow> file_number s = file_number s' \<longrightarrow> file_number s = 0"
      using num by blast
  qed (use assms(3-7) old(1-3) len in simp_all)
qed

lemma kv_inv_find_put: "kv_inv k c \<Longrightarrow> map_find (kv_files k) f = Some st \<Longrightarrow> put_file f st k = k"
proof -
  assume a: "kv_inv k c" "map_find (kv_files k) f = Some st"
  have "map_put f st x = x" if "map_find x f = Some st" "map_ok x" for x :: "(string, SSTableState) std_map"
    using that by (induction x) (auto split: if_splits dest: map_of_SomeD, force dest: map_of_SomeD)
  then show ?thesis using a by (simp add: put_file_def kv_inv_def kvimr_wf_def)
qed

lemma bufs_ok_Nil: "bufs_ok [] bufs \<Longrightarrow> bufs = []"
proof (rule ccontr)
  assume b: "bufs_ok [] bufs" "bufs \<noteq> []"
  then obtain i bf m where "bufs = (i, bf) # m" by (metis list.exhaust surj_pair)
  then have "map_find bufs i = Some bf" by simp
  then show False using b(1) by (simp add: bufs_ok_def buffer_ok_def)
qed

lemma ensure_tracks_inv:
  assumes inv: "kv_inv k c" and m: "map_find (kv_files k) f = Some st" and ne: "sst_data st \<noteq> []"
    and e: "ensure_tracks st k = (s, st1, k1)"
  shows "kv_inv (put_file f st1 k1) c" "s = OK \<Longrightarrow> sst_tracks st1 \<noteq> []" "\<exists>t. st1 = st\<lparr>sst_tracks := t\<rparr>"
    "\<exists>a t. k1 = k\<lparr>allocator := a, s2tmap := t\<rparr>"
proof -
  have wf: "kvimr_wf k" "file_wf (zones (allocator k)) st" "file_named (kv_dbname k) (f, st)" "file_inv (allocator k) c st"
    "allocator_ok (allocator k)" using inv m unfolding kv_inv_def kvimr_wf_def by blast+
  have put: "put_file f st k = k" by (rule kv_inv_find_put [OF inv m])
  have same: "st = st\<lparr>sst_tracks := sst_tracks st\<rparr>" "k = k\<lparr>allocator := allocator k, s2tmap := s2tmap k\<rparr>" by simp_all
  have "kv_inv (put_file f st1 k1) c \<and> (s = OK \<longrightarrow> sst_tracks st1 \<noteq> []) \<and> (\<exists>t. st1 = st\<lparr>sst_tracks := t\<rparr>) \<and>
      (\<exists>a t. k1 = k\<lparr>allocator := a, s2tmap := t\<rparr>)"
  proof (cases "sst_tracks st = []")
    case False
    then have "st1 = st" "k1 = k" using e by (simp_all add: ensure_tracks_def)
    then show ?thesis using False inv put same by metis
  next
    case True
    show ?thesis
    proof (cases rule: Allocate_cases [of "file_number st" "length (sst_data st)" "sst_level st" "effective_largest_level st" "allocator k"])
      case (granted ts a)
      define st' where "st' = st\<lparr>sst_tracks := map segment_of ts\<rparr>"
      have r: "s = OK" "st1 = st'" "k1 = k\<lparr>allocator := a, s2tmap := map_put (file_number st) (map segment_of ts) (s2tmap k)\<rparr>"
        using e granted(4) True by (simp_all add: ensure_tracks_def st'_def)
      note en = ensure_tracks_keeps [OF wf(1,2) e]
      have own: "owned a (file_number st) = owned (allocator k) (file_number st) \<union> set ts"
        "\<And>x. x \<noteq> 0 \<Longrightarrow> x \<noteq> file_number st \<Longrightarrow> owned a x = owned (allocator k) x" using gave_owned [OF granted(1,5)] by blast+
      have pend: "pending_updates st \<noteq> []" and cov: "\<forall>p < length (sst_data st). covered (pending_updates st) p"
        using wf(4) True ne by (auto simp: file_inv_def covered_def)
      have bufs: "merged_buffers st = []" using wf(4) True bufs_ok_Nil by (simp add: file_inv_def buf_inv_def)
      have i1: "file_inv a c st'" unfolding file_inv_def
        using granted(1,6) own(1) pend cov bufs by (auto simp: st'_def tracks_of_def image_image)
      have others: "file_inv a c x" if "map_find (kv_files k) g = Some x" "g \<noteq> f" for g x
      proof (rule file_inv_frame)
        show "file_inv (allocator k) c x" using inv that(1) unfolding kv_inv_def by blast
        show "owned a (file_number x) = owned (allocator k) (file_number x)" if "sst_tracks x \<noteq> []"
        proof (rule own(2))
          show n: "file_number x \<noteq> 0" using \<open>file_inv (allocator k) c x\<close> that by (simp add: file_inv_def)
          show "file_number x \<noteq> file_number st"
            using inv \<open>map_find (kv_files k) g = Some x\<close> m \<open>g \<noteq> f\<close> n unfolding kv_inv_def by blast
        qed
      qed simp
      have "kv_inv (put_file f st' k1) c"
        by (rule kv_inv_put [OF inv m])
          (use put_file_wf [OF en(1,2)] r(2,3) i1 others wf(3) granted(5) in \<open>simp_all add: st'_def file_named_def gave_def\<close>)
      then show ?thesis using r granted(6) by (auto simp: st'_def)
    next
      case invalid
      then have "s \<noteq> OK" "st1 = st" "k1 = k" using e True by (auto simp: ensure_tracks_def)
      then show ?thesis using inv put same by metis
    next
      case nospace
      then have "s \<noteq> OK" "st1 = st" "k1 = k" using e True by (auto simp: ensure_tracks_def)
      then show ?thesis using inv put same by metis
    qed
  qed
  then show "kv_inv (put_file f st1 k1) c" "s = OK \<Longrightarrow> sst_tracks st1 \<noteq> []" "\<exists>t. st1 = st\<lparr>sst_tracks := t\<rparr>"
    "\<exists>a t. k1 = k\<lparr>allocator := a, s2tmap := t\<rparr>" by simp_all
qed

lemma covered_hits:
  assumes "covered us (pos_in tracks i x)" "i < length tracks" "x \<in> segment_range (tracks ! i)"
  shows "hits_some tracks us i x"
proof -
  obtain u where u: "u \<in> set us" "upd_offset u \<le> pos_in tracks i x" "pos_in tracks i x < upd_end u" using assms(1) by (auto simp: covered_def)
  have "upd_end u \<le> (upd_end u + 511) div 512 * 512" using round_up_fits(1) [of "upd_end u" "512 * upd_end u"] by simp
  then have "updated u (tracks ! i) (pos_in tracks i x)"
    using u(2,3) div_times_less_eq_dividend [of "upd_offset u" 512] unfolding updated_def by (auto intro: order_trans less_le_trans)
  then show ?thesis using u(1) assms(2,3) by (auto simp: hits_some_def hits_def)
qed

lemma settles_byte:
  assumes "settles tracks dat (hits_some tracks us) ok c c'" "placed tracks" "i < length tracks" "x \<in> segment_range (tracks ! i)"
    "pos_in tracks i x < length dat"
  shows "c' x = c x \<or> c' x = dat ! pos_in tracks i x" "ok \<Longrightarrow> hits_some tracks us i x \<Longrightarrow> c' x = dat ! pos_in tracks i x"
proof -
  have fb: "file_byte tracks dat i x = dat ! pos_in tracks i x" using assms(5) by (simp add: file_byte_def pad_byte_def)
  have "i' = i" if "hits_some tracks us i' x" for i'
    using that placed_unique [OF assms(2) _ assms(3) _ assms(4)] by (auto simp: hits_some_def hits_def)
  then show "c' x = c x \<or> c' x = dat ! pos_in tracks i x" using assms(1) fb unfolding settles_def by metis
  show "ok \<Longrightarrow> hits_some tracks us i x \<Longrightarrow> c' x = dat ! pos_in tracks i x" using assms(1) fb by (simp add: settles_def)
qed

lemma settles_frame:
  "settles (sst_tracks st) dat (hits_some (sst_tracks st) us) ok c c' \<Longrightarrow> x \<notin> file_area st \<Longrightarrow> c' x = c x"
  using file_area_nth unfolding settles_def hits_some_def hits_def by metis

lemma ApplyPending_nothing:
  assumes "ApplyPendingUpdatesLocked st k w = (r, st', k', w')" "pending_updates st = []"
  shows "merged_buffers st' = merged_buffers st"
  using assms by (auto simp: ApplyPendingUpdatesLocked_def Let_def split: if_splits prod.splits)

lemma apply_inv:
  assumes inv: "kv_inv k (content (backend k) w)" and m: "map_find (kv_files k) f = Some st" and ne: "sst_tracks st \<noteq> []"
    and run: "ApplyPendingUpdatesLocked st k w = (r, st', k', w')"
  shows "kv_inv (put_file f st' k') (content (backend k) w')"
    "r = OK \<Longrightarrow> kv_inv (put_file f (st'\<lparr>pending_updates := [], merged_buffers := []\<rparr>) k') (content (backend k) w')"
proof -
  let ?t = "sst_tracks st" and ?us = "pending_updates st" and ?c = "content (backend k) w" and ?c' = "content (backend k) w'"
  have wf: "kvimr_wf k" "file_wf (zones (allocator k)) st" "file_named (kv_dbname k) (f, st)" "file_inv (allocator k) ?c st"
    using inv m unfolding kv_inv_def kvimr_wf_def by blast+
  have pl: "placed ?t" and cons: "list_all (consistent (sst_data st)) ?us" and bi: "buf_inv ?t ?us (merged_buffers st) ?c"
    using wf_placed [OF wf(2)] wf(2,4) by (simp_all add: file_wf_def file_inv_def)
  note S = ApplyPending_settles [OF run pl cons bi]
  obtain b where st': "st' = st\<lparr>merged_buffers := b\<rparr>" and bi': "buf_inv ?t ?us b ?c'" using S(2,3) by metis
  obtain n where k': "k' = k\<lparr>rmw_counters := n\<rparr>" using S(4) by metis
  have byte: "?c' x = sst_data st ! p" if "i < length ?t" "x \<in> segment_range (?t ! i)" "pos_in ?t i x = p" "p < length (sst_data st)"
    "\<not> covered ?us p \<or> r = OK" for i x p
  proof (cases "covered ?us p")
    case True
    then show ?thesis using settles_byte(2) [OF S(1) pl that(1,2)] covered_hits [of ?us ?t i x] that by simp
  next
    case False
    then have "?c x = sst_data st ! p" using wf(4) that by (auto simp: file_inv_def)
    then show ?thesis using settles_byte(1) [OF S(1) pl that(1,2)] that(3,4) by auto
  qed
  have other: "file_inv (allocator k') ?c' x" if "map_find (kv_files k) g = Some x" "g \<noteq> f" for g x
  proof (rule file_inv_frame)
    show "file_inv (allocator k) ?c x" using inv that(1) unfolding kv_inv_def by blast
    show "?c' y = ?c y" if "y \<in> file_area x" for y
      using settles_frame [OF S(1)] files_disjoint(2) [OF inv m \<open>map_find (kv_files k) g = Some x\<close>] \<open>g \<noteq> f\<close> that by blast
  qed (simp add: k')
  have fr: "kv_files k' = kv_files k" "configured_zones k' = configured_zones k" "kv_dbname k' = kv_dbname k"
    "zones (allocator k') = zones (allocator k)" "allocator k' = allocator k" "kvimr_wf k'" using wf(1) by (simp_all add: k' wf_frame)
  have own: "file_number st \<noteq> 0 \<and> tracks_of st \<subseteq> owned (allocator k) (file_number st)" using wf(4) ne by (simp add: file_inv_def)
  have 1: "file_inv (allocator k') ?c' st'"
    unfolding file_inv_def using bi' own ne wf(4) byte ApplyPending_nothing [OF run]
    by (auto simp: st' fr(5) tracks_of_def file_inv_def)
  show "kv_inv (put_file f st' k') ?c'"
    by (rule kv_inv_put [OF inv m put_file_wf [OF fr(6)] fr(1-4) _ _ 1 other])
      (use wf(2,3) in \<open>simp_all add: st' fr(5) wf_frame file_named_def\<close>)
  show "kv_inv (put_file f (st'\<lparr>pending_updates := [], merged_buffers := []\<rparr>) k') ?c'" if "r = OK"
  proof -
    have 2: "file_inv (allocator k') ?c' (st'\<lparr>pending_updates := [], merged_buffers := []\<rparr>)"
      unfolding file_inv_def using own ne byte that S(5) [OF that] by (auto simp: st' fr(5) tracks_of_def)
    show ?thesis
      by (rule kv_inv_put [OF inv m put_file_wf [OF fr(6)] fr(1-4) _ _ 2 other])
        (use wf(2,3) in \<open>simp_all add: st' fr(5) file_wf_def file_named_def\<close>)
  qed
qed

lemma Sync_effect:
  assumes "Sync b w = (s, w')"
  shows "content b' w' = content b' w" "s = OK \<Longrightarrow> fd b = Some path \<Longrightarrow> os_devices w' path = Some d \<Longrightarrow> dev_durable d = dev_bytes d"
proof -
  have "dev_content p w' = dev_content p w \<and> (s = OK \<longrightarrow> fd b = Some path \<longrightarrow> os_devices w' path = Some d \<longrightarrow> dev_durable d = dev_bytes d)" for p
  proof (cases "fd b")
    case (Some q)
    obtain r w1 where r: "sys_simple w = (r, w1)" by fastforce
    show ?thesis using assms Some r sys_simple_world [OF r]
      by (cases r) (auto simp: Sync_def sys_fdatasync_device_def dev_content_def fun_eq_iff split: option.splits if_splits)
  qed (use assms in \<open>simp add: Sync_def\<close>)
  then show "content b' w' = content b' w" "s = OK \<Longrightarrow> fd b = Some path \<Longrightarrow> os_devices w' path = Some d \<Longrightarrow> dev_durable d = dev_bytes d"
    by (simp_all add: content_def)
qed

lemma ApplyPending_put_file:
  assumes "ApplyPendingUpdatesLocked st k w = (r, st', k', w')"
  shows "ApplyPendingUpdatesLocked st (put_file f x k) w = (r, st', put_file f x k', w')"
proof -
  have f: "rmw_mode (put_file f x k) = rmw_mode k" "rmw_counters (put_file f x k) = rmw_counters k"
    "(put_file f x k)\<lparr>rmw_counters := c\<rparr> = put_file f x (k\<lparr>rmw_counters := c\<rparr>)" for c
    by (simp_all add: put_file_def)
  show ?thesis using assms by (auto simp: ApplyPendingUpdatesLocked_def Let_def f split: if_splits prod.splits Status.splits)
qed

lemma kv_inv_synced:
  assumes "kv_inv (put_file f st k) c"
  shows "kv_inv (put_file f (st\<lparr>synced := v\<rparr>) k) c"
proof -
  let ?k = "put_file f st k"
  have m: "map_find (kv_files ?k) f = Some st" by simp
  have wf: "kvimr_wf ?k" "file_named (kv_dbname ?k) (f, st)" "file_inv (allocator ?k) c st" "file_wf (zones (allocator ?k)) st"
    "\<And>g s. map_find (kv_files ?k) g = Some s \<Longrightarrow> g \<noteq> f \<Longrightarrow> file_inv (allocator ?k) c s"
    using assms m unfolding kv_inv_def kvimr_wf_def by blast+
  have "file_inv (allocator ?k) c (st\<lparr>synced := v\<rparr>)" "file_named (kv_dbname ?k) (f, st\<lparr>synced := v\<rparr>)"
    using wf(2,3) by (simp_all add: file_inv_def tracks_of_def file_named_def)
  then have "kv_inv (put_file f (st\<lparr>synced := v\<rparr>) ?k) c"
    by (intro kv_inv_put [OF assms m put_file_wf [OF wf(1)]]) (use wf(4,5) in \<open>simp_all add: wf_frame\<close>)
  then show ?thesis by (simp add: put_file_twice)
qed

lemma write_meta_devices: "write_meta temp written bs w = (s, w') \<Longrightarrow> os_devices w' = os_devices w"
proof (induction temp written bs w rule: write_meta.induct)
  case (1 temp written bs w)
  obtain r w1 where a: "sys_append temp (drop written bs) w = (r, w1)" by fastforce
  have w1: "os_devices w1 = os_devices w"
  proof -
    obtain e w2 where e: "next_event w = (e, w2)" by fastforce
    then show ?thesis using a next_event_world [OF e] by (auto simp: sys_append_def Let_def split: sys_event.splits)
  qed
  show ?case
  proof (cases "written < length bs")
    case True
    show ?thesis
    proof (cases r)
      case (Inl e)
      have "write_meta temp written bs w = (if e = EINTR then write_meta temp written bs w1
          else (IOError ''write KVIMR metadata'', sys_close w1))" using True a Inl by (subst write_meta.simps) simp
      then show ?thesis using "1.prems" "1.IH"(1) [OF True a [symmetric] Inl] w1 sys_close_world(1) [of w1] by (simp split: if_splits)
    next
      case (Inr n)
      have "write_meta temp written bs w = (if n = 0 then (IOError ''write KVIMR metadata'', sys_close w1)
          else write_meta temp (written + n) bs w1)" using True a Inr by (subst write_meta.simps) simp
      then show ?thesis using "1.prems" "1.IH"(2) [OF True a [symmetric] Inr] w1 sys_close_world(1) [of w1] by (simp split: if_splits)
    qed
  next
    case False
    then show ?thesis using "1.prems" by (simp add: write_meta.simps)
  qed
qed

lemma PersistSnapshot_devices:
  assumes "PersistSnapshotLocked k w = (s, w')"
  shows "os_devices w' = os_devices w"
proof -
  let ?temp = "metadata_path k @ ''.tmp''"
  obtain r1 w1 where 1: "sys_create ?temp w = (r1, w1)" by fastforce
  obtain s2 w2 where 2: "write_meta ?temp 0 (snapshot_bytes k) w1 = (s2, w2)" by fastforce
  obtain r3 w3 where 3: "sys_simple w2 = (r3, w3)" by fastforce
  obtain r4 w4 where 4: "sys_simple w3 = (r4, w4)" by fastforce
  obtain r5 w5 where 5: "sys_rename ?temp (metadata_path k) w4 = (r5, w5)" by fastforce
  obtain s6 w6 where 6: "sync_directory w5 = (s6, w6)" by fastforce
  obtain r0 w0 where 0: "sys_simple w = (r0, w0)" by fastforce
  obtain r7 w7 where 7: "sys_simple w4 = (r7, w7)" by fastforce
  have d: "os_devices w1 = os_devices w" "os_devices w5 = os_devices w4"
    using 1 0 sys_simple_world [OF 0] 5 7 sys_simple_world [OF 7]
    by (cases r0; cases r7; auto simp: sys_create_def sys_rename_def split: option.splits)+
  have e: "os_devices w2 = os_devices w" "os_devices w3 = os_devices w" "os_devices (sys_close w3) = os_devices w" "os_devices w4 = os_devices w"
    "os_devices w5 = os_devices w" "os_devices w6 = os_devices w"
    using d write_meta_devices [OF 2] sys_simple_world [OF 3] sys_simple_world [OF 4] sync_directory_world [OF 6] sys_close_world(1) [of w3] by simp_all
  have "w' \<in> {w1, w2, sys_close w3, w4, w5, w6}"
  proof (cases "r1 = Inr () \<and> s2 = OK")
    case True
    then show ?thesis using assms 1 2 3 4 5 6 by (cases r3; cases r4; cases r5) (simp_all add: PersistSnapshotLocked_def Let_def)
  next
    case False
    then show ?thesis using assms 1 2 by (cases r1; cases s2) (simp_all add: PersistSnapshotLocked_def Let_def)
  qed
  then show ?thesis using d(1) e by auto
qed

lemma content_devices: "os_devices w' = os_devices w \<Longrightarrow> content b w' = content b w"
  by (simp add: content_def dev_content_def)

section \<open>Synchronisation\<close>

lemma snapshot_put_file:
  assumes "entry_of (kv_dbname k) (f, x) = entry_of (kv_dbname k) (f, y)"
  shows "snapshot_bytes (put_file f x k) = snapshot_bytes (put_file f y k)"
proof -
  let ?e = "PutEntry \<circ> entry_of (kv_dbname k)"
  have "map ?e (map_put f x m) = map ?e (map_put f y m) \<and> length (map_put f x m) = length (map_put f y m)" for m
    by (induction m) (use assms in auto)
  then have "map ?e (map_put f x (kv_files k)) = map ?e (map_put f y (kv_files k))"
    "length (map_put f x (kv_files k)) = length (map_put f y (kv_files k))" by blast+
  then show ?thesis by (simp only: snapshot_bytes_def put_file_simps)
qed

definition same_setup :: "KVIMR \<Rightarrow> KVIMR \<Rightarrow> bool" where
  "same_setup k' k \<longleftrightarrow> backend k' = backend k \<and> kv_dbname k' = kv_dbname k \<and> metadata_path k' = metadata_path k \<and>
     configured_zones k' = configured_zones k \<and> persistence_enabled k' = persistence_enabled k"

text \<open>The device has synchronised everything written to it.\<close>

definition flushed :: "IMRSimBackend \<Rightarrow> os_world \<Rightarrow> bool" where
  "flushed b w \<longleftrightarrow> (\<forall>path d. fd b = Some path \<longrightarrow> os_devices w path = Some d \<longrightarrow> dev_durable d = dev_bytes d)"

text \<open>What a synchronisation of the file \<open>f\<close> leaves behind.\<close>

definition synced_state :: "string \<Rightarrow> KVIMR \<Rightarrow> KVIMR \<Rightarrow> os_world \<Rightarrow> bool" where
  "synced_state f k k' w' \<longleftrightarrow> (\<exists>st. map_find (kv_files k') f = Some st \<and> pending_updates st = []) \<and>
     os_files w' (metadata_path k) = Some (snapshot_bytes k') \<and> flushed (backend k) w'"

lemma Sync_flushed: "Sync b w = (OK, w1) \<Longrightarrow> os_devices w2 = os_devices w1 \<Longrightarrow> flushed b w2"
  using Sync_effect(2) [of b w OK w1] by (auto simp: flushed_def)

lemma kvsync_empty:
  assumes inv: "kv_inv k (content (backend k) w)" and m: "map_find (kv_files k) f = Some st"
    and empty: "sst_data st = [] \<and> pending_updates st = []" and run: "kvsync f k w = (s, k', w')"
  shows "kv_inv k' (content (backend k) w') \<and> same_setup k' k \<and> (\<exists>st'. k' = put_file f st' k) \<and>
    (s = OK \<and> persistence_enabled k \<longrightarrow> synced_state f k k' w')"
proof -
  have K: "kv_inv (put_file f (st\<lparr>synced := v\<rparr>) k) (content (backend k) w)" for v
    by (rule kv_inv_synced) (use inv kv_inv_find_put [OF inv m] in simp)
  define k1 where "k1 = put_file f (st\<lparr>synced := True\<rparr>) k"
  obtain s1 w1 where 1: "Sync (backend k) w = (s1, w1)" by fastforce
  obtain s2 w2 where 2: "PersistSnapshotLocked k1 w1 = (s2, w2)" by fastforce
  note c1 = Sync_effect(1) [OF 1, of "backend k"] and c2 = content_devices [OF PersistSnapshot_devices [OF 2], of "backend k"]
  have eq: "kvsync f k w = (if \<not> persistence_enabled k then (OK, k1, w)
      else case s1 of OK \<Rightarrow> (case s2 of OK \<Rightarrow> (OK, k1, w2) | _ \<Rightarrow> (s2, put_file f (st\<lparr>synced := False\<rparr>) k, w2)) | _ \<Rightarrow> (s1, k1, w1))"
    using m empty 1 2 by (cases s1; cases s2) (simp_all add: kvsync_def Let_def k1_def put_file_twice)
  have set: "same_setup (put_file f x k) k" for x by (simp add: same_setup_def)
  have syn: "synced_state f k k1 w2" if "s1 = OK" "s2 = OK"
    using PersistSnapshot_OK [OF 2 [unfolded that]] Sync_flushed [OF 1 [unfolded that]] empty by (auto simp: synced_state_def k1_def)
  consider "\<not> persistence_enabled k" "s = OK" "k' = k1" "w' = w"
    | "persistence_enabled k" "s1 = OK" "s2 = OK" "s = OK" "k' = k1" "w' = w2"
    | "s \<noteq> OK" "k' = put_file f (st\<lparr>synced := False\<rparr>) k" "w' = w2" | "s \<noteq> OK" "k' = k1" "w' = w1"
    using run eq by (cases s1; cases s2) (auto split: if_splits)
  then show ?thesis using K set syn c1 c2 by cases (auto simp: k1_def)
qed

lemma kvsync_filled:
  assumes inv: "kv_inv k (content (backend k) w)" and m: "map_find (kv_files k) f = Some st"
    and filled: "\<not> (sst_data st = [] \<and> pending_updates st = [])" and run: "kvsync f k w = (s, k', w')"
  shows "kv_inv k' (content (backend k) w') \<and> same_setup k' k \<and> (\<exists>st' kx. k' = put_file f st' kx \<and> kv_files kx = kv_files k) \<and>
    (s = OK \<and> persistence_enabled k \<longrightarrow> synced_state f k k' w')"
proof -
  note eq = kvsync_def [of f k w, unfolded m option.case if_not_P [OF filled]]
  have "file_wf (zones (allocator k)) st" using inv m unfolding kv_inv_def kvimr_wf_def by blast
  then have ne: "sst_data st \<noteq> []" using filled by (cases "pending_updates st") (auto simp: file_wf_def consistent_def upd_end_def)
  obtain s1 st1 k1 where e: "ensure_tracks st k = (s1, st1, k1)" by (metis prod_cases3)
  note E = ensure_tracks_inv [OF inv m ne e]
  obtain a t where k1: "k1 = k\<lparr>allocator := a, s2tmap := t\<rparr>" using E(4) by blast
  have set1: "same_setup (put_file f x k1) k" "kv_files k1 = kv_files k" for x by (simp_all add: same_setup_def k1)
  have p1: "persistence_enabled k1 = persistence_enabled k" "backend k1 = backend k" by (simp_all add: k1)
  show ?thesis
  proof (cases "s1 = OK")
    case False
    then have "s = s1" "k' = put_file f st1 k1" "w' = w" using run e by (cases s1; simp add: eq)+
    then show ?thesis using False E(1) set1 by auto
  next
    case OK1: True
    obtain s2 st2 k2 w2 where p: "ApplyPendingUpdatesLocked st1 k1 w = (s2, st2, k2, w2)" by (metis prod_cases4)
    have pp: "PersistPayloadLocked st1 k1 w = (s2, st2, k2, w2)"
      using p E(2) [OF OK1] by (simp add: PersistPayloadLocked_def ensure_tracks_def)
    have m1: "map_find (kv_files (put_file f st1 k1)) f = Some st1" by simp
    have inv1: "kv_inv (put_file f st1 k1) (content (backend (put_file f st1 k1)) w)" using E(1) by (simp add: k1)
    note A = apply_inv [OF inv1 m1 E(2) [OF OK1] ApplyPending_put_file [OF p], unfolded put_file_twice put_file_simps p1(2)]
    obtain b n where k2: "k2 = k1\<lparr>rmw_counters := n\<rparr>" "st2 = st1\<lparr>merged_buffers := b\<rparr>" using ApplyPending_frame [OF p] by blast
    have set2: "same_setup (put_file f x k2) k" "kv_files k2 = kv_files k" "backend k2 = backend k" for x
      by (simp_all add: same_setup_def k2 k1)
    show ?thesis
    proof (cases "persistence_enabled k")
      case False
      then have "k' = put_file f (st1\<lparr>synced := True\<rparr>) k1" "w' = w" using run e OK1 p1 by (simp_all add: eq)
      then show ?thesis using False set1 kv_inv_synced [OF E(1)] by auto
    next
      case pe: True
      obtain s3 w3 where 3: "Sync (backend k2) w2 = (s3, w3)" by fastforce
      define k3 where "k3 = put_file f (st2\<lparr>synced := True\<rparr>) k2"
      obtain s4 w4 where 4: "PersistSnapshotLocked k3 w3 = (s4, w4)" by fastforce
      note c3 = Sync_effect(1) [OF 3, of "backend k"] and c4 = content_devices [OF PersistSnapshot_devices [OF 4], of "backend k"]
      define kd where "kd = put_file f (st2\<lparr>synced := True, pending_updates := [], merged_buffers := []\<rparr>) k2"
      have "kv_inv (put_file f ((st2\<lparr>pending_updates := [], merged_buffers := []\<rparr>)\<lparr>synced := True\<rparr>) k2) (content (backend k) w2)" if "s2 = OK"
        by (rule kv_inv_synced [OF A(2) [OF that]])
      moreover have "(st2\<lparr>pending_updates := [], merged_buffers := []\<rparr>)\<lparr>synced := True\<rparr> =
          st2\<lparr>synced := True, pending_updates := [], merged_buffers := []\<rparr>" by (cases st2) simp
      ultimately have D: "kv_inv kd (content (backend k) w2)" if "s2 = OK" using that by (simp add: kd_def)
      have snap: "snapshot_bytes kd = snapshot_bytes k3" unfolding kd_def k3_def by (rule snapshot_put_file) (simp add: entry_of_def)
      consider "s2 \<noteq> OK" "s = s2" "k' = put_file f st2 k2" "w' = w2" | "s2 = OK" "s3 \<noteq> OK" "s = s3" "k' = put_file f st2 k2" "w' = w3"
        | "s2 = OK" "s3 = OK" "s4 \<noteq> OK" "s = s4" "k' = put_file f (st2\<lparr>synced := False\<rparr>) k2" "w' = w4"
        | "s2 = OK" "s3 = OK" "s4 = OK" "k' = kd" "w' = w4"
      proof -
        have "s2 \<noteq> OK \<Longrightarrow> s = s2 \<and> k' = put_file f st2 k2 \<and> w' = w2" using run e OK1 pe p1(1) pp by (cases s2) (simp_all add: eq)
        moreover have "s2 = OK \<Longrightarrow> s3 \<noteq> OK \<Longrightarrow> s = s3 \<and> k' = put_file f st2 k2 \<and> w' = w3"
          using run e OK1 pe p1(1) pp 3 by (cases s3) (simp_all add: eq)
        moreover have "s2 = OK \<Longrightarrow> s3 = OK \<Longrightarrow> s4 \<noteq> OK \<Longrightarrow> s = s4 \<and> k' = put_file f (st2\<lparr>synced := False\<rparr>) k2 \<and> w' = w4"
          using run e OK1 pe p1(1) pp 3 4 by (cases s4) (simp_all add: eq Let_def k3_def put_file_twice)
        moreover have "s2 = OK \<Longrightarrow> s3 = OK \<Longrightarrow> s4 = OK \<Longrightarrow> k' = kd \<and> w' = w4"
          using run e OK1 pe p1(1) pp 3 4 by (simp add: eq Let_def k3_def put_file_twice kd_def)
        ultimately show thesis using that by blast
      qed
      then show ?thesis
      proof cases
        case 1
        then show ?thesis using A(1) set2 by auto
      next
        case 2
        then show ?thesis using A(1) set2 c3 by auto
      next
        case 3
        then show ?thesis using kv_inv_synced [OF A(1)] set2 c3 c4 by auto
      next
        case 4
        have "metadata_path k3 = metadata_path k" by (simp add: k3_def k2 k1)
        then have "synced_state f k kd w4"
          using PersistSnapshot_OK [OF \<open>PersistSnapshotLocked k3 w3 = (s4, w4)\<close> [unfolded 4(3)]] snap set2(3)
            Sync_flushed [OF \<open>Sync (backend k2) w2 = (s3, w3)\<close> [unfolded 4(2)]] by (auto simp: synced_state_def kd_def)
        then show ?thesis using 4 D c3 c4 set2 by (auto simp: kd_def)
      qed
    qed
  qed
qed

lemma kvsync_inv:
  assumes inv: "kv_inv k (content (backend k) w)" and run: "kvsync f k w = (s, k', w')"
  shows "kv_inv k' (content (backend k) w')" "same_setup k' k" "g \<noteq> f \<Longrightarrow> map_find (kv_files k') g = map_find (kv_files k) g"
    "s = OK \<Longrightarrow> persistence_enabled k \<Longrightarrow> synced_state f k k' w'"
proof -
  have "kv_inv k' (content (backend k) w') \<and> same_setup k' k \<and> (\<forall>g. g \<noteq> f \<longrightarrow> map_find (kv_files k') g = map_find (kv_files k) g) \<and>
    (s = OK \<and> persistence_enabled k \<longrightarrow> synced_state f k k' w')"
  proof (cases "map_find (kv_files k) f")
    case None
    then show ?thesis using run inv by (auto simp: kvsync_def same_setup_def)
  next
    case (Some st)
    show ?thesis
    proof (cases "sst_data st = [] \<and> pending_updates st = []")
      case True
      show ?thesis using kvsync_empty [OF inv Some True run] by auto
    next
      case False
      show ?thesis using kvsync_filled [OF inv Some False run] by auto
    qed
  qed
  then show "kv_inv k' (content (backend k) w')" "same_setup k' k" "g \<noteq> f \<Longrightarrow> map_find (kv_files k') g = map_find (kv_files k) g"
    "s = OK \<Longrightarrow> persistence_enabled k \<Longrightarrow> synced_state f k k' w'" by blast+
qed

section \<open>Restart\<close>





lemma wf_fits_device:
  assumes "file_wf z st" "z * kZoneSectors * 512 \<le> n"
  shows "fits_device n (sst_tracks st)"
  unfolding fits_device_def
proof
  fix seg assume seg: "seg \<in> set (sst_tracks st)"
  then have v: "valid_segment z seg" using assms(1) by (simp add: file_wf_def)
  then have s: "seg = SegmentAt (seg_type seg) (seg_index seg)" "seg_index seg < TrackCount z"
    by (auto simp: valid_segment_def segment_of_def track_of_def)
  have pos: "0 < segment_bytes seg" using v by (auto simp: valid_segment_iff segment_bytes_def geometry_defs)
  then have "segment_base seg + segment_bytes seg - 1 \<in> segment_range seg" by (auto simp: segment_range_def)
  then have "segment_base seg + segment_bytes seg - 1 < z * kZoneSectors * 512"
    using segment_range_bound [OF s(2), of _ "seg_type seg"] s(1) by simp
  then show "segment_base seg + segment_bytes seg \<le> n" using assms(2) pos by simp
qed


section \<open>Conforming calls\<close>

text \<open>Replacing or adding a file by a call that changes neither the device nor the other files.\<close>

lemma kv_inv_store:
  assumes "kv_inv k c" "kvimr_wf (put_file f st' k)" "SSTableCount k + 1 < 2 ^ 32" "file_named (kv_dbname k) (f, st')"
    "file_inv (allocator k) c st'"
    "\<forall>g s. map_find (kv_files k) g = Some s \<longrightarrow> g \<noteq> f \<longrightarrow> file_number s = file_number st' \<longrightarrow> file_number st' = 0"
  shows "kv_inv (put_file f st' k) c"
proof -
  have "length (map_put f st' m) \<le> length m + 1" for m :: "(string, SSTableState) std_map" by (induction m) auto
  then have len: "length (map_put f st' (kv_files k)) < 2 ^ 32" using assms(3) le_less_trans unfolding SSTableCount_def by blast
  have old: "configured_zones k = zones (allocator k)" "zones (allocator k) < 2 ^ 25"
    "\<And>g s. map_find (kv_files k) g = Some s \<Longrightarrow> file_named (kv_dbname k) (g, s) \<and> file_inv (allocator k) c s"
    "\<And>g s h s'. map_find (kv_files k) g = Some s \<Longrightarrow> map_find (kv_files k) h = Some s' \<Longrightarrow> g \<noteq> h \<Longrightarrow>
        file_number s = file_number s' \<Longrightarrow> file_number s = 0"
    using assms(1) unfolding kv_inv_def by blast+
  show ?thesis
    unfolding kv_inv_def
  proof (intro conjI)
    show "\<forall>g s. map_find (kv_files (put_file f st' k)) g = Some s \<longrightarrow>
        file_named (kv_dbname (put_file f st' k)) (g, s) \<and> file_inv (allocator (put_file f st' k)) c s"
      using old(3) assms(4,5) by auto
    show "\<forall>g s h s'. map_find (kv_files (put_file f st' k)) g = Some s \<longrightarrow> map_find (kv_files (put_file f st' k)) h = Some s' \<longrightarrow>
        g \<noteq> h \<longrightarrow> file_number s = file_number s' \<longrightarrow> file_number s = 0"
      using old(4) assms(6) by (auto split: if_splits)
  qed (use assms(2) old(1,2) len in simp_all)
qed

lemma file_at_inv:
  assumes "kv_inv k c"
  shows "file_inv (allocator k) c (file_at f k)" "file_wf (zones (allocator k)) (file_at f k)" "kvimr_wf k"
    "g \<noteq> f \<Longrightarrow> map_find (kv_files k) g = Some s \<Longrightarrow> file_number s = file_number (file_at f k) \<Longrightarrow> file_number s = 0"
proof -
  have n: "file_inv (allocator k) c new_sstable" by (simp add: file_inv_def new_sstable_def)
  have "file_inv (allocator k) c (file_at f k) \<and> kvimr_wf k"
    using assms n unfolding kv_inv_def file_at_def by (auto split: option.splits)
  then show "file_inv (allocator k) c (file_at f k)" and w: "kvimr_wf k" by blast+
  show "file_wf (zones (allocator k)) (file_at f k)" by (rule file_at_wf [OF w])
  show "g \<noteq> f \<Longrightarrow> map_find (kv_files k) g = Some s \<Longrightarrow> file_number s = file_number (file_at f k) \<Longrightarrow> file_number s = 0"
    using assms unfolding kv_inv_def file_at_def by (cases "map_find (kv_files k) f") (auto simp: new_sstable_def)
qed

lemma buf_inv_mono: "buf_inv tracks us bufs c \<Longrightarrow> set us \<subseteq> set us' \<Longrightarrow> buf_inv tracks us' bufs c"
  unfolding buf_inv_def hits_some_def by (meson subsetD)

lemma kvwrite_inv:
  assumes "kv_inv k c" "SSTableCount k + 1 < 2 ^ 32" "file_named (kv_dbname k) (f, (file_at f k)\<lparr>sst_data := sst_data (file_at f k) @ dat\<rparr>)"
  shows "kv_inv (snd (kvwrite f dat k)) c"
proof -
  note F = file_at_inv(1,2) [OF assms(1), of f] file_at_inv(3) [OF assms(1)] file_at_inv(4) [OF assms(1), where f = f]
  let ?st = "file_at f k"
  define us where "us = pending_updates ?st @ (if dat = [] then [] else [\<lparr>upd_offset = length (sst_data ?st), upd_data = dat\<rparr>])"
  define st' where "st' = ?st\<lparr>synced := False, sst_data := sst_data ?st @ dat, pending_updates := us\<rparr>"
  have r: "snd (kvwrite f dat k) = put_file f st' k"
    by (cases ?st) (simp add: kvwrite_def Let_def st'_def us_def)
  have cov: "covered us p" if "covered (pending_updates ?st) p \<or> length (sst_data ?st) \<le> p \<and> p < length (sst_data ?st) + length dat" for p
    using that by (auto simp: covered_def us_def upd_end_def)
  have bi: "buf_inv (sst_tracks ?st) us (merged_buffers ?st) c"
    by (rule buf_inv_mono [of _ "pending_updates ?st"]) (use F(1) in \<open>auto simp: file_inv_def us_def\<close>)
  have i: "file_inv (allocator k) c st'"
    unfolding file_inv_def
  proof (intro conjI)
    show "\<forall>p < length (sst_data st'). covered (pending_updates st') p \<or> sst_tracks st' \<noteq> [] \<and>
        (\<forall>i < length (sst_tracks st'). \<forall>x \<in> segment_range (sst_tracks st' ! i). pos_in (sst_tracks st') i x = p \<longrightarrow> c x = sst_data st' ! p)"
    proof (intro allI impI)
      fix p assume p: "p < length (sst_data st')"
      show "covered (pending_updates st') p \<or> sst_tracks st' \<noteq> [] \<and>
        (\<forall>i < length (sst_tracks st'). \<forall>x \<in> segment_range (sst_tracks st' ! i). pos_in (sst_tracks st') i x = p \<longrightarrow> c x = sst_data st' ! p)"
        using F(1) cov [of p] p by (cases "p < length (sst_data ?st)") (auto simp: st'_def file_inv_def nth_append)
    qed
    show "pending_updates st' = [] \<longrightarrow> merged_buffers st' = [] \<and>
        (sst_data st' \<noteq> [] \<longrightarrow> length (sst_data st') \<le> sum_list (map segment_bytes (sst_tracks st')))"
      using F(1) by (auto simp: st'_def us_def file_inv_def split: if_splits)
  qed (use F(1) bi in \<open>auto simp: st'_def tracks_of_def file_inv_def\<close>)
  have "kvimr_wf (put_file f st' k)" using kvwrite_wf [OF F(3), of f dat] r by simp
  moreover have "file_named (kv_dbname k) (f, st')" using assms(3) by (simp add: st'_def file_named_def)
  ultimately show ?thesis unfolding r using kv_inv_store [OF assms(1) _ assms(2) _ i] F(4) by (simp add: st'_def)
qed

lemma RegisterSSTable_inv:
  assumes "kv_inv k c" "SSTableCount k + 1 < 2 ^ 32"
    "file_named (kv_dbname k) (f, (file_at f k)\<lparr>file_number := n, sst_level := l, effective_largest_level := e\<rparr>)"
    "\<forall>g s. map_find (kv_files k) g = Some s \<longrightarrow> g \<noteq> f \<longrightarrow> file_number s \<noteq> n" "sst_tracks (file_at f k) \<noteq> [] \<longrightarrow> file_number (file_at f k) = n"
  shows "kv_inv (RegisterSSTable f n l e k) c"
proof -
  note F = file_at_inv(1,2) [OF assms(1), of f] file_at_inv(3) [OF assms(1)] file_at_inv(4) [OF assms(1), where f = f]
  let ?st = "(file_at f k)\<lparr>file_number := n, sst_level := l, effective_largest_level := e\<rparr>"
  have "file_inv (allocator k) c ?st" using F(1) assms(5) by (auto simp: file_inv_def tracks_of_def)
  moreover have "kvimr_wf (put_file f ?st k)" by (rule put_file_wf [OF F(3)]) (use F(2) in \<open>simp add: file_wf_def\<close>)
  ultimately have "kv_inv (put_file f ?st k) c" using kv_inv_store [OF assms(1) _ assms(2,3)] assms(4) by simp
  moreover have "kvimr_wf (RegisterSSTable f n l e k)" by (rule RegisterSSTable_wf [OF F(3)])
  ultimately show ?thesis by (auto simp: RegisterSSTable_def Let_def kv_inv_def split: option.splits)
qed

text \<open>Releasing the tracks of one file touches no other file.\<close>

lemma release_others:
  assumes "kv_inv k c" "map_find (kv_files k) f = Some st" "map_find (kv_files k) g = Some s" "g \<noteq> f"
  shows "file_inv (snd (Release (file_number st) (allocator k))) c s"
proof (rule file_inv_frame)
  show i: "file_inv (allocator k) c s" using assms(1,3) unfolding kv_inv_def by blast
  show "owned (snd (Release (file_number st) (allocator k))) (file_number s) = owned (allocator k) (file_number s)" if "sst_tracks s \<noteq> []"
  proof (cases "file_number st = 0")
    case False
    have n: "file_number s \<noteq> 0" using i that by (simp add: file_inv_def)
    then have "file_number s \<noteq> file_number st" using assms unfolding kv_inv_def by metis
    then show ?thesis using Release_owned(2) [OF False] n by blast
  qed simp
qed simp

lemma BeginWrite_inv:
  assumes "kv_inv k c"
  shows "kv_inv (BeginWrite f k) c"
proof (cases "map_find (kv_files k) f")
  case (Some st)
  define k1 where "k1 = (if sst_tracks st \<noteq> [] then k\<lparr>allocator := snd (Release (file_number st) (allocator k)),
     s2tmap := map_erase (file_number st) (s2tmap k)\<rparr> else k)"
  define st' where "st' = st\<lparr>sst_tracks := [], sst_data := [], pending_updates := [], merged_buffers := [], synced := False\<rparr>"
  have r: "BeginWrite f k = put_file f st' k1" using Some by (simp add: BeginWrite_def Let_def k1_def st'_def)
  have wf: "kvimr_wf k" "file_named (kv_dbname k) (f, st)" using assms Some unfolding kv_inv_def by blast+
  have others: "file_inv (allocator k1) c s" if "map_find (kv_files k) g = Some s" "g \<noteq> f" for g s
    using release_others [OF assms Some that] assms that(1) unfolding kv_inv_def k1_def by auto
  show ?thesis unfolding r
  proof (rule kv_inv_put [OF assms Some _ _ _ _ _ _ _ _ others])
    show "kvimr_wf (put_file f st' k1)" using BeginWrite_wf [OF wf(1), of f] r by simp
    show "file_named (kv_dbname k) (f, st')" using wf(2) by (simp add: st'_def file_named_def)
    show "file_inv (allocator k1) c st'" by (simp add: st'_def file_inv_def)
  qed (simp_all add: k1_def st'_def)
qed (use assms in \<open>simp add: BeginWrite_def\<close>)

lemma drop_file_inv:
  assumes "kv_inv k c" "map_find (kv_files k) f = Some st"
  shows "kv_inv (drop_file f (file_number st) k) c"
proof -
  have ok: "map_ok (kv_files k)" "kvimr_wf k" using assms(1) by (simp_all add: kv_inv_def kvimr_wf_def)
  have find: "map_find (kv_files (drop_file f (file_number st) k)) g = (if g = f then None else map_find (kv_files k) g)" for g
    using ok(1) by (simp add: drop_file_def)
  have len: "length (map_erase f m) \<le> length m" for m :: "(string, SSTableState) std_map" by (induction m) auto
  have old: "configured_zones k = zones (allocator k)" "zones (allocator k) < 2 ^ 25" "length (kv_files k) < 2 ^ 32"
    "\<And>g s. map_find (kv_files k) g = Some s \<Longrightarrow> file_named (kv_dbname k) (g, s)"
    "\<And>g s h s'. map_find (kv_files k) g = Some s \<Longrightarrow> map_find (kv_files k) h = Some s' \<Longrightarrow> g \<noteq> h \<Longrightarrow>
        file_number s = file_number s' \<Longrightarrow> file_number s = 0"
    using assms(1) unfolding kv_inv_def by blast+
  show ?thesis
    unfolding kv_inv_def
  proof (intro conjI)
    show "kvimr_wf (drop_file f (file_number st) k)" by (rule drop_file_wf [OF ok(2)])
    show "\<forall>g s. map_find (kv_files (drop_file f (file_number st) k)) g = Some s \<longrightarrow>
        file_named (kv_dbname (drop_file f (file_number st) k)) (g, s) \<and> file_inv (allocator (drop_file f (file_number st) k)) c s"
      unfolding find using old(4) release_others [OF assms] by (simp add: drop_file_def)
    show "\<forall>g s h s'. map_find (kv_files (drop_file f (file_number st) k)) g = Some s \<longrightarrow> map_find (kv_files (drop_file f (file_number st) k)) h = Some s' \<longrightarrow>
        g \<noteq> h \<longrightarrow> file_number s = file_number s' \<longrightarrow> file_number s = 0"
      unfolding find using old(5) by auto
    show "length (kv_files (drop_file f (file_number st) k)) < 2 ^ 32"
      using old(3) len [of "kv_files k"] by (simp add: drop_file_def)
  qed (use old(1,2) in \<open>simp_all add: drop_file_def\<close>)
qed

lemma finish_unlink_run:
  assumes "finish_unlink k w = (s, k', w')"
  shows "k' = k" "content b w' = content b w"
  using assms content_devices [OF PersistSnapshot_devices] by (auto simp: finish_unlink_def split: if_splits prod.splits)

lemma drop_file_setup: "same_setup (drop_file f n k) k"
  by (simp add: same_setup_def drop_file_def)

lemma kvunlink_inv:
  assumes inv: "kv_inv k (content (backend k) w)" and run: "kvunlink f k w = (s, k', w')"
  shows "kv_inv k' (content (backend k) w') \<and> same_setup k' k"
proof (cases "map_find (kv_files k) f")
  case None
  define k1 where "k1 = k\<lparr>s2tmap := map_erase (FileNumber f) (s2tmap k)\<rparr>"
  have "kv_inv k1 (content (backend k) w)" using inv by (simp add: kv_inv_def kvimr_wf_def k1_def)
  moreover have "finish_unlink k1 w = (s, k', w')" using run None by (simp add: kvunlink_def k1_def)
  note finish_unlink_run(1) [OF this] finish_unlink_run(2) [OF this, of "backend k"]
  ultimately show ?thesis by (simp add: k1_def same_setup_def)
next
  case (Some st)
  show ?thesis
  proof (cases "persistence_enabled k \<and> pending_updates st \<noteq> []")
    case False
    have fin: "finish_unlink (drop_file f (file_number st) k) w = (s, k', w')"
      using run unfolding kvunlink_def Some option.case if_not_P [OF False] .
    show ?thesis
      using drop_file_inv [OF inv Some] finish_unlink_run(1) [OF fin] finish_unlink_run(2) [OF fin, of "backend k"] drop_file_setup [of f "file_number st" k] by simp
  next
    case True
    note eq = kvunlink_def [of f k w, unfolded Some option.case if_P [OF True]]
    have "file_wf (zones (allocator k)) st" using inv Some unfolding kv_inv_def kvimr_wf_def by blast
    then have ne: "sst_data st \<noteq> []" using True by (cases "pending_updates st") (auto simp: file_wf_def consistent_def upd_end_def)
    obtain s1 st1 k1 where e: "ensure_tracks st k = (s1, st1, k1)" by (metis prod_cases3)
    note E = ensure_tracks_inv [OF inv Some ne e]
    obtain a t where k1: "k1 = k\<lparr>allocator := a, s2tmap := t\<rparr>" using E(4) by blast
    show ?thesis
    proof (cases "s1 = OK")
      case F: False
      then have "k' = put_file f st1 k1 \<and> w' = w" using run e by (cases s1) (simp_all add: eq PersistPayloadLocked_def)
      then show ?thesis using E(1) by (simp add: same_setup_def k1)
    next
      case OK1: True
      obtain s2 st2 k2 w2 where p: "ApplyPendingUpdatesLocked st1 k1 w = (s2, st2, k2, w2)" by (metis prod_cases4)
      have pp: "PersistPayloadLocked st k w = (s2, st2, k2, w2)" using e OK1 p by (simp add: PersistPayloadLocked_def)
      have m1: "map_find (kv_files (put_file f st1 k1)) f = Some st1" by simp
      have inv1: "kv_inv (put_file f st1 k1) (content (backend (put_file f st1 k1)) w)" using E(1) by (simp add: k1)
      have b1: "backend k1 = backend k" by (simp add: k1)
      note A = apply_inv(1) [OF inv1 m1 E(2) [OF OK1] ApplyPending_put_file [OF p], unfolded put_file_twice put_file_simps b1]
      obtain b n where k2: "k2 = k1\<lparr>rmw_counters := n\<rparr>" "st2 = st1\<lparr>merged_buffers := b\<rparr>" using ApplyPending_frame [OF p] by blast
      have set2: "same_setup (put_file f x k2) k" for x by (simp add: same_setup_def k2 k1)
      have b2: "backend k2 = backend k" by (simp add: k2 k1)
      obtain s3 w3 where 3: "Sync (backend k2) w2 = (s3, w3)" by fastforce
      note c3 = Sync_effect(1) [OF 3, of "backend k"]
      show ?thesis
      proof (cases "s2 = OK \<and> s3 = OK")
        case False
        then have "k' = put_file f st2 k2 \<and> (w' = w2 \<or> w' = w3)" using run pp 3 by (cases s2; cases s3) (simp_all add: eq)
        then show ?thesis using A set2 c3 by auto
      next
        case OK: True
        define k3 where "k3 = drop_file f (file_number st2) (put_file f st2 k2)"
        have fin: "finish_unlink k3 w3 = (s, k', w')" using run pp 3 OK by (simp add: eq k3_def)
        have m2: "map_find (kv_files (put_file f st2 k2)) f = Some st2" by simp
        have "kv_inv k3 (content (backend k) w2)" unfolding k3_def by (rule drop_file_inv [OF A m2])
        moreover have "same_setup k3 k" using set2 [of st2] by (simp add: k3_def same_setup_def drop_file_def)
        ultimately show ?thesis using finish_unlink_run(1) [OF fin] finish_unlink_run(2) [OF fin, of "backend k"] c3 by simp
      qed
    qed
  qed
qed

text \<open>A call that keeps to the protocol of the storage engine: names lie under the database directory,
  no two files share a number, and a file that owns tracks keeps its number.\<close>

inductive kv_call :: "KVIMR \<times> os_world \<Rightarrow> KVIMR \<times> os_world \<Rightarrow> bool" where
  call_register: "\<lbrakk>SSTableCount k + 1 < 2 ^ 32;
     file_named (kv_dbname k) (f, (file_at f k)\<lparr>file_number := n, sst_level := l, effective_largest_level := e\<rparr>);
     \<forall>g s. map_find (kv_files k) g = Some s \<longrightarrow> g \<noteq> f \<longrightarrow> file_number s \<noteq> n;
     sst_tracks (file_at f k) \<noteq> [] \<longrightarrow> file_number (file_at f k) = n\<rbrakk> \<Longrightarrow> kv_call (k, w) (RegisterSSTable f n l e k, w)"
| call_begin: "kv_call (k, w) (BeginWrite f k, w)"
| call_write: "\<lbrakk>SSTableCount k + 1 < 2 ^ 32;
     file_named (kv_dbname k) (f, (file_at f k)\<lparr>sst_data := sst_data (file_at f k) @ dat\<rparr>)\<rbrakk> \<Longrightarrow> kv_call (k, w) (snd (kvwrite f dat k), w)"
| call_sync: "kvsync f k w = (s, k', w') \<Longrightarrow> kv_call (k, w) (k', w')"
| call_unlink: "kvunlink f k w = (s, k', w') \<Longrightarrow> kv_call (k, w) (k', w')"
| call_mode: "kv_call (k, w) (SetRMWMode mode k, w)"
| call_counters: "kv_call (k, w) (ResetRMWCounters k, w)"

lemma same_setup_ops [simp]:
  "same_setup (RegisterSSTable f n l e k) k" "same_setup (BeginWrite f k) k" "same_setup (snd (kvwrite f dat k)) k"
  "same_setup (SetRMWMode mode k) k" "same_setup (ResetRMWCounters k) k" "same_setup k k"
  by (simp_all add: same_setup_def RegisterSSTable_def BeginWrite_def kvwrite_def SetRMWMode_def ResetRMWCounters_def Let_def split: option.splits)

lemma kv_call_inv:
  assumes "kv_call x y" "kv_inv (fst x) (content (backend (fst x)) (snd x))"
  shows "kv_inv (fst y) (content (backend (fst y)) (snd y)) \<and> same_setup (fst y) (fst x)"
proof -
  have "kv_inv (fst y) (content (backend (fst x)) (snd y)) \<and> same_setup (fst y) (fst x)"
    using assms
  proof (induction rule: kv_call.induct)
    case (call_sync f k w s k' w')
    then show ?case using kvsync_inv(1,2) [of k w f s k' w'] by simp
  next
    case (call_unlink f k w s k' w')
    then show ?case using kvunlink_inv [of k w f s k' w'] by simp
  next
    case (call_mode k w mode)
    then show ?case by (simp add: kv_inv_def SetRMWMode_def wf_frame) (simp add: same_setup_def)
  next
    case (call_counters k w)
    then show ?case by (simp add: kv_inv_def ResetRMWCounters_def wf_frame) (simp add: same_setup_def)
  qed (simp_all add: RegisterSSTable_inv BeginWrite_inv kvwrite_inv)
  then show ?thesis by (simp add: same_setup_def)
qed

lemma empty_inv: "\<lbrakk>kv_files k = []; s2tmap k = []; allocator k = Reset z a; configured_zones k = z; z < 2 ^ 25\<rbrakk> \<Longrightarrow> kv_inv k c"
  by (simp add: kv_inv_def kvimr_wf_def)

text \<open>C7. From an empty table, after any sequence of conforming calls and whatever the device did meanwhile,
  every byte of every file is queued for writing or on the file's own tracks, tracks of different files are
  disjoint, and leftover merge buffers agree with the device wherever no update is queued.\<close>

theorem payload_invariant:
  assumes "kv_call\<^sup>*\<^sup>* (k0, w0) (k, w)" "kv_files k0 = []" "s2tmap k0 = []" "allocator k0 = Reset z a"
    "configured_zones k0 = z" "z < 2 ^ 25"
  shows "kv_inv k (content (backend k) w) \<and> same_setup k k0"
proof -
  have "kv_inv (fst y) (content (backend (fst y)) (snd y)) \<and> same_setup (fst y) k0" if "kv_call\<^sup>*\<^sup>* (k0, w0) y" for y
    using that
  proof (induction rule: rtranclp_induct)
    case base
    show ?case using empty_inv [OF assms(2-6)] by simp
  next
    case (step y z)
    then show ?case using kv_call_inv [OF step.hyps(2)] by (auto simp: same_setup_def)
  qed
  from this [OF assms(1)] show ?thesis by simp
qed

section \<open>Synchronisation completes\<close>

text \<open>When the script of answers is exhausted every call succeeds, and it stays exhausted; the device at
  \<open>p\<close> keeps the geometry of \<open>d\<close>.\<close>

definition same_disk :: "device \<Rightarrow> device \<Rightarrow> bool" where
  "same_disk d x \<longleftrightarrow> dev_size x = dev_size d \<and> dev_is_block x = dev_is_block d \<and> dev_block_size x = dev_block_size d"

definition calm :: "string \<Rightarrow> device \<Rightarrow> os_world \<Rightarrow> bool" where
  "calm p d w \<longleftrightarrow> os_script w = [] \<and> (\<exists>x. os_devices w p = Some x \<and> same_disk d x)"

lemma calm_next: "calm p d w \<Longrightarrow> next_event w = (Sys_full, w)"
  by (simp add: next_event_def calm_def)

lemma calm_simple: "calm p d w \<Longrightarrow> sys_simple w = (Inr (), w)"
  by (simp add: sys_simple_def calm_next)

lemma calm_memalign: "calm p d w \<Longrightarrow> sys_memalign w = (True, w)"
  by (simp add: sys_memalign_def calm_def)

lemma calm_pread: "calm p d w \<Longrightarrow> sys_pread path off len w = (r, w') \<Longrightarrow> calm p d w'"
  by (auto simp: sys_pread_def Let_def calm_next split: option.splits)

lemma calm_pwrite:
  assumes "calm p d w" "sys_pwrite path off bs w = (r, w')"
  shows "calm p d w'"
  using assms
  by (auto simp: sys_pwrite_def calm_next [OF assms(1)] Let_def calm_def dev_write_def same_disk_def split: if_splits option.splits)

lemma calm_read_loop: "calm p d w \<Longrightarrow> read_loop path off dn buf w = (s, buf', w') \<Longrightarrow> calm p d w'"
proof (induction path off dn buf w rule: read_loop.induct)
  case (1 path off dn buf w)
  obtain r w1 where r: "sys_pread path (off + dn) (length buf - dn) w = (r, w1)" by fastforce
  have c: "calm p d w1" by (rule calm_pread [OF "1.prems"(1) r])
  show ?case
  proof (cases r)
    case (Inl e)
    then show ?thesis using "1.prems"(2) "1.IH"(1) [OF _ r [symmetric] Inl] r c "1.prems"(1) by (subst (asm) read_loop.simps) (auto split: if_splits)
  next
    case (Inr chunk)
    then show ?thesis using "1.prems"(2) "1.IH"(2) [OF _ r [symmetric] Inr] r c "1.prems"(1) by (subst (asm) read_loop.simps) (auto split: if_splits)
  qed
qed

lemma calm_write_loop: "calm p d w \<Longrightarrow> write_loop path off dn inp w = (s, w') \<Longrightarrow> calm p d w'"
proof (induction path off dn inp w rule: write_loop.induct)
  case (1 path off dn inp w)
  obtain r w1 where r: "sys_pwrite path (off + dn) (drop dn inp) w = (r, w1)" by fastforce
  have c: "calm p d w1" by (rule calm_pwrite [OF "1.prems"(1) r])
  show ?case
  proof (cases r)
    case (Inl e)
    then show ?thesis using "1.prems"(2) "1.IH"(1) [OF _ r [symmetric] Inl] r c "1.prems"(1) by (subst (asm) write_loop.simps) (auto split: if_splits)
  next
    case (Inr n)
    then show ?thesis using "1.prems"(2) "1.IH"(2) [OF _ r [symmetric] Inr] r c "1.prems"(1) by (subst (asm) write_loop.simps) (auto split: if_splits)
  qed
qed

lemma calm_Read: "calm p d w \<Longrightarrow> Read off buf b w = (s, buf', w') \<Longrightarrow> calm p d w'"
  by (cases "ValidateRange off (length buf) b") (auto simp: Read_def calm_memalign dest: calm_read_loop split: if_splits)

lemma calm_Write: "calm p d w \<Longrightarrow> Write off bs b w = (s, w') \<Longrightarrow> calm p d w'"
  by (cases "ValidateRange off (length bs) b") (auto simp: Write_def calm_memalign dest: calm_write_loop split: if_splits)

lemma calm_naive_update:
  assumes "calm p d (rs_world s)" "naive_update b base cap local src s = (r, s')"
  shows "calm p d (rs_world s')"
proof -
  obtain r1 trk w1 where 1: "Read base (replicate cap zero_byte) b (rs_world s) = (r1, trk, w1)" by (metis prod_cases3)
  obtain r2 w2 where 2: "Write base (memcpy_at trk local src) b w1 = (r2, w2)" by fastforce
  have c: "calm p d w1" "calm p d w2" using calm_Read [OF assms(1) 1] calm_Write [OF _ 2] by simp_all
  have "calm p d (rs_world (snd (naive_update b base cap local src s)))"
    by (cases r1; cases r2) (simp_all add: naive_update_def Let_def 1 2 c)
  then show ?thesis using assms(2) by simp
qed

lemma calm_merged_update:
  assumes "calm p d (rs_world s)" "merged_update b i seg base cap local src s = (r, s')"
  shows "calm p d (rs_world s')"
proof (cases "loaded (buffer_at i (rs_buffers s))")
  case True
  then have "rs_world (snd (merged_update b i seg base cap local src s)) = rs_world s" by (simp add: merged_update_def Let_def)
  then show ?thesis using assms by simp
next
  case False
  obtain r1 dat w1 where 1: "Read base (resize (buf_data (buffer_at i (rs_buffers s))) cap) b (rs_world s) = (r1, dat, w1)" by (metis prod_cases3)
  have "calm p d (rs_world (snd (merged_update b i seg base cap local src s)))"
    using 1 calm_Read [OF assms(1) 1] False by (cases r1) (simp_all add: merged_update_def Let_def)
  then show ?thesis using assms(2) by simp
qed

lemma calm_direct_write:
  assumes "calm p d (rs_world s)" "direct_write b base dat start os oe s = (r, s')"
  shows "calm p d (rs_world s')"
proof -
  let ?x = "os div kSectorSize * kSectorSize" and ?y = "(oe + kSectorSize - 1) div kSectorSize * kSectorSize"
  let ?d = "if ?x < length dat then memcpy_at (replicate (?y - ?x) zero_byte) 0 (substr dat ?x (min (?y - ?x) (length dat - ?x)))
     else replicate (?y - ?x) zero_byte"
  obtain r1 w1 where 1: "Write (base + ?x - start) ?d b (rs_world s) = (r1, w1)" by fastforce
  have "calm p d (rs_world (snd (direct_write b base dat start os oe s)))"
    using calm_Write [OF assms(1) 1] 1 unfolding direct_write_def Let_def by (cases r1) simp_all
  then show ?thesis using assms(2) by simp
qed

lemma calm_apply_segment:
  assumes "calm p d (rs_world s)" "apply_segment b mode dat u i seg start s = (r, s')"
  shows "calm p d (rs_world s')"
  using assms(2) calm_naive_update [OF assms(1)] calm_merged_update [OF assms(1)] calm_direct_write [OF assms(1)] assms(1)
  unfolding apply_segment_def Let_def by (simp split: if_splits)

lemma calm_apply_segments:
  "calm p d (rs_world s) \<Longrightarrow> apply_segments b mode dat u i segs start s = (r, s') \<Longrightarrow> calm p d (rs_world s')"
proof (induction segs arbitrary: i start s)
  case (Cons seg segs)
  obtain r1 s1 where 1: "apply_segment b mode dat u i seg start s = (r1, s1)" by fastforce
  show ?case using Cons.prems(2) Cons.IH 1 calm_apply_segment [OF Cons.prems(1) 1] by (cases r1) (auto simp: Let_def split: if_splits)
qed simp

lemma calm_apply_updates:
  "calm p d (rs_world s) \<Longrightarrow> apply_updates b mode dat tracks us s = (r, s') \<Longrightarrow> calm p d (rs_world s')"
proof (induction us arbitrary: s)
  case (Cons u us)
  obtain r1 s1 where 1: "apply_segments b mode dat u 0 tracks 0 s = (r1, s1)" by fastforce
  show ?case using Cons.prems(2) Cons.IH 1 calm_apply_segments [OF Cons.prems(1) 1] by (cases r1) auto
qed simp

lemma calm_flush: "calm p d w \<Longrightarrow> flush_buffers b bufs c w = (r, c', w') \<Longrightarrow> calm p d w'"
proof (induction b bufs c w rule: flush_buffers.induct)
  case (2 b i bf bufs c w)
  obtain r1 w1 where 1: "Write (logical_sector_start (buf_segment bf) * kSectorSize) (buf_data bf) b w = (r1, w1)" by fastforce
  note c1 = calm_Write [OF "2.prems"(1) 1]
  show ?case
  proof (cases "dirty bf")
    case True
    then show ?thesis using "2.prems"(2) "2.IH"(2) [OF _ refl refl 1 [symmetric]] 1 c1 by (cases r1) (auto simp: Let_def)
  next
    case False
    then show ?thesis using "2.prems" "2.IH"(1) by simp
  qed
qed simp

lemma calm_ApplyPending:
  assumes "calm p d w" "ApplyPendingUpdatesLocked st k w = (r, st', k', w')"
  shows "calm p d w'"
proof (cases "length (sst_data st) > sum_list (map segment_capacity (sst_tracks st))")
  case False
  obtain r1 s1 where 1: "apply_updates (backend k) (rmw_mode k) (sst_data st) (sst_tracks st) (pending_updates st)
      \<lparr>rs_buffers = merged_buffers st, rs_counters = rmw_counters k, rs_world = w\<rparr> = (r1, s1)" by fastforce
  obtain r2 c2 w2 where 2: "flush_buffers (backend k) (rs_buffers s1) (rs_counters s1) (rs_world s1) = (r2, c2, w2)" by (metis prod_cases3)
  have c: "calm p d (rs_world s1)" "calm p d w2" using calm_apply_updates [OF _ 1] calm_flush [OF _ 2] assms(1) by simp_all
  show ?thesis using assms(2) 1 2 c False by (cases r1) (auto simp: ApplyPendingUpdatesLocked_def split: if_splits)
qed (use assms in \<open>simp add: ApplyPendingUpdatesLocked_def\<close>)

lemma calm_write_meta:
  assumes "calm p d w"
  shows "\<exists>w'. write_meta temp 0 bs w = (OK, w') \<and> calm p d w' \<and> (bs \<noteq> [] \<longrightarrow> os_files w' temp \<noteq> None)"
proof (cases "bs = []")
  case True
  then show ?thesis using assms by (simp add: write_meta.simps)
next
  case False
  obtain w1 where a: "sys_append temp (drop 0 bs) w = (Inr (length bs), w1)" "calm p d w1" "os_files w1 temp \<noteq> None"
    using assms calm_next [OF assms] by (simp add: sys_append_def event_limit_def Let_def calm_def)
  have "write_meta temp 0 bs w = write_meta temp (length bs) bs w1" using a(1) False by (subst write_meta.simps) simp
  also have "\<dots> = (OK, w1)" by (subst write_meta.simps) simp
  finally show ?thesis using a by blast
qed

lemma calm_PersistSnapshot:
  assumes "calm p d w"
  obtains w' where "PersistSnapshotLocked k w = (OK, w')" "calm p d w'"
proof -
  let ?temp = "metadata_path k @ ''.tmp''"
  define w1 where "w1 = w\<lparr>os_files := (os_files w)(?temp \<mapsto> [])\<rparr>"
  have c1: "calm p d w1" "sys_create ?temp w = (Inr (), w1)" using assms by (simp_all add: w1_def sys_create_def calm_simple) (simp add: calm_def)
  have ne: "snapshot_bytes k \<noteq> []" by (simp add: snapshot_bytes_def PutHeader_def kMetadataMagic_def)
  obtain w2 where w2: "write_meta ?temp 0 (snapshot_bytes k) w1 = (OK, w2)" "calm p d w2" "os_files w2 ?temp \<noteq> None"
    using calm_write_meta [OF c1(1), of ?temp "snapshot_bytes k"] ne by blast
  obtain w3 where w3: "sys_rename ?temp (metadata_path k) w2 = (Inr (), w3)" "calm p d w3"
    using w2(2,3) by (auto simp: sys_rename_def calm_simple) (simp add: calm_def)
  have "PersistSnapshotLocked k w = (OK, w3)"
    using c1(2) w2(1) w3 calm_simple [OF w2(2)] calm_simple [OF w3(2)] by (simp add: PersistSnapshotLocked_def Let_def sync_directory_def)
  then show thesis using that w3(2) by blast
qed

lemma calm_Sync:
  assumes "calm p d w" "fd b = Some path"
  obtains w' where "Sync b w = (OK, w')" "calm p d w'"
proof -
  let ?w = "w\<lparr>os_devices := (os_devices w)(path := map_option (\<lambda>d. d\<lparr>dev_durable := dev_bytes d\<rparr>) (os_devices w path))\<rparr>"
  have "Sync b w = (OK, ?w)" using assms by (auto simp: Sync_def sys_fdatasync_device_def calm_simple fun_eq_iff split: option.splits)
  moreover have "calm p d ?w" using assms(1) by (auto simp: calm_def same_disk_def)
  ultimately show thesis by (rule that)
qed

lemma ensure_tracks_progress:
  assumes e: "ensure_tracks st k = (s1, st1, k1)" and ne: "sst_data st \<noteq> []"
    and room: "sst_tracks st = [] \<longrightarrow> file_number st \<noteq> 0 \<and>
        length (sst_data st) \<le> available_bytes (sst_level st) (effective_largest_level st) (allocator k)"
      "sst_tracks st \<noteq> [] \<longrightarrow> length (sst_data st) \<le> sum_list (map segment_bytes (sst_tracks st))"
  shows "s1 = OK \<and> length (sst_data st1) \<le> sum_list (map segment_bytes (sst_tracks st1))"
proof (cases "sst_tracks st = []")
  case T: True
  show ?thesis
  proof (cases rule: Allocate_cases [of "file_number st" "length (sst_data st)" "sst_level st" "effective_largest_level st" "allocator k"])
    case (granted ts a1)
    have "sum_list (map segment_bytes (map segment_of ts)) = sum_list (map (SegmentBytes \<circ> fst) ts)" by (simp add: comp_def)
    then show ?thesis using granted(4,7) e T by (auto simp: ensure_tracks_def)
  qed (use room(1) ne T in auto)
next
  case F: False
  then show ?thesis using e room(2) by (auto simp: ensure_tracks_def)
qed

lemma kvsync_payload_progress:
  assumes inv: "kv_inv k (content (backend k) w)" and m: "map_find (kv_files k) f = Some st" and ne: "sst_data st \<noteq> []"
    and dev: "fd (backend k) = Some path" "os_devices w path = Some d" "direct_io_alignment (backend k) = 512"
      "zones (allocator k) * kZoneSectors * 512 \<le> dev_size d" "dev_size d < 2 ^ 63" "os_script w = []"
    and e: "ensure_tracks st k = (OK, st1, k1)" and al: "length (sst_data st1) \<le> sum_list (map segment_bytes (sst_tracks st1))"
  obtains st3 k3 w3 where "PersistPayloadLocked st1 k1 w = (OK, st3, k3, w3)" "calm path d w3" "fd (backend k3) = Some path"
proof -
  note E = ensure_tracks_inv [OF inv m ne e]
  obtain a t where k1: "k1 = k\<lparr>allocator := a, s2tmap := t\<rparr>" using E(4) by blast
  let ?K = "put_file f st1 k1"
  have inv1: "kv_inv ?K (content (backend ?K) w)" using E(1) by (simp add: k1)
  have z1: "zones (allocator ?K) = zones (allocator k)" using inv inv1 by (simp add: kv_inv_def k1)
  have f1: "map_find (kv_files ?K) f = Some st1" by simp
  have wf1: "file_wf (zones (allocator ?K)) st1" "file_inv (allocator ?K) (content (backend ?K) w) st1"
    using inv1 f1 unfolding kv_inv_def kvimr_wf_def by blast+
  have rdy: "ready (backend ?K) w (dev_size d)" using dev by (simp add: ready_def quiet_def k1)
  have fit: "fits_device (dev_size d) (sst_tracks st1)" by (rule wf_fits_device [OF wf1(1)]) (use dev(4) z1 in simp)
  obtain st2 k2 w2 where p0: "ApplyPendingUpdatesLocked st1 ?K w = (OK, st2, k2, w2)"
    using ApplyPending_progress [OF rdy fit wf_placed [OF wf1(1)]] wf1 al by (auto simp: file_wf_def file_inv_def)
  obtain s3 st3 k3 w3 where p: "ApplyPendingUpdatesLocked st1 k1 w = (s3, st3, k3, w3)" by (metis prod_cases4)
  have s3: "s3 = OK" using ApplyPending_put_file [OF p, of f st1] p0 by simp
  have "calm path d w" using dev(2,6) by (simp add: calm_def same_disk_def)
  then have c3: "calm path d w3" by (rule calm_ApplyPending [OF _ p])
  have pp: "PersistPayloadLocked st1 k1 w = (OK, st3, k3, w3)"
    using p s3 E(2) by (simp add: PersistPayloadLocked_def ensure_tracks_def)
  have "fd (backend k3) = Some path" using ApplyPending_frame [OF p] dev(1) by (auto simp: k1)
  then show thesis using that pp c3 by blast
qed

lemma kvsync_progress:
  assumes inv: "kv_inv k (content (backend k) w)" and m: "map_find (kv_files k) f = Some st" and pe: "persistence_enabled k"
    and dev: "fd (backend k) = Some path" "os_devices w path = Some d" "direct_io_alignment (backend k) = 512"
      "zones (allocator k) * kZoneSectors * 512 \<le> dev_size d" "dev_size d < 2 ^ 63" "os_script w = []"
    and room: "sst_data st \<noteq> [] \<longrightarrow> sst_tracks st = [] \<longrightarrow> file_number st \<noteq> 0 \<and>
        length (sst_data st) \<le> available_bytes (sst_level st) (effective_largest_level st) (allocator k)"
      "sst_tracks st \<noteq> [] \<longrightarrow> length (sst_data st) \<le> sum_list (map segment_bytes (sst_tracks st))"
  shows "\<exists>k' w'. kvsync f k w = (OK, k', w') \<and> calm path d w'"
proof (cases "sst_data st = [] \<and> pending_updates st = []")
  case True
  have c: "calm path d w" using dev(2,6) by (simp add: calm_def same_disk_def)
  obtain w1 where 1: "Sync (backend k) w = (OK, w1)" "calm path d w1" by (rule calm_Sync [OF c dev(1)])
  obtain w2 where 2: "PersistSnapshotLocked (put_file f (st\<lparr>synced := True\<rparr>) k) w1 = (OK, w2)" "calm path d w2"
    by (rule calm_PersistSnapshot [OF 1(2)])
  show ?thesis using True m pe 1(1) 2 by (simp add: kvsync_def Let_def)
next
  case False
  note eq = kvsync_def [of f k w, unfolded m option.case if_not_P [OF False]]
  have "file_wf (zones (allocator k)) st" using inv m unfolding kv_inv_def kvimr_wf_def by blast
  then have ne: "sst_data st \<noteq> []" using False by (cases "pending_updates st") (auto simp: file_wf_def consistent_def upd_end_def)
  obtain s1 st1 k1 where e: "ensure_tracks st k = (s1, st1, k1)" by (metis prod_cases3)
  have al: "s1 = OK" "length (sst_data st1) \<le> sum_list (map segment_bytes (sst_tracks st1))"
    using ensure_tracks_progress [OF e ne] room ne by blast+
  obtain st3 k3 w3 where 3: "PersistPayloadLocked st1 k1 w = (OK, st3, k3, w3)" "calm path d w3" "fd (backend k3) = Some path"
    by (rule kvsync_payload_progress [OF inv m ne dev e [unfolded al(1)] al(2)])
  have pe1: "persistence_enabled k1" using ensure_tracks_inv(4) [OF inv m ne e] pe by auto
  obtain w4 where 4: "Sync (backend k3) w3 = (OK, w4)" "calm path d w4" by (rule calm_Sync [OF 3(2,3)])
  obtain w5 where 5: "PersistSnapshotLocked (put_file f (st3\<lparr>synced := True\<rparr>) k3) w4 = (OK, w5)" "calm path d w5"
    by (rule calm_PersistSnapshot [OF 4(2)])
  show ?thesis using e al(1) pe1 3(1) 4(1) 5 by (simp add: eq Let_def)
qed

text \<open>C12. A synchronisation on a device that answers succeeds: with room for the file, the device open,
  large enough and sector-aligned, and no failing call, \<open>kvsync\<close> of a known file reports success in either
  mode and with or without leftovers of an earlier failed attempt.\<close>

theorem kvsync_completes:
  assumes "kv_inv k (content (backend k) w)" "map_find (kv_files k) f = Some st" "persistence_enabled k"
    "fd (backend k) = Some path" "os_devices w path = Some d" "direct_io_alignment (backend k) = 512"
    "zones (allocator k) * kZoneSectors * 512 \<le> dev_size d" "dev_size d < 2 ^ 63" "os_script w = []"
    "sst_data st \<noteq> [] \<longrightarrow> sst_tracks st = [] \<longrightarrow> file_number st \<noteq> 0 \<and>
        length (sst_data st) \<le> available_bytes (sst_level st) (effective_largest_level st) (allocator k)"
    "sst_tracks st \<noteq> [] \<longrightarrow> length (sst_data st) \<le> sum_list (map segment_bytes (sst_tracks st))"
  shows "fst (kvsync f k w) = OK"
  using kvsync_progress [OF assms] by auto

text \<open>A file written through the interface to a fresh database.\<close>

definition demo_db :: KVIMR where
  "demo_db = new_kvimr\<lparr>backend := demo_backend, persistence_enabled := True, kv_dbname := ''/d'',
     metadata_path := ''/d/KVIMR-META'', configured_zones := 1, allocator := Reset 1 (new_allocator 0)\<rparr>"

definition demo_written :: KVIMR where
  "demo_written = snd (kvwrite ''/d/7.sst'' ''abc'' (RegisterSSTable ''/d/7.sst'' 7 2 2 demo_db))"

lemma demo_written_simps:
  "kv_files demo_written = [(''/d/7.sst'', new_sstable\<lparr>file_number := 7, sst_level := 2, effective_largest_level := 2,
     sst_data := ''abc'', pending_updates := [\<lparr>upd_offset = 0, upd_data = ''abc''\<rparr>]\<rparr>)]"
  "backend demo_written = demo_backend" "persistence_enabled demo_written" "kv_dbname demo_written = ''/d''"
  "metadata_path demo_written = ''/d/KVIMR-META''" "configured_zones demo_written = 1" "allocator demo_written = Reset 1 (new_allocator 0)"
  by (simp_all add: demo_written_def demo_db_def kvwrite_def RegisterSSTable_def file_at_def put_file_def new_kvimr_def new_sstable_def Let_def)

lemma demo_named: "file_named ''/d'' (''/d/7.sst'', st)" if "length (sst_data st) < 2 ^ 64" "sst_level st = 2" "effective_largest_level st = 2"
  using that by (auto simp: file_named_def under_db_def full_name_def relative_name_def is_slash_def intro!: exI [of _ "''7.sst''"])

lemma demo_calls: "kv_call\<^sup>*\<^sup>* (demo_db, demo_world []) (demo_written, demo_world [])"
proof -
  let ?k = "RegisterSSTable ''/d/7.sst'' 7 2 2 demo_db"
  have "kv_call (demo_db, demo_world []) (?k, demo_world [])"
    by (rule call_register) (use demo_named in \<open>simp_all add: demo_db_def new_kvimr_def SSTableCount_def file_at_def new_sstable_def\<close>)
  moreover have "kv_call (?k, demo_world []) (demo_written, demo_world [])" unfolding demo_written_def
    by (rule call_write) (use demo_named in \<open>simp_all add: demo_db_def new_kvimr_def SSTableCount_def file_at_def new_sstable_def
        RegisterSSTable_def put_file_def Let_def\<close>)
  ultimately show ?thesis by (rule converse_rtranclp_into_rtranclp [OF _ r_into_rtranclp])
qed

lemma demo_start: "kv_files demo_db = []" "s2tmap demo_db = []" "allocator demo_db = Reset 1 (new_allocator 0)" "configured_zones demo_db = 1"
  by (simp_all add: demo_db_def new_kvimr_def)

theorem payload_invariant_witness: "kv_inv demo_written (content demo_backend (demo_world []))"
  using payload_invariant [OF demo_calls demo_start] by (simp add: demo_written_simps)

lemma demo_inv: "kv_inv demo_written (content (backend demo_written) (demo_world []))"
  using kv_call_inv demo_calls empty_inv [OF demo_start, of "content (backend demo_db) (demo_world [])"]
proof -
  have "kv_inv (fst y) (content (backend (fst y)) (snd y))" if "kv_call\<^sup>*\<^sup>* (demo_db, demo_world []) y" for y
    using that by (induction rule: rtranclp_induct) (use kv_call_inv empty_inv [OF demo_start] in auto)
  from this [OF demo_calls] show ?thesis by simp
qed

lemma demo_room: "3 \<le> available_bytes 2 2 (Reset 1 (new_allocator 0))"
  by code_simp

theorem kvsync_completes_witness: "fst (kvsync ''/d/7.sst'' demo_written (demo_world [])) = OK"
proof (rule kvsync_completes [OF demo_inv, where path = "''d''" and d = "the (os_devices (demo_world []) ''d'')"])
  show "map_find (kv_files demo_written) ''/d/7.sst'' = Some (snd (hd (kv_files demo_written)))" by (simp add: demo_written_simps)
qed (use demo_room in \<open>simp_all add: demo_written_simps demo_backend_def demo_world_def new_sstable_def geometry_defs\<close>)



end
