(* ===== verification/Imr_Geometry.thy ===== *)
theory Imr_Geometry
  imports Kv_Prelude
begin

text \<open>
  Geometry of the simulated disk, from \<open>imrsim_kmod/dm-imrsim.c\<close> and \<open>imrsim_types.h\<close>: constants,
  zone and block addressing, the append layout of a zone (bottom tracks first, then top tracks) with
  its inverse, and the power-of-two helpers.  Sector and block numbers are natural numbers;
  \<open>imrsim_set_size_zone_default\<close> refuses every zone size other than \<open>TOTAL_ITEMS\<close> blocks, so the
  two shifts are the constants the module starts with.
\<close>

section \<open>Constants\<close>

definition IMR_ZONE_SIZE_SHIFT :: nat where "IMR_ZONE_SIZE_SHIFT = 16"
definition IMR_BLOCK_SIZE_SHIFT :: nat where "IMR_BLOCK_SIZE_SHIFT = 3"
definition TOP_TRACK_NUM_TOTAL :: nat where "TOP_TRACK_NUM_TOTAL = 64"
definition IMR_TOP_TRACK_SIZE :: nat where "IMR_TOP_TRACK_SIZE = 456"
definition IMR_BOTTOM_TRACK_SIZE :: nat where "IMR_BOTTOM_TRACK_SIZE = 568"

definition TOTAL_ITEMS :: nat where
  "TOTAL_ITEMS = (IMR_TOP_TRACK_SIZE + IMR_BOTTOM_TRACK_SIZE) * TOP_TRACK_NUM_TOTAL"

text \<open>The 32-bit all-ones value: \<open>IMR_LSM_KEY_EMPTY\<close>, \<open>IMR_LSM_ZONE_COMPACTION_NONE\<close>,
  \<open>IMR_LSM_SEGMENT_NONE\<close> and \<open>IMR_LSM_SEGMENT_ZONE_MIXED\<close>.\<close>

definition u32_max :: nat where "u32_max = 2 ^ 32 - 1"
definition u64_max :: nat where "u64_max = 2 ^ 64 - 1"

abbreviation "IMR_LSM_KEY_EMPTY \<equiv> u32_max"
abbreviation "IMR_LSM_ZONE_COMPACTION_NONE \<equiv> u32_max"
abbreviation "IMR_LSM_SEGMENT_NONE \<equiv> u32_max"
abbreviation "IMR_LSM_SEGMENT_ZONE_MIXED \<equiv> u32_max"

named_theorems geometry \<open>the constants of the disk geometry\<close>

declare IMR_ZONE_SIZE_SHIFT_def [geometry] IMR_BLOCK_SIZE_SHIFT_def [geometry]
  TOP_TRACK_NUM_TOTAL_def [geometry] IMR_TOP_TRACK_SIZE_def [geometry]
  IMR_BOTTOM_TRACK_SIZE_def [geometry] TOTAL_ITEMS_def [geometry]

text \<open>\<open>1 << IMR_BLOCK_SIZE_SHIFT\<close>.\<close>

definition block_sectors :: nat where "block_sectors = 2 ^ IMR_BLOCK_SIZE_SHIFT"

declare block_sectors_def [geometry]

section \<open>Addresses\<close>

definition num_sectors_zone :: nat where
  "num_sectors_zone = 2 ^ IMR_BLOCK_SIZE_SHIFT * 2 ^ IMR_ZONE_SIZE_SHIFT"

definition zone_idx_lba :: "nat \<Rightarrow> nat" where
  "zone_idx_lba idx = idx * 2 ^ IMR_BLOCK_SIZE_SHIFT * 2 ^ IMR_ZONE_SIZE_SHIFT"

definition imrsim_lba_zone_idx :: "nat \<Rightarrow> nat" where
  "imrsim_lba_zone_idx lba = lba div 2 ^ IMR_BLOCK_SIZE_SHIFT div 2 ^ IMR_ZONE_SIZE_SHIFT mod 2 ^ 32"

definition imr_lsm_zone_key_start :: "nat \<Rightarrow> nat" where
  "imr_lsm_zone_key_start zone_idx = zone_idx * 2 ^ IMR_ZONE_SIZE_SHIFT"

text \<open>The shift loop of \<open>index_power_of_2\<close>.\<close>

function index_power_of_2 :: "nat \<Rightarrow> nat" where
  "index_power_of_2 num = (if num div 2 = 0 then 0 else Suc (index_power_of_2 (num div 2)))"
  by pat_completeness auto
termination by (relation "measure id") auto

declare index_power_of_2.simps [simp del]

definition imr_lsm_bottom_range_blocks :: nat where
  "imr_lsm_bottom_range_blocks = IMR_BOTTOM_TRACK_SIZE * TOP_TRACK_NUM_TOTAL"

definition imr_lsm_track_group_blocks :: nat where
  "imr_lsm_track_group_blocks = IMR_TOP_TRACK_SIZE + IMR_BOTTOM_TRACK_SIZE"

definition imr_lsm_zone_bottom_pba :: "nat \<Rightarrow> nat \<Rightarrow> nat" where
  "imr_lsm_zone_bottom_pba zone_idx bottom_block_offset =
     (let track = bottom_block_offset div IMR_BOTTOM_TRACK_SIZE;
          block = bottom_block_offset mod IMR_BOTTOM_TRACK_SIZE;
          zone_block = track * imr_lsm_track_group_blocks + IMR_TOP_TRACK_SIZE + block
      in zone_idx_lba zone_idx + zone_block * 2 ^ IMR_BLOCK_SIZE_SHIFT)"

definition imr_lsm_zone_top_pba :: "nat \<Rightarrow> nat \<Rightarrow> nat" where
  "imr_lsm_zone_top_pba zone_idx top_block_offset =
     (let track = top_block_offset div IMR_TOP_TRACK_SIZE;
          block = top_block_offset mod IMR_TOP_TRACK_SIZE;
          zone_block = track * imr_lsm_track_group_blocks + block
      in zone_idx_lba zone_idx + zone_block * 2 ^ IMR_BLOCK_SIZE_SHIFT)"

definition imr_lsm_zone_append_pba :: "nat \<Rightarrow> nat \<Rightarrow> nat" where
  "imr_lsm_zone_append_pba zone_idx slot =
     (let bottom_blocks = imr_lsm_bottom_range_blocks
      in if slot < bottom_blocks then imr_lsm_zone_bottom_pba zone_idx slot
         else imr_lsm_zone_top_pba zone_idx (slot - bottom_blocks))"

text \<open>The inverse; \<open>None\<close> is the result \<open>-ERANGE\<close>.\<close>

definition imr_lsm_zone_append_slot :: "nat \<Rightarrow> nat \<Rightarrow> nat option" where
  "imr_lsm_zone_append_slot zone_idx pba =
     (let group_blocks = imr_lsm_track_group_blocks; bottom_blocks = imr_lsm_bottom_range_blocks;
          zone_start = zone_idx_lba zone_idx
      in if pba < zone_start then None
         else
           let zone_block = (pba - zone_start) div 2 ^ IMR_BLOCK_SIZE_SHIFT
           in if zone_block \<ge> TOTAL_ITEMS then None
              else
                let track = zone_block div group_blocks; block = zone_block mod group_blocks
                in if track \<ge> TOP_TRACK_NUM_TOTAL then None
                   else
                     let slot = (if block < IMR_TOP_TRACK_SIZE
                                 then bottom_blocks + track * IMR_TOP_TRACK_SIZE + block
                                 else track * IMR_BOTTOM_TRACK_SIZE + block - IMR_TOP_TRACK_SIZE)
                     in if slot < TOTAL_ITEMS then Some slot else None)"

definition imr_lsm_pba_ranges_overlap :: "nat \<Rightarrow> nat \<Rightarrow> nat \<Rightarrow> nat \<Rightarrow> bool" where
  "imr_lsm_pba_ranges_overlap a_start a_end b_start b_end =
     (if a_start > a_end \<or> b_start > b_end then False else a_start \<le> b_end \<and> b_start \<le> a_end)"

definition imrsim_write_block_count :: "nat \<Rightarrow> nat \<Rightarrow> nat" where
  "imrsim_write_block_count logical_lba bio_sectors =
     (let first_block_offset = logical_lba mod block_sectors
      in if bio_sectors = 0 then 0
         else let covered_sectors = first_block_offset + bio_sectors
              in (covered_sectors + block_sectors - 1) div 2 ^ IMR_BLOCK_SIZE_SHIFT)"

section \<open>Lemmas\<close>

lemma TOTAL_ITEMS_value: "TOTAL_ITEMS = 65536"
  by (simp add: geometry)

lemma block_sectors_value: "block_sectors = 8"
  by (simp add: geometry)

lemma index_power_of_2_log: "0 < n \<Longrightarrow> 2 ^ index_power_of_2 n \<le> n \<and> n < 2 ^ Suc (index_power_of_2 n)"
proof (induction n rule: index_power_of_2.induct)
  case (1 num)
  show ?case
  proof (cases "num div 2 = 0")
    case True
    with 1 have "num = 1" by linarith
    then show ?thesis by (simp add: index_power_of_2.simps [of "Suc 0"])
  next
    case False
    with 1 have "2 ^ index_power_of_2 (num div 2) \<le> num div 2 \<and> num div 2 < 2 ^ Suc (index_power_of_2 (num div 2))"
      by simp
    with False show ?thesis by (subst (1 2) index_power_of_2.simps) (auto; linarith)
  qed
qed

lemma index_power_of_2_exact: "index_power_of_2 (2 ^ k) = k"
  by (induction k) (simp_all add: index_power_of_2.simps)

lemma lba_zone_idx_split:
  assumes "zone_idx < 2 ^ 32" "r < TOTAL_ITEMS * 8"
  shows "imrsim_lba_zone_idx (zone_idx_lba zone_idx + r) = zone_idx"
proof -
  have "(zone_idx * 8 * 65536 + r) div 8 = zone_idx * 65536 + r div 8" by simp
  moreover have "(zone_idx * 65536 + r div 8) div 65536 = zone_idx"
    using assms(2) by (simp add: TOTAL_ITEMS_value div_less_mono)
  ultimately show ?thesis using assms(1) by (simp add: imrsim_lba_zone_idx_def zone_idx_lba_def geometry)
qed

text \<open>The block inside a zone that an append slot denotes, and its inverse.\<close>

definition slot_block :: "nat \<Rightarrow> nat" where
  "slot_block slot = (if slot < 36352 then slot div 568 * 1024 + 456 + slot mod 568
     else (slot - 36352) div 456 * 1024 + (slot - 36352) mod 456)"

definition block_slot :: "nat \<Rightarrow> nat" where
  "block_slot b = (if b mod 1024 < 456 then 36352 + b div 1024 * 456 + b mod 1024
     else b div 1024 * 568 + b mod 1024 - 456)"

lemma append_pba_block: "imr_lsm_zone_append_pba z slot = zone_idx_lba z + slot_block slot * 8"
  by (simp add: imr_lsm_zone_append_pba_def imr_lsm_zone_bottom_pba_def imr_lsm_zone_top_pba_def
      imr_lsm_bottom_range_blocks_def imr_lsm_track_group_blocks_def slot_block_def geometry Let_def)

lemma slot_block_less: "slot < TOTAL_ITEMS \<Longrightarrow> slot_block slot < TOTAL_ITEMS"
proof -
  assume s: "slot < TOTAL_ITEMS"
  have "slot div 568 \<le> 63 \<and> slot mod 568 \<le> 567" if "slot < 36352" using that by (auto simp: div_less_mono)
  moreover have "(slot - 36352) div 456 \<le> 63 \<and> (slot - 36352) mod 456 \<le> 455" if "\<not> slot < 36352"
    using that s by (auto simp: TOTAL_ITEMS_value)
  ultimately show ?thesis by (auto simp: slot_block_def TOTAL_ITEMS_value)
qed

lemma block_slot_less: "b < TOTAL_ITEMS \<Longrightarrow> block_slot b < TOTAL_ITEMS"
proof -
  assume "b < TOTAL_ITEMS"
  then have "b div 1024 \<le> 63" by (simp add: TOTAL_ITEMS_value div_le_mono)
  moreover have "b mod 1024 < 1024" by simp
  ultimately have "b mod 1024 < 456 \<Longrightarrow> 36352 + b div 1024 * 456 + b mod 1024 < 65536"
    "b div 1024 * 568 + b mod 1024 - 456 < 65536" by linarith+
  then show ?thesis by (simp add: block_slot_def TOTAL_ITEMS_value)
qed

lemma block_slot_slot_block: "slot < TOTAL_ITEMS \<Longrightarrow> block_slot (slot_block slot) = slot"
proof -
  assume s: "slot < TOTAL_ITEMS"
  show ?thesis
  proof (cases "slot < 36352")
    case True
    let ?b = "slot div 568 * 1024 + (456 + slot mod 568)"
    have m: "456 + slot mod 568 < 1024" using mod_less_divisor [of 568 slot] by linarith
    then have "?b div 1024 = slot div 568" "?b mod 1024 = 456 + slot mod 568" by simp_all
    then show ?thesis using True by (simp add: slot_block_def block_slot_def add.assoc)
  next
    case False
    let ?t = "slot - 36352"
    let ?b = "?t div 456 * 1024 + ?t mod 456"
    have m: "?t mod 456 < 456" by simp
    then have "?b div 1024 = ?t div 456" "?b mod 1024 = ?t mod 456" by simp_all
    then show ?thesis using False m by (simp add: slot_block_def block_slot_def)
  qed
qed

lemma slot_block_block_slot: "b < TOTAL_ITEMS \<Longrightarrow> slot_block (block_slot b) = b"
proof -
  assume b: "b < TOTAL_ITEMS"
  have d: "b div 1024 \<le> 63" using b by (simp add: TOTAL_ITEMS_value div_le_mono)
  show ?thesis
  proof (cases "b mod 1024 < 456")
    case True
    then have "(b div 1024 * 456 + b mod 1024) div 456 = b div 1024"
      "(b div 1024 * 456 + b mod 1024) mod 456 = b mod 1024" by simp_all
    then show ?thesis using True by (simp add: slot_block_def block_slot_def)
  next
    case False
    define r where "r = b mod 1024 - 456"
    have r: "r < 568" "b mod 1024 = 456 + r" using False mod_less_divisor [of 1024 b] by (auto simp: r_def)
    then have "(b div 1024 * 568 + r) div 568 = b div 1024" "(b div 1024 * 568 + r) mod 568 = r" by simp_all
    moreover have "b div 1024 * 568 + r < 36352" using d r(1) by linarith
    moreover have "b div 1024 * 1024 + 456 + r = b" using r(2) div_mult_mod_eq [of b 1024] by linarith
    ultimately show ?thesis using False by (simp add: slot_block_def block_slot_def r(2))
  qed
qed

lemma append_slot_block:
  "imr_lsm_zone_append_slot z pba =
     (if pba < zone_idx_lba z \<or> (pba - zone_idx_lba z) div 8 \<ge> TOTAL_ITEMS then None
      else Some (block_slot ((pba - zone_idx_lba z) div 8)))"
proof -
  define b where "b = (pba - zone_idx_lba z) div 8"
  show ?thesis
  proof (cases "pba < zone_idx_lba z \<or> b \<ge> 65536")
    case True
    then show ?thesis by (auto simp: imr_lsm_zone_append_slot_def Let_def TOTAL_ITEMS_value b_def IMR_BLOCK_SIZE_SHIFT_def)
  next
    case False
    then have "b div 1024 < 64" "block_slot b < 65536"
      using block_slot_less [of b] by (auto simp: TOTAL_ITEMS_value)
    with False show ?thesis
      by (cases "b mod 1024 < 456")
        (simp_all add: imr_lsm_zone_append_slot_def Let_def imr_lsm_track_group_blocks_def block_slot_def
          imr_lsm_bottom_range_blocks_def geometry b_def [symmetric])
  qed
qed

lemma append_slot_pba: "slot < TOTAL_ITEMS \<Longrightarrow>
  imr_lsm_zone_append_slot z (imr_lsm_zone_append_pba z slot) = Some slot"
  using slot_block_less [of slot] block_slot_slot_block [of slot]
  by (simp add: append_slot_block append_pba_block)

lemma append_pba_bounds: "slot < TOTAL_ITEMS \<Longrightarrow>
  zone_idx_lba z \<le> imr_lsm_zone_append_pba z slot \<and> imr_lsm_zone_append_pba z slot + 8 \<le> zone_idx_lba (z + 1)"
  using slot_block_less [of slot] by (simp add: append_pba_block zone_idx_lba_def geometry)

lemma append_pba_zone: "slot < TOTAL_ITEMS \<Longrightarrow> z < 2 ^ 32 \<Longrightarrow>
  imrsim_lba_zone_idx (imr_lsm_zone_append_pba z slot) = z"
  using slot_block_less [of slot] lba_zone_idx_split [of z "slot_block slot * 8"] by (simp add: append_pba_block)

lemma append_pba_inj:
  assumes "s1 < TOTAL_ITEMS" "s2 < TOTAL_ITEMS" "imr_lsm_zone_append_pba z1 s1 = imr_lsm_zone_append_pba z2 s2"
  shows "z1 = z2 \<and> s1 = s2"
proof -
  have "\<not> z1 < z2" "\<not> z2 < z1"
    using append_pba_bounds [OF assms(1), of z1] append_pba_bounds [OF assms(2), of z2] assms(3)
    by (auto simp: zone_idx_lba_def geometry)
  then have "z1 = z2" by simp
  then show ?thesis
    using append_slot_pba [OF assms(1), of z1] append_slot_pba [OF assms(2), of z1] assms(3)
    by (metis option.inject)
qed

lemma mod_mult_add: "b < m \<Longrightarrow> (a * m + b) mod m = (b :: nat)"
  by (metis mod_less mod_mult_self3)

lemma slot_bottom: "slot < 36352 \<longleftrightarrow> 456 \<le> slot_block slot mod 1024"
proof (cases "slot < 36352")
  case True
  have "456 + slot mod 568 < 1024" using mod_less_divisor [of 568 slot] by linarith
  from mod_mult_add [OF this, of "slot div 568"] True show ?thesis
    unfolding slot_block_def by (simp only: if_True add.assoc le_add1 simp_thms)
next
  case False
  have m: "(slot - 36352) mod 456 < 456" by simp
  then have "(slot - 36352) mod 456 < 1024" by linarith
  from mod_mult_add [OF this, of "(slot - 36352) div 456"] m False show ?thesis
    unfolding slot_block_def by (simp only: if_False not_le simp_thms)
qed

section \<open>Properties\<close>

text \<open>C26. The append layout of a zone is a bijection: slots and aligned physical blocks of the zone
  correspond one to one through \<open>imr_lsm_zone_append_pba\<close> and \<open>imr_lsm_zone_append_slot\<close>, the
  bottom tracks come before every top track, and nothing outside the zone has a slot.\<close>

theorem append_layout_bijection:
  "(\<forall>slot < TOTAL_ITEMS. imr_lsm_zone_append_slot z (imr_lsm_zone_append_pba z slot) = Some slot \<and>
      zone_idx_lba z \<le> imr_lsm_zone_append_pba z slot \<and>
      imr_lsm_zone_append_pba z slot + block_sectors \<le> zone_idx_lba (z + 1) \<and>
      (slot < imr_lsm_bottom_range_blocks \<longleftrightarrow>
        IMR_TOP_TRACK_SIZE \<le> (imr_lsm_zone_append_pba z slot - zone_idx_lba z) div block_sectors mod
          imr_lsm_track_group_blocks)) \<and>
   (\<forall>pba slot. imr_lsm_zone_append_slot z pba = Some slot \<longrightarrow>
      imr_lsm_zone_append_pba z slot = pba - pba mod block_sectors \<and>
      slot < TOTAL_ITEMS \<and> zone_idx_lba z \<le> pba \<and> pba < zone_idx_lba (z + 1))"
proof (intro conjI allI impI)
  fix slot assume s: "slot < TOTAL_ITEMS"
  show "imr_lsm_zone_append_slot z (imr_lsm_zone_append_pba z slot) = Some slot"
    by (rule append_slot_pba [OF s])
  show "zone_idx_lba z \<le> imr_lsm_zone_append_pba z slot"
    "imr_lsm_zone_append_pba z slot + block_sectors \<le> zone_idx_lba (z + 1)"
    using append_pba_bounds [OF s, of z] by (simp_all add: block_sectors_value)
  have "(imr_lsm_zone_append_pba z slot - zone_idx_lba z) div block_sectors = slot_block slot"
    by (simp add: append_pba_block block_sectors_value)
  then show "slot < imr_lsm_bottom_range_blocks \<longleftrightarrow>
      IMR_TOP_TRACK_SIZE \<le> (imr_lsm_zone_append_pba z slot - zone_idx_lba z) div block_sectors mod
        imr_lsm_track_group_blocks"
    using slot_bottom [of slot]
    by (simp add: imr_lsm_bottom_range_blocks_def imr_lsm_track_group_blocks_def IMR_BOTTOM_TRACK_SIZE_def
        IMR_TOP_TRACK_SIZE_def TOP_TRACK_NUM_TOTAL_def)
next
  fix pba slot assume a: "imr_lsm_zone_append_slot z pba = Some slot"
  then have p: "zone_idx_lba z \<le> pba" "(pba - zone_idx_lba z) div 8 < TOTAL_ITEMS"
    "slot = block_slot ((pba - zone_idx_lba z) div 8)"
    by (auto simp: append_slot_block split: if_splits)
  obtain r where r: "pba = zone_idx_lba z + r" using p(1) le_Suc_ex by blast
  have "slot_block slot = r div 8" using p(2,3) r by (simp add: slot_block_block_slot)
  moreover have "pba mod 8 = r mod 8" by (simp add: r zone_idx_lba_def geometry mod_add_left_eq [symmetric])
  ultimately show "imr_lsm_zone_append_pba z slot = pba - pba mod block_sectors"
    unfolding append_pba_block block_sectors_value r using div_mult_mod_eq [of r 8] by linarith
  show "slot < TOTAL_ITEMS" using p(2,3) block_slot_less by simp
  show "zone_idx_lba z \<le> pba" by fact
  show "pba < zone_idx_lba (z + 1)" using p(1,2) by (simp add: zone_idx_lba_def TOTAL_ITEMS_value geometry)
qed

theorem append_layout_bijection_witness:
  "imr_lsm_zone_append_slot 3 (imr_lsm_zone_append_pba 3 40000) = Some 40000 \<and>
   imr_lsm_zone_append_pba 3 40000 = 3 * 524288 + (8 * 1024) * 8"
proof
  show "imr_lsm_zone_append_slot 3 (imr_lsm_zone_append_pba 3 40000) = Some 40000"
    using append_layout_bijection [of 3, THEN conjunct1, rule_format, of 40000] by (simp add: TOTAL_ITEMS_value)
qed (simp add: append_pba_block slot_block_def zone_idx_lba_def geometry)

text \<open>C36. Two sector ranges are reported as overlapping exactly when they share a sector; empty
  ranges overlap nothing.\<close>

theorem ranges_overlap_exact:
  "imr_lsm_pba_ranges_overlap a b c d \<longleftrightarrow> {a..b} \<inter> {c..d} \<noteq> {}"
  by (auto simp: imr_lsm_pba_ranges_overlap_def)

end
