(* ===== verification/Imr_Bloom.thy ===== *)
theory Imr_Bloom
  imports Imr_Geometry
begin

text \<open>
  The Bloom filter of a segment, from \<open>dm-imrsim.c\<close>: sizing (\<open>imr_lsm_next_power_of_two_u32\<close>,
  \<open>imr_lsm_bloom_choose_bits\<close>, \<open>imr_lsm_bloom_choose_hashes\<close>), the 64-bit mixing hash, insertion
  and the membership test.  The mixing runs on 64-bit words, so multiplications wrap as in the code.
\<close>

unbundle bit_operations_syntax

definition IMR_LSM_BLOOM_MIN_BITS :: nat where "IMR_LSM_BLOOM_MIN_BITS = 256"
definition IMR_LSM_BLOOM_MAX_BITS :: nat where "IMR_LSM_BLOOM_MAX_BITS = 16384"
definition IMR_LSM_BLOOM_MIN_HASHES :: nat where "IMR_LSM_BLOOM_MIN_HASHES = 3"
definition IMR_LSM_BLOOM_MAX_HASHES :: nat where "IMR_LSM_BLOOM_MAX_HASHES = 7"

lemmas bloom_consts = IMR_LSM_BLOOM_MIN_BITS_def IMR_LSM_BLOOM_MAX_BITS_def
  IMR_LSM_BLOOM_MIN_HASHES_def IMR_LSM_BLOOM_MAX_HASHES_def

text \<open>The doubling loop; \<open>result\<close> starts at 1 and is never 0.\<close>

function pow2_loop :: "nat \<Rightarrow> nat \<Rightarrow> nat" where
  "pow2_loop val result =
     (if 0 < result \<and> result < val \<and> result \<le> u32_max div 2 then pow2_loop val (result * 2) else result)"
  by pat_completeness auto
termination by (relation "measure (\<lambda>(v, r). v - r)") auto

declare pow2_loop.simps [simp del]

definition imr_lsm_next_power_of_two_u32 :: "nat \<Rightarrow> nat" where
  "imr_lsm_next_power_of_two_u32 val = (if val \<le> 1 then 1 else pow2_loop val 1)"

definition imr_lsm_bloom_choose_bits :: "nat \<Rightarrow> nat \<Rightarrow> nat" where
  "imr_lsm_bloom_choose_bits key_count bits_per_key =
     (if key_count = 0 then IMR_LSM_BLOOM_MIN_BITS
      else
        let t0 = key_count * bits_per_key;
            t1 = (if t0 < IMR_LSM_BLOOM_MIN_BITS then IMR_LSM_BLOOM_MIN_BITS else t0);
            target_bits = (if t1 > IMR_LSM_BLOOM_MAX_BITS then IMR_LSM_BLOOM_MAX_BITS else t1);
            b0 = imr_lsm_next_power_of_two_u32 target_bits;
            b1 = (if b0 < IMR_LSM_BLOOM_MIN_BITS then IMR_LSM_BLOOM_MIN_BITS else b0)
        in if b1 > IMR_LSM_BLOOM_MAX_BITS then IMR_LSM_BLOOM_MAX_BITS else b1)"

definition imr_lsm_bloom_choose_hashes :: "nat \<Rightarrow> nat" where
  "imr_lsm_bloom_choose_hashes bits_per_key =
     (let h0 = (bits_per_key * 69) mod 2 ^ 32 div 100;
          h1 = (if h0 < IMR_LSM_BLOOM_MIN_HASHES then IMR_LSM_BLOOM_MIN_HASHES else h0)
      in if h1 > IMR_LSM_BLOOM_MAX_HASHES then IMR_LSM_BLOOM_MAX_HASHES else h1)"

definition imr_lsm_bloom_hash :: "nat \<Rightarrow> nat \<Rightarrow> nat \<Rightarrow> nat" where
  "imr_lsm_bloom_hash key seed bloom_bits =
     (let k0 = (word_of_nat key :: u64);
          k1 = k0 XOR ((word_of_nat seed + 1) * 0x9e3779b97f4a7c15);
          k2 = k1 XOR drop_bit 33 k1;
          k3 = k2 * 0xff51afd7ed558ccd;
          k4 = k3 XOR drop_bit 33 k3;
          k5 = k4 * 0xc4ceb9fe1a85ec53;
          k6 = k5 XOR drop_bit 33 k5;
          mask = (word_of_nat bloom_bits :: u32) - 1
      in unat (ucast (k6 AND ucast mask) :: u32))"

definition bloom_set :: "u64 list \<Rightarrow> nat \<Rightarrow> u64 list" where
  "bloom_set bloom_words b =
     bloom_words[b div 64 := (bloom_words ! (b div 64)) OR push_bit (b mod 64) 1]"

fun bloom_add_loop :: "nat \<Rightarrow> nat \<Rightarrow> nat \<Rightarrow> nat \<Rightarrow> u64 list \<Rightarrow> u64 list" where
  "bloom_add_loop bloom_bits key hash_idx 0 bloom_words = bloom_words"
| "bloom_add_loop bloom_bits key hash_idx (Suc n) bloom_words =
     bloom_add_loop bloom_bits key (hash_idx + 1) n
       (bloom_set bloom_words (imr_lsm_bloom_hash key hash_idx bloom_bits))"

definition imr_lsm_bloom_add :: "u64 list \<Rightarrow> nat \<Rightarrow> nat \<Rightarrow> nat \<Rightarrow> u64 list" where
  "imr_lsm_bloom_add bloom_words bloom_bits bloom_hashes key =
     bloom_add_loop bloom_bits key 0 bloom_hashes bloom_words"

text \<open>The loop of \<open>imr_lsm_bloom_may_contain\<close>.\<close>

fun bloom_test_loop :: "u64 list \<Rightarrow> nat \<Rightarrow> nat \<Rightarrow> nat \<Rightarrow> nat \<Rightarrow> bool" where
  "bloom_test_loop bloom_words bloom_bits key hash_idx 0 = True"
| "bloom_test_loop bloom_words bloom_bits key hash_idx (Suc n) =
     (let b = imr_lsm_bloom_hash key hash_idx bloom_bits
      in if (bloom_words ! (b div 64)) AND push_bit (b mod 64) 1 = 0 then False
         else bloom_test_loop bloom_words bloom_bits key (hash_idx + 1) n)"

section \<open>Lemmas\<close>

lemma pow2_loop_result:
  assumes "result = 2 ^ i" "i < 32" "val \<le> 2 ^ 31" "i = 0 \<or> 2 ^ (i - 1) < val"
  shows "\<exists>j. pow2_loop val result = 2 ^ j \<and> i \<le> j \<and> j < 32 \<and> val \<le> 2 ^ j \<and> (j = i \<or> 2 ^ (j - 1) < val)"
  using assms
proof (induction val result arbitrary: i rule: pow2_loop.induct)
  case (1 val result)
  show ?case
  proof (cases "result < val")
    case True
    then have "(2::nat) ^ i < 2 ^ 31" using 1(2,4) by linarith
    then have i: "i < 31" by (subst (asm) power_strict_increasing_iff) auto
    then have "(2::nat) ^ i \<le> 2 ^ 30" by (intro power_increasing) auto
    then have g: "0 < result \<and> result < val \<and> result \<le> u32_max div 2" using True 1(2) by (simp add: u32_max_def)
    have "\<exists>j. pow2_loop val (result * 2) = 2 ^ j \<and> Suc i \<le> j \<and> j < 32 \<and> val \<le> 2 ^ j \<and> (j = Suc i \<or> 2 ^ (j - 1) < val)"
      by (rule 1(1) [OF g]) (use 1 True i in auto)
    then obtain j where "pow2_loop val (result * 2) = 2 ^ j" "Suc i \<le> j" "j < 32" "val \<le> 2 ^ j"
      "j = Suc i \<or> 2 ^ (j - 1) < val" by auto
    moreover have "j = Suc i \<Longrightarrow> 2 ^ (j - 1) < val" using True 1(2) by simp
    ultimately show ?thesis using g by (intro exI [of _ j]) (auto simp: pow2_loop.simps [of val result])
  next
    case False
    then have "pow2_loop val result = result" by (simp add: pow2_loop.simps [of val result])
    then show ?thesis using 1 False by (intro exI [of _ i]) auto
  qed
qed

lemma next_power_of_two:
  assumes "1 \<le> val" "val \<le> 2 ^ 31"
  shows "\<exists>j. imr_lsm_next_power_of_two_u32 val = 2 ^ j \<and> val \<le> 2 ^ j \<and> (j = 0 \<or> 2 ^ (j - 1) < val) \<and> j < 32"
proof (cases "val \<le> 1")
  case True
  with assms show ?thesis by (auto simp: imr_lsm_next_power_of_two_u32_def intro!: exI [of _ 0])
next
  case False
  have "\<exists>j. pow2_loop val 1 = 2 ^ j \<and> 0 \<le> j \<and> j < 32 \<and> val \<le> 2 ^ j \<and> (j = 0 \<or> 2 ^ (j - 1) < val)"
    by (rule pow2_loop_result) (use assms in auto)
  with False show ?thesis by (auto simp: imr_lsm_next_power_of_two_u32_def)
qed

lemma choose_bits_power:
  "\<exists>j. 8 \<le> j \<and> j \<le> 14 \<and> imr_lsm_bloom_choose_bits key_count bits_per_key = 2 ^ j"
proof (cases "key_count = 0")
  case True
  then show ?thesis by (intro exI [of _ 8]) (simp add: imr_lsm_bloom_choose_bits_def bloom_consts)
next
  case False
  define t where "t = min 16384 (max 256 (key_count * bits_per_key))"
  have t: "256 \<le> t" "t \<le> 16384" by (auto simp: t_def)
  then obtain j where j: "imr_lsm_next_power_of_two_u32 t = 2 ^ j" "t \<le> 2 ^ j" "j = 0 \<or> 2 ^ (j - 1) < t"
    using next_power_of_two [of t] by auto
  have "(2::nat) ^ 8 \<le> 2 ^ j" using j(2) t(1) by simp
  then have j8: "8 \<le> j" by (subst (asm) power_increasing_iff) auto
  have "(2::nat) ^ (j - 1) < 2 ^ 14" using j(3) t(2) j8 by auto
  then have j14: "j \<le> 14" by (subst (asm) power_strict_increasing_iff) auto
  have b: "(256::nat) \<le> 2 ^ j" "(2::nat) ^ j \<le> 16384"
    using j8 j14 power_increasing [of 8 j "2::nat"] power_increasing [of j 14 "2::nat"] by auto
  have "imr_lsm_bloom_choose_bits key_count bits_per_key =
      (let b0 = imr_lsm_next_power_of_two_u32 t; b1 = (if b0 < 256 then 256 else b0) in if b1 > 16384 then 16384 else b1)"
    using False by (auto simp: imr_lsm_bloom_choose_bits_def bloom_consts t_def Let_def min_def max_def)
  also have "\<dots> = 2 ^ j" using b by (simp add: j(1))
  finally show ?thesis using j8 j14 by blast
qed

lemma choose_hashes_bounds:
  "3 \<le> imr_lsm_bloom_choose_hashes n \<and> imr_lsm_bloom_choose_hashes n \<le> 7"
  by (simp add: imr_lsm_bloom_choose_hashes_def bloom_consts Let_def)

lemma bloom_hash_less:
  assumes "j \<le> 14"
  shows "imr_lsm_bloom_hash key seed (2 ^ j) < 2 ^ j"
proof -
  have m: "(word_of_nat (2 ^ j) :: u32) - 1 = mask j"
    by (simp add: mask_eq_exp_minus_1)
  have less: "unat (ucast ((x :: u64) AND ucast (mask j :: u32)) :: u32) < 2 ^ j" for x
  proof -
    have u: "(ucast (mask j :: u32) :: u64) = mask j"
      using assms by (simp add: unsigned_ucast_eq bit_eq_iff bit_mask_iff bit_unsigned_iff) auto
    have "(ucast (x AND mask j) :: u32) = take_bit j (ucast x)"
      using assms by (simp add: bit_eq_iff bit_and_iff bit_mask_iff bit_take_bit_iff bit_unsigned_iff) auto
    then have "unat (ucast (x AND mask j) :: u32) = take_bit j (unat (ucast x :: u32))"
      by (simp add: unsigned_take_bit_eq)
    then show ?thesis by (simp add: u)
  qed
  show ?thesis unfolding imr_lsm_bloom_hash_def Let_def m by (rule less)
qed

definition bloom_bit :: "u64 list \<Rightarrow> nat \<Rightarrow> bool" where
  "bloom_bit bloom_words b \<longleftrightarrow> bit (bloom_words ! (b div 64)) (b mod 64)"

lemma test_bit_iff: "(w AND 2 ^ i = 0) \<longleftrightarrow> \<not> bit w i" if "i < 64" for w :: u64
  using that by (auto simp: bit_eq_iff [of "w AND 2 ^ i" 0] bit_and_iff bit_exp_iff)

lemma length_bloom_set [simp]: "length (bloom_set ws b) = length ws"
  by (simp add: bloom_set_def)

lemma bloom_bit_set:
  assumes "b < 64 * length ws" "c < 64 * length ws"
  shows "bloom_bit (bloom_set ws b) c \<longleftrightarrow> c = b \<or> bloom_bit ws c"
proof -
  have l: "b div 64 < length ws" "c div 64 < length ws" using assms by auto
  show ?thesis
  proof (cases "c div 64 = b div 64")
    case True
    have "c = b \<longleftrightarrow> c mod 64 = b mod 64" using True by (metis div_mult_mod_eq)
    with True l show ?thesis
      by (auto simp: bloom_bit_def bloom_set_def bit_or_iff bit_exp_iff)
  next
    case False
    then have "c \<noteq> b" by auto
    with False show ?thesis by (simp add: bloom_bit_def bloom_set_def nth_list_update)
  qed
qed

lemma ex_interval_Suc:
  "(\<exists>i. h \<le> i \<and> i < h + Suc n \<and> P i) \<longleftrightarrow> P h \<or> (\<exists>i. h + 1 \<le> i \<and> i < h + 1 + n \<and> P i)"
  for h n :: nat
proof -
  have "(h \<le> i \<and> i < h + Suc n \<and> P i) = (i = h \<and> P h \<or> h + 1 \<le> i \<and> i < h + 1 + n \<and> P i)" for i
    by (cases "i = h") auto
  then show ?thesis by (simp add: ex_disj_distrib)
qed

lemma bloom_add_loop_bits:
  assumes "\<forall>i. imr_lsm_bloom_hash key i bits < 64 * length ws" "c < 64 * length ws"
  shows "bloom_bit (bloom_add_loop bits key h n ws) c \<longleftrightarrow>
    bloom_bit ws c \<or> (\<exists>i. h \<le> i \<and> i < h + n \<and> imr_lsm_bloom_hash key i bits = c)"
  using assms
proof (induction n arbitrary: h ws)
  case (Suc n)
  let ?ws = "bloom_set ws (imr_lsm_bloom_hash key h bits)"
  have "bloom_bit (bloom_add_loop bits key (h + 1) n ?ws) c \<longleftrightarrow>
      bloom_bit ?ws c \<or> (\<exists>i. h + 1 \<le> i \<and> i < h + 1 + n \<and> imr_lsm_bloom_hash key i bits = c)"
    by (rule Suc.IH) (use Suc.prems in simp_all)
  moreover have "bloom_bit ?ws c \<longleftrightarrow> c = imr_lsm_bloom_hash key h bits \<or> bloom_bit ws c"
    by (rule bloom_bit_set) (use Suc.prems in simp_all)
  ultimately show ?case unfolding ex_interval_Suc bloom_add_loop.simps by blast
qed auto

lemma length_bloom_add_loop [simp]: "length (bloom_add_loop bits key h n ws) = length ws"
  by (induction n arbitrary: h ws) auto

lemma length_bloom_add [simp]: "length (imr_lsm_bloom_add ws bits hashes key) = length ws"
  by (simp add: imr_lsm_bloom_add_def)

lemma bloom_test_loop_iff:
  "bloom_test_loop ws bits key h n \<longleftrightarrow> (\<forall>i. h \<le> i \<and> i < h + n \<longrightarrow> bloom_bit ws (imr_lsm_bloom_hash key i bits))"
proof (induction n arbitrary: h)
  case (Suc n)
  have "(\<forall>i. h \<le> i \<and> i < h + Suc n \<longrightarrow> P i) \<longleftrightarrow> P h \<and> (\<forall>i. h + 1 \<le> i \<and> i < h + 1 + n \<longrightarrow> P i)" for P
    using ex_interval_Suc [of h n "\<lambda>i. \<not> P i"] by blast
  from this [of "\<lambda>i. bloom_bit ws (imr_lsm_bloom_hash key i bits)"] Suc show ?case
    by (simp add: Let_def test_bit_iff bloom_bit_def)
qed auto

text \<open>What the filter promises, whatever the number of insertions: a key that was added passes.\<close>

lemma bloom_fold_contains:
  assumes "j \<le> 14" "64 * length ws = 2 ^ j" "key \<in> set keys"
  shows "bloom_test_loop (fold (\<lambda>k w. imr_lsm_bloom_add w (2 ^ j) hashes k) keys ws) (2 ^ j) key 0 hashes"
proof -
  have mono: "bloom_bit ws' c \<Longrightarrow>
      bloom_bit (fold (\<lambda>k w. imr_lsm_bloom_add w (2 ^ j) hashes k) ks ws') c"
    if "64 * length ws' = 2 ^ j" "c < 2 ^ j" for ws' c ks
    using that
    by (induction ks arbitrary: ws') (simp_all add: imr_lsm_bloom_add_def bloom_add_loop_bits bloom_hash_less assms(1))
  have "bloom_bit (fold (\<lambda>k w. imr_lsm_bloom_add w (2 ^ j) hashes k) keys ws) (imr_lsm_bloom_hash key i (2 ^ j))"
    if "i < hashes" for i
    using assms(2,3)
  proof (induction keys arbitrary: ws)
    case (Cons k ks)
    let ?ws = "imr_lsm_bloom_add ws (2 ^ j) hashes k"
    show ?case
    proof (cases "k = key")
      case True
      have "bloom_bit ?ws (imr_lsm_bloom_hash key i (2 ^ j))"
        using Cons.prems True that bloom_hash_less [OF assms(1)]
        by (simp add: imr_lsm_bloom_add_def bloom_add_loop_bits) blast
      then show ?thesis using mono [of ?ws "imr_lsm_bloom_hash key i (2 ^ j)" ks] Cons.prems
        by (simp add: bloom_hash_less [OF assms(1)])
    next
      case False
      then show ?thesis using Cons by simp
    qed
  qed simp
  then show ?thesis by (simp add: bloom_test_loop_iff)
qed

end
