(* ===== verification/Imr_Segment.thy ===== *)
theory Imr_Segment
  imports Imr_Bloom
begin

text \<open>
  Segments of the in-kernel LSM and the builder that produces them, from \<open>dm-imrsim.c\<close>
  (\<open>struct imr_lsm_block_entry\<close>, \<open>struct imr_lsm_segment\<close>, \<open>imr_lsm_segment_builder_*\<close>,
  \<open>imr_lsm_segment_build_bloom\<close>, \<open>imr_lsm_prepare_segment\<close>, \<open>imr_lsm_segment_block_table_find\<close>).
  Arrays are lists, so \<open>block_table_count\<close> and \<open>bloom_word_count\<close> are their lengths.  Keys, sectors
  and timestamps are natural numbers, flags are booleans.  An allocation may fail: the functions
  that allocate take a script of allocation outcomes (an exhausted script means success) and return
  what is left of it.  The pointers of the invalid-entry accounting become values: an entry's
  \<open>accounting_segment\<close> is the identifier of its segment.
\<close>

section \<open>Memory and return codes\<close>

type_synonym memory = "bool list"

definition kalloc :: "memory \<Rightarrow> bool \<times> memory" where
  "kalloc m = (case m of [] \<Rightarrow> (True, []) | ok # m' \<Rightarrow> (ok, m'))"

type_synonym kret = int

abbreviation "K_ENOMEM \<equiv> (-12 :: kret)"
abbreviation "K_EBUSY \<equiv> (-16 :: kret)"
abbreviation "K_ENODEV \<equiv> (-19 :: kret)"
abbreviation "K_EINVAL \<equiv> (-22 :: kret)"
abbreviation "K_ENOSPC \<equiv> (-28 :: kret)"
abbreviation "K_ERANGE \<equiv> (-34 :: kret)"
abbreviation "K_EAGAIN \<equiv> (-11 :: kret)"
abbreviation "K_E2BIG \<equiv> (-7 :: kret)"
abbreviation "K_EUCLEAN \<equiv> (-117 :: kret)"

section \<open>Records\<close>

record imr_lsm_block_entry =
  be_key :: nat
  be_pba :: nat
  be_zone_idx :: nat
  source_pba :: nat
  output_pba :: nat
  source_pba_valid :: bool
  output_mapped :: bool
  output_copy_planned :: bool
  output_copied :: bool
  output_committed :: bool
  be_valid :: bool
  be_timestamp :: nat
  accounting_segment :: "nat option"
  newest_linked :: bool
  accounting_invalid :: bool
  accounting_obsolete :: bool
  accounting_delete_invalid :: bool

record imr_lsm_segment =
  seg_id :: nat
  seg_level :: nat
  seg_zone_idx :: nat
  seg_track_type :: nat
  retired :: bool
  invalid_stats_accounted :: bool
  seg_node_count :: nat
  seg_min_key :: nat
  seg_max_key :: nat
  seg_min_timestamp :: nat
  seg_max_timestamp :: nat
  bloom_key_count :: nat
  bloom_bits_count :: nat
  bloom_hash_count :: nat
  bloom_bits :: "u64 list"
  seg_block_table :: "imr_lsm_block_entry list"
  live_count :: nat
  invalid_count :: nat
  obsolete_count :: nat
  tombstone_count :: nat
  delete_invalid_count :: nat
  obsolete_ratio_permille :: nat
  compaction_candidate :: bool
  compaction_score :: nat
  read_hit_count :: nat
  last_read_timestamp :: nat
  placement_policy :: nat
  placement_target_track_type :: nat
  placement_bottom_track_start :: nat
  placement_bottom_track_end :: nat
  placement_bottom_key_start :: nat
  placement_bottom_key_end :: nat
  placement_top_track_start :: nat
  placement_top_track_end :: nat
  placement_top_pba_start :: nat
  placement_top_pba_end :: nat
  output_allocated :: bool
  output_track_type :: nat
  output_block_count :: nat
  output_pba_start :: nat
  output_pba_end :: nat

record imr_lsm_segment_builder =
  bld_node_count :: nat
  bld_zone_idx :: nat
  bld_min_key :: nat
  bld_max_key :: nat
  bld_min_timestamp :: nat
  bld_max_timestamp :: nat
  block_table_capacity :: nat
  bld_block_table :: "imr_lsm_block_entry list"

text \<open>\<open>memset(entry, 0, sizeof *entry)\<close>, \<open>kzalloc\<close> of a segment and \<open>builder = {0}\<close>.\<close>

definition zero_entry :: imr_lsm_block_entry where
  "zero_entry = \<lparr>be_key = 0, be_pba = 0, be_zone_idx = 0, source_pba = 0, output_pba = 0,
     source_pba_valid = False, output_mapped = False, output_copy_planned = False, output_copied = False,
     output_committed = False, be_valid = False, be_timestamp = 0, accounting_segment = None,
     newest_linked = False, accounting_invalid = False, accounting_obsolete = False,
     accounting_delete_invalid = False\<rparr>"

definition zero_segment :: imr_lsm_segment where
  "zero_segment = \<lparr>seg_id = 0, seg_level = 0, seg_zone_idx = 0, seg_track_type = 0, retired = False,
     invalid_stats_accounted = False, seg_node_count = 0, seg_min_key = 0, seg_max_key = 0,
     seg_min_timestamp = 0, seg_max_timestamp = 0, bloom_key_count = 0, bloom_bits_count = 0,
     bloom_hash_count = 0, bloom_bits = [], seg_block_table = [], live_count = 0, invalid_count = 0,
     obsolete_count = 0, tombstone_count = 0, delete_invalid_count = 0, obsolete_ratio_permille = 0,
     compaction_candidate = False, compaction_score = 0, read_hit_count = 0, last_read_timestamp = 0,
     placement_policy = 0, placement_target_track_type = 0, placement_bottom_track_start = 0,
     placement_bottom_track_end = 0, placement_bottom_key_start = 0, placement_bottom_key_end = 0,
     placement_top_track_start = 0, placement_top_track_end = 0, placement_top_pba_start = 0,
     placement_top_pba_end = 0, output_allocated = False, output_track_type = 0, output_block_count = 0,
     output_pba_start = 0, output_pba_end = 0\<rparr>"

definition zero_builder :: imr_lsm_segment_builder where
  "zero_builder = \<lparr>bld_node_count = 0, bld_zone_idx = 0, bld_min_key = 0, bld_max_key = 0,
     bld_min_timestamp = 0, bld_max_timestamp = 0, block_table_capacity = 0, bld_block_table = []\<rparr>"

text \<open>The payload of \<open>struct imr_lsm_unsorted_node\<close> and \<open>struct imr_lsm_sorted_node\<close>; a linked list
  of nodes is a list, its head first.\<close>

record imr_lsm_node =
  n_key :: nat
  n_pba :: nat
  n_zone_idx :: nat
  n_valid :: bool
  n_timestamp :: nat

section \<open>The builder\<close>

definition imr_lsm_segment_builder_release :: "imr_lsm_segment_builder \<Rightarrow> imr_lsm_segment_builder" where
  "imr_lsm_segment_builder_release builder = builder\<lparr>bld_block_table := [], block_table_capacity := 0\<rparr>"

text \<open>The size check against \<open>~0UL\<close> cannot fail for a 32-bit capacity on a 64-bit kernel.\<close>

definition imr_lsm_segment_builder_reserve_block_table ::
  "nat \<Rightarrow> imr_lsm_segment_builder \<Rightarrow> memory \<Rightarrow> kret \<times> imr_lsm_segment_builder \<times> memory" where
  "imr_lsm_segment_builder_reserve_block_table threshold builder m =
     (let cap = block_table_capacity builder
      in if length (bld_block_table builder) < cap then (0, builder, m)
         else if cap \<noteq> 0 \<and> cap > u32_max div 2 then (K_ENOMEM, builder, m)
         else
           let new_capacity = (if cap \<noteq> 0 then cap * 2 else threshold)
           in case kalloc m of
                (False, m') \<Rightarrow> (K_ENOMEM, builder, m')
              | (True, m') \<Rightarrow> (0, builder\<lparr>block_table_capacity := new_capacity\<rparr>, m'))"

definition insert_position :: "nat \<Rightarrow> imr_lsm_block_entry list \<Rightarrow> nat" where
  "insert_position key table =
     (if table \<noteq> [] \<and> be_key (last table) < key then length table
      else length (takeWhile (\<lambda>e. be_key e < key) table))"

definition imr_lsm_segment_builder_add_block_entry ::
  "nat \<Rightarrow> imr_lsm_node \<Rightarrow> imr_lsm_segment_builder \<Rightarrow> memory \<Rightarrow> kret \<times> imr_lsm_segment_builder \<times> memory" where
  "imr_lsm_segment_builder_add_block_entry threshold node builder m =
     (let table = bld_block_table builder; pos = insert_position (n_key node) table
      in if pos < length table \<and> be_key (table ! pos) = n_key node
         then
           (let entry = table ! pos
            in if n_timestamp node > be_timestamp entry
               then (0, builder\<lparr>bld_block_table := table[pos := entry\<lparr>
                       be_pba := n_pba node, be_zone_idx := n_zone_idx node, source_pba := 0, output_pba := 0,
                       source_pba_valid := False, output_mapped := False, output_copy_planned := False,
                       output_copied := False, output_committed := False, be_valid := n_valid node,
                       be_timestamp := n_timestamp node\<rparr>]\<rparr>, m)
               else (0, builder, m))
         else
           case imr_lsm_segment_builder_reserve_block_table threshold builder m of (ret, builder', m') \<Rightarrow>
             if ret \<noteq> 0 then (ret, builder', m')
             else (0, builder'\<lparr>bld_block_table := take pos table @
                     [zero_entry\<lparr>be_key := n_key node, be_pba := n_pba node, be_zone_idx := n_zone_idx node,
                        be_valid := n_valid node, be_timestamp := n_timestamp node\<rparr>] @ drop pos table\<rparr>, m'))"

definition widen_builder :: "nat \<Rightarrow> nat \<Rightarrow> imr_lsm_segment_builder \<Rightarrow> imr_lsm_segment_builder" where
  "widen_builder key timestamp builder = builder\<lparr>
     bld_min_key := (if key < bld_min_key builder then key else bld_min_key builder),
     bld_max_key := (if key > bld_max_key builder then key else bld_max_key builder),
     bld_min_timestamp := (if timestamp < bld_min_timestamp builder then timestamp else bld_min_timestamp builder),
     bld_max_timestamp := (if timestamp > bld_max_timestamp builder then timestamp else bld_max_timestamp builder)\<rparr>"

definition start_builder :: "nat \<Rightarrow> nat \<Rightarrow> nat \<Rightarrow> imr_lsm_segment_builder \<Rightarrow> imr_lsm_segment_builder" where
  "start_builder zone_idx key timestamp builder = builder\<lparr>bld_zone_idx := zone_idx, bld_min_key := key,
     bld_max_key := key, bld_min_timestamp := timestamp, bld_max_timestamp := timestamp\<rparr>"

definition imr_lsm_segment_builder_add ::
  "nat \<Rightarrow> imr_lsm_node \<Rightarrow> imr_lsm_segment_builder \<Rightarrow> memory \<Rightarrow> kret \<times> imr_lsm_segment_builder \<times> memory" where
  "imr_lsm_segment_builder_add threshold node builder m =
     (case imr_lsm_segment_builder_add_block_entry threshold node builder m of (ret, b1, m') \<Rightarrow>
        if ret \<noteq> 0 then (ret, b1, m')
        else
          let b2 = (if bld_node_count b1 = 0 then start_builder (n_zone_idx node) (n_key node) (n_timestamp node) b1
                    else widen_builder (n_key node) (n_timestamp node)
                      (if bld_zone_idx b1 \<noteq> n_zone_idx node
                       then b1\<lparr>bld_zone_idx := IMR_LSM_SEGMENT_ZONE_MIXED\<rparr> else b1))
          in (0, b2\<lparr>bld_node_count := bld_node_count b2 + 1\<rparr>, m'))"

text \<open>A loop that adds nodes until one fails.\<close>

fun builder_add_list ::
  "nat \<Rightarrow> imr_lsm_node list \<Rightarrow> imr_lsm_segment_builder \<Rightarrow> memory \<Rightarrow> kret \<times> imr_lsm_segment_builder \<times> memory" where
  "builder_add_list threshold [] builder m = (0, builder, m)"
| "builder_add_list threshold (node # nodes) builder m =
     (case imr_lsm_segment_builder_add threshold node builder m of (ret, builder', m') \<Rightarrow>
        if ret \<noteq> 0 then (ret, builder', m') else builder_add_list threshold nodes builder' m')"

text \<open>Zone compaction appends in physical order and sorts once at the end.\<close>

definition imr_lsm_segment_builder_append_zone_gc ::
  "nat \<Rightarrow> nat \<Rightarrow> nat \<Rightarrow> nat \<Rightarrow> nat \<Rightarrow> nat \<Rightarrow> imr_lsm_segment_builder \<Rightarrow> memory
    \<Rightarrow> kret \<times> imr_lsm_segment_builder \<times> memory" where
  "imr_lsm_segment_builder_append_zone_gc threshold key pba src_pba zone_idx timestamp builder m =
     (case imr_lsm_segment_builder_reserve_block_table threshold builder m of (ret, b1, m') \<Rightarrow>
        if ret \<noteq> 0 then (ret, b1, m')
        else
          let b2 = b1\<lparr>bld_block_table := bld_block_table b1 @
                [zero_entry\<lparr>be_key := key, be_pba := pba, be_zone_idx := zone_idx, source_pba := src_pba,
                   source_pba_valid := True, be_valid := True, be_timestamp := timestamp\<rparr>]\<rparr>;
              b3 = (if bld_node_count b2 = 0 then start_builder IMR_LSM_SEGMENT_ZONE_MIXED key timestamp b2
                    else widen_builder key timestamp b2)
          in (0, b3\<lparr>bld_node_count := bld_node_count b3 + 1\<rparr>, m'))"

definition imr_lsm_block_entry_key_compare :: "imr_lsm_block_entry \<Rightarrow> imr_lsm_block_entry \<Rightarrow> int" where
  "imr_lsm_block_entry_key_compare a b =
     (if be_key a < be_key b then -1 else if be_key a > be_key b then 1 else 0)"

section \<open>Bloom filter and publication\<close>

definition imr_lsm_bloom_may_contain :: "imr_lsm_segment \<Rightarrow> nat \<Rightarrow> bool" where
  "imr_lsm_bloom_may_contain segment key =
     (if bloom_bits segment = [] \<or> bloom_bits_count segment = 0 \<or> bloom_hash_count segment = 0 then True
      else bloom_test_loop (bloom_bits segment) (bloom_bits_count segment) key 0 (bloom_hash_count segment))"

definition imr_lsm_segment_build_bloom ::
  "imr_lsm_segment \<Rightarrow> nat \<Rightarrow> memory \<Rightarrow> kret \<times> imr_lsm_segment \<times> memory" where
  "imr_lsm_segment_build_bloom segment configured_bits_per_key m =
     (let key_count = length (seg_block_table segment);
          bits = imr_lsm_bloom_choose_bits key_count configured_bits_per_key;
          words = bits div 64;
          bits_per_key = (if key_count \<noteq> 0 then max 1 (bits div key_count) else configured_bits_per_key);
          hashes = imr_lsm_bloom_choose_hashes bits_per_key
      in case kalloc m of
           (False, m') \<Rightarrow> (K_ENOMEM, segment, m')
         | (True, m') \<Rightarrow>
             (0, segment\<lparr>bloom_key_count := key_count, bloom_bits_count := bits, bloom_hash_count := hashes,
                   bloom_bits := fold (\<lambda>e w. imr_lsm_bloom_add w bits hashes (be_key e))
                     (seg_block_table segment) (replicate words 0)\<rparr>, m'))"

text \<open>\<open>None\<close> is the result \<open>*prepared_segment = NULL\<close>.\<close>

definition imr_lsm_prepare_segment ::
  "nat \<Rightarrow> nat \<Rightarrow> imr_lsm_segment_builder \<Rightarrow> nat \<Rightarrow> memory
    \<Rightarrow> kret \<times> imr_lsm_segment option \<times> imr_lsm_segment_builder \<times> memory" where
  "imr_lsm_prepare_segment level track_type builder bloom_bits_per_key m =
     (if bld_node_count builder = 0 then (0, None, imr_lsm_segment_builder_release builder, m)
      else
        case kalloc m of
          (False, m1) \<Rightarrow> (K_ENOMEM, None, builder, m1)
        | (True, m1) \<Rightarrow>
            (case imr_lsm_segment_build_bloom
                    (zero_segment\<lparr>seg_level := level, seg_zone_idx := bld_zone_idx builder,
                       seg_track_type := track_type, seg_node_count := bld_node_count builder,
                       seg_min_key := bld_min_key builder, seg_max_key := bld_max_key builder,
                       seg_min_timestamp := bld_min_timestamp builder, seg_max_timestamp := bld_max_timestamp builder,
                       seg_block_table := bld_block_table builder\<rparr>) bloom_bits_per_key m1 of
               (ret, segment, m2) \<Rightarrow>
                 if ret \<noteq> 0 then (ret, None, builder, m2)
                 else (0, Some segment, imr_lsm_segment_builder_release builder, m2)))"

section \<open>Lookup\<close>

function block_table_search :: "imr_lsm_block_entry list \<Rightarrow> nat \<Rightarrow> nat \<Rightarrow> nat \<Rightarrow> imr_lsm_block_entry option" where
  "block_table_search table key left right =
     (if left < right
      then
        let mid = left + (right - left) div 2; candidate = table ! mid
        in if be_key candidate = key then Some candidate
           else if be_key candidate < key then block_table_search table key (mid + 1) right
           else block_table_search table key left mid
      else None)"
  by pat_completeness auto
termination by (relation "measure (\<lambda>(_, _, l, r). r - l)") auto

declare block_table_search.simps [simp del]

definition imr_lsm_segment_block_table_find :: "imr_lsm_segment \<Rightarrow> nat \<Rightarrow> imr_lsm_block_entry option" where
  "imr_lsm_segment_block_table_find segment key =
     block_table_search (seg_block_table segment) key 0 (length (seg_block_table segment))"

section \<open>Block tables as ordered maps\<close>

definition table_ok :: "imr_lsm_block_entry list \<Rightarrow> bool" where
  "table_ok table \<longleftrightarrow> sorted_wrt (\<lambda>a b. be_key a < be_key b) table"

definition table_find :: "imr_lsm_block_entry list \<Rightarrow> nat \<Rightarrow> imr_lsm_block_entry option" where
  "table_find table key = find (\<lambda>e. be_key e = key) table"

lemma table_ok_nth: "table_ok t \<Longrightarrow> i < j \<Longrightarrow> j < length t \<Longrightarrow> be_key (t ! i) < be_key (t ! j)"
  by (simp add: table_ok_def sorted_wrt_iff_nth_less)

lemma table_ok_inj: "table_ok t \<Longrightarrow> i < length t \<Longrightarrow> j < length t \<Longrightarrow> be_key (t ! i) = be_key (t ! j) \<Longrightarrow> i = j"
  using table_ok_nth [of t i j] table_ok_nth [of t j i] by (cases i j rule: linorder_cases) auto

lemma table_find_Some:
  assumes "table_ok t"
  shows "table_find t key = Some e \<longleftrightarrow> e \<in> set t \<and> be_key e = key"
proof
  assume "table_find t key = Some e"
  then show "e \<in> set t \<and> be_key e = key" by (auto simp: table_find_def find_Some_iff in_set_conv_nth)
next
  assume a: "e \<in> set t \<and> be_key e = key"
  then obtain i where i: "i < length t" "t ! i = e" by (auto simp: in_set_conv_nth)
  have "be_key (t ! j) \<noteq> key" if "j < i" for j using table_ok_nth [OF assms that i(1)] a i(2) by simp
  then show "table_find t key = Some e" using a i by (auto simp: table_find_def find_Some_iff intro!: exI [of _ i])
qed

lemma table_find_None: "table_find t key = None \<longleftrightarrow> (\<forall>e \<in> set t. be_key e \<noteq> key)"
  by (auto simp: table_find_def find_None_iff)

lemma block_table_search_correct:
  assumes "table_ok t" "right \<le> length t"
    "\<forall>i < length t. be_key (t ! i) = key \<longrightarrow> left \<le> i \<and> i < right"
  shows "block_table_search t key left right = table_find t key"
  using assms
proof (induction t key left right rule: block_table_search.induct)
  case (1 t key left right)
  show ?case
  proof (cases "left < right")
    case False
    then have "table_find t key = None" using 1(5) by (force simp: table_find_None in_set_conv_nth)
    then show ?thesis using False by (simp add: block_table_search.simps)
  next
    case True
    define mid where "mid = left + (right - left) div 2"
    have m: "left \<le> mid" "mid < right" "mid < length t" using True 1(4) by (auto simp: mid_def)
    consider "be_key (t ! mid) = key" | "be_key (t ! mid) < key" | "key < be_key (t ! mid)" by linarith
    then show ?thesis
    proof cases
      case 1
      then have "table_find t key = Some (t ! mid)" using m(3) by (simp add: table_find_Some [OF \<open>table_ok t\<close>])
      with 1 True show ?thesis by (simp add: block_table_search.simps [of t key left right] Let_def mid_def)
    next
      case 2
      have "mid < i" if "i < length t" "be_key (t ! i) = key" for i
        using 2 that table_ok_nth [OF \<open>table_ok t\<close>, of i mid] m(3) by (cases i mid rule: linorder_cases) auto
      then have "\<forall>i < length t. be_key (t ! i) = key \<longrightarrow> mid + 1 \<le> i \<and> i < right" using 1(5) by (simp add: Suc_le_eq)
      from 1(1) [OF True mid_def refl _ _ \<open>table_ok t\<close> 1(4) this] 2 True show ?thesis
        by (simp add: block_table_search.simps [of t key left right] Let_def mid_def [symmetric])
    next
      case 3
      have "i < mid" if "i < length t" "be_key (t ! i) = key" for i
        using 3 that table_ok_nth [OF \<open>table_ok t\<close>, of mid i] m(3) by (cases i mid rule: linorder_cases) auto
      then have "\<forall>i < length t. be_key (t ! i) = key \<longrightarrow> left \<le> i \<and> i < mid" using 1(5) by auto
      from 1(2) [OF True mid_def refl _ _ \<open>table_ok t\<close> _ this] 3 True m(3) show ?thesis
        by (simp add: block_table_search.simps [of t key left right] Let_def mid_def [symmetric])
    qed
  qed
qed

lemma block_table_find_correct:
  "table_ok (seg_block_table s) \<Longrightarrow> imr_lsm_segment_block_table_find s key = table_find (seg_block_table s) key"
  by (simp add: imr_lsm_segment_block_table_find_def block_table_search_correct)

section \<open>What a record says\<close>

text \<open>A version of a key, as nodes and entries carry it: timestamp, physical address, validity.\<close>

type_synonym version = "nat \<times> nat \<times> bool"

definition entry_version :: "imr_lsm_block_entry \<Rightarrow> version" where
  "entry_version e = (be_timestamp e, be_pba e, be_valid e)"

definition node_version :: "imr_lsm_node \<Rightarrow> version" where
  "node_version n = (n_timestamp n, n_pba n, n_valid n)"

definition best :: "version option \<Rightarrow> version \<Rightarrow> version option" where
  "best a r = (case a of None \<Rightarrow> Some r | Some v \<Rightarrow> if fst v < fst r then Some r else Some v)"

definition table_version :: "imr_lsm_block_entry list \<Rightarrow> nat \<Rightarrow> version option" where
  "table_version t key = map_option entry_version (table_find t key)"

lemma insert_position_takeWhile:
  assumes "table_ok t"
  shows "insert_position key t = length (takeWhile (\<lambda>e. be_key e < key) t)"
proof (cases "t \<noteq> [] \<and> be_key (last t) < key")
  case True
  have "be_key e < key" if e: "e \<in> set t" for e
  proof -
    obtain i where i: "i < length t" "t ! i = e" using e by (auto simp: in_set_conv_nth)
    have ne: "t \<noteq> []" using e by auto
    have "be_key e \<le> be_key (last t)"
    proof (cases "i = length t - 1")
      case True then show ?thesis using i ne by (simp add: last_conv_nth)
    next
      case False
      then have "be_key (t ! i) < be_key (t ! (length t - 1))" using i by (intro table_ok_nth [OF assms]) auto
      then show ?thesis using i ne by (simp add: last_conv_nth)
    qed
    then show ?thesis using True by simp
  qed
  then have w: "takeWhile (\<lambda>e. be_key e < key) t = t" by (simp add: takeWhile_eq_all_conv)
  show ?thesis unfolding insert_position_def w using True by simp
qed (auto simp: insert_position_def)

text \<open>The table splits at the insertion position into smaller and not smaller keys.\<close>

lemma insert_position_split:
  assumes "table_ok t" "pos = insert_position key t"
  shows "t = take pos t @ drop pos t" "pos \<le> length t" "\<forall>e \<in> set (take pos t). be_key e < key"
    "\<forall>e \<in> set (drop pos t). key \<le> be_key e"
    "(\<exists>e \<in> set t. be_key e = key) \<longleftrightarrow> pos < length t \<and> be_key (t ! pos) = key"
proof -
  let ?P = "\<lambda>e. be_key e < key"
  have p: "pos = length (takeWhile ?P t)" using insert_position_takeWhile [OF assms(1)] assms(2) by simp
  have tk: "take pos t = takeWhile ?P t" "drop pos t = dropWhile ?P t"
    by (simp_all add: p takeWhile_eq_take [symmetric] dropWhile_eq_drop [symmetric])
  show "t = take pos t @ drop pos t" "pos \<le> length t" by (simp_all add: p length_takeWhile_le)
  show 1: "\<forall>e \<in> set (take pos t). be_key e < key" by (auto simp: tk dest: set_takeWhileD)
  show 2: "\<forall>e \<in> set (drop pos t). key \<le> be_key e"
  proof (cases "drop pos t")
    case (Cons a xs)
    have a: "key \<le> be_key a" using Cons tk(2) hd_dropWhile [of ?P t] by (auto simp: not_less)
    have "sorted_wrt (\<lambda>a b. be_key a < be_key b) (drop pos t)"
      using assms(1) by (simp add: table_ok_def sorted_wrt_drop)
    then show ?thesis using a by (fastforce simp: Cons)
  qed simp
  show "(\<exists>e \<in> set t. be_key e = key) \<longleftrightarrow> pos < length t \<and> be_key (t ! pos) = key"
  proof
    assume "\<exists>e \<in> set t. be_key e = key"
    then obtain e where e: "e \<in> set t" "be_key e = key" by blast
    have "e \<in> set (take pos t) \<union> set (drop pos t)" using e(1) by (metis append_take_drop_id set_append)
    then have d: "e \<in> set (drop pos t)" using 1 e(2) by auto
    then have l: "pos < length t" by (cases "pos < length t") auto
    then have c: "drop pos t = t ! pos # drop (Suc pos) t" by (simp add: Cons_nth_drop_Suc)
    have "sorted_wrt (\<lambda>a b. be_key a < be_key b) (drop pos t)"
      using assms(1) by (simp add: table_ok_def sorted_wrt_drop)
    then have "e = t ! pos \<or> be_key (t ! pos) < be_key e" using d by (auto simp: c)
    moreover have "key \<le> be_key (t ! pos)" using 2 by (simp add: c)
    ultimately show "pos < length t \<and> be_key (t ! pos) = key" using l e(2) by auto
  qed (auto intro: nth_mem)
qed

lemma table_version_None: "table_version t k = None \<longleftrightarrow> (\<forall>e \<in> set t. be_key e \<noteq> k)"
  by (simp add: table_version_def table_find_None)

lemma table_version_Some:
  "table_ok t \<Longrightarrow> table_version t k = Some v \<longleftrightarrow> (\<exists>e \<in> set t. be_key e = k \<and> entry_version e = v)"
  by (auto simp: table_version_def table_find_Some)

lemma reserve_frame:
  "imr_lsm_segment_builder_reserve_block_table th b m = (ret, b', m') \<Longrightarrow>
     bld_block_table b' = bld_block_table b \<and> bld_node_count b' = bld_node_count b \<and>
     bld_zone_idx b' = bld_zone_idx b \<and> bld_min_key b' = bld_min_key b \<and> bld_max_key b' = bld_max_key b \<and>
     bld_min_timestamp b' = bld_min_timestamp b \<and> bld_max_timestamp b' = bld_max_timestamp b"
  by (auto simp: imr_lsm_segment_builder_reserve_block_table_def Let_def split: if_splits prod.splits bool.splits)

lemma table_ok_cong: "map be_key t' = map be_key t \<Longrightarrow> table_ok t \<Longrightarrow> table_ok t'"
  by (simp add: table_ok_def sorted_wrt_map [of "(<)" be_key, symmetric])

lemma table_find_cong:
  assumes "table_ok t" "table_ok t'" "\<And>e. be_key e = k \<Longrightarrow> e \<in> set t' \<longleftrightarrow> e \<in> set t"
  shows "table_find t' k = table_find t k"
proof (cases "table_find t k")
  case None
  then have "table_find t' k = None" using assms(3) by (auto simp: table_find_None)
  with None show ?thesis by simp
next
  case (Some e)
  then have "e \<in> set t" "be_key e = k" by (simp_all add: table_find_Some [OF assms(1)])
  then have "table_find t' k = Some e" using assms(3) by (simp add: table_find_Some [OF assms(2)])
  with Some show ?thesis by simp
qed

lemma table_update:
  assumes "table_ok t" "pos < length t" "be_key e' = be_key (t ! pos)"
  shows "table_ok (t[pos := e'])"
    "table_version (t[pos := e']) k = (if k = be_key e' then Some (entry_version e') else table_version t k)"
proof -
  have "map be_key (t[pos := e']) = map be_key t"
    using assms(2,3) by (simp add: map_update list_update_same_conv)
  then show ok: "table_ok (t[pos := e'])" using assms(1) by (rule table_ok_cong)
  show "table_version (t[pos := e']) k = (if k = be_key e' then Some (entry_version e') else table_version t k)"
  proof (cases "k = be_key e'")
    case True
    then show ?thesis using assms(2) by (auto simp: table_version_Some [OF ok] intro!: set_update_memI)
  next
    case False
    have "e \<in> set (t[pos := e']) \<longleftrightarrow> e \<in> set t" if k: "be_key e = k" for e
    proof
      assume "e \<in> set (t[pos := e'])"
      then show "e \<in> set t" using set_update_subset_insert [of t pos e'] False k by auto
    next
      assume "e \<in> set t"
      then obtain i where i: "i < length t" "t ! i = e" by (auto simp: in_set_conv_nth)
      then have "i \<noteq> pos" using k False assms(3) by auto
      then have "t[pos := e'] ! i = e" using i by simp
      then show "e \<in> set (t[pos := e'])" using i(1) by (metis length_list_update nth_mem)
    qed
    then have "table_find (t[pos := e']) k = table_find t k" by (rule table_find_cong [OF assms(1) ok])
    with False show ?thesis by (simp add: table_version_def)
  qed
qed

lemma table_insert:
  assumes "table_ok t" "pos = insert_position (be_key e') t" "\<forall>e \<in> set t. be_key e \<noteq> be_key e'"
  shows "table_ok (take pos t @ e' # drop pos t)"
    "table_version (take pos t @ e' # drop pos t) k =
      (if k = be_key e' then Some (entry_version e') else table_version t k)"
proof -
  note sp = insert_position_split [OF assms(1,2)]
  have set: "set (take pos t @ e' # drop pos t) = insert e' (set t)"
    by (subst (3) sp(1)) (auto simp del: append_take_drop_id)
  have lt: "\<forall>e \<in> set (drop pos t). be_key e' < be_key e"
    using sp(4) assms(3) by (metis in_set_dropD le_neq_implies_less)
  have "sorted_wrt (\<lambda>a b. be_key a < be_key b) (take pos t @ drop pos t)" using assms(1) by (simp add: table_ok_def)
  then have "\<forall>a \<in> set (take pos t). \<forall>b \<in> set (drop pos t). be_key a < be_key b"
    "sorted_wrt (\<lambda>a b. be_key a < be_key b) (take pos t)" "sorted_wrt (\<lambda>a b. be_key a < be_key b) (drop pos t)"
    by (simp_all only: sorted_wrt_append) auto
  then show ok: "table_ok (take pos t @ e' # drop pos t)"
    using sp(3) lt by (auto simp: table_ok_def sorted_wrt_append)
  show "table_version (take pos t @ e' # drop pos t) k =
      (if k = be_key e' then Some (entry_version e') else table_version t k)"
  proof (cases "k = be_key e'")
    case True
    then show ?thesis by (auto simp: table_version_Some [OF ok])
  next
    case False
    then have "table_find (take pos t @ e' # drop pos t) k = table_find t k"
      by (intro table_find_cong [OF assms(1) ok]) (subst set, auto)
    with False show ?thesis by (simp add: table_version_def)
  qed
qed

text \<open>Adding a node to the builder: the table stays ordered and keeps the newest version per key.\<close>

lemma add_block_entry_correct:
  assumes "table_ok (bld_block_table b)"
    "imr_lsm_segment_builder_add_block_entry th node b m = (ret, b', m')"
  shows "table_ok (bld_block_table b')"
    "ret = 0 \<Longrightarrow> table_version (bld_block_table b') k =
      (if k = n_key node then best (table_version (bld_block_table b) k) (node_version node)
       else table_version (bld_block_table b) k)"
    "ret \<noteq> 0 \<Longrightarrow> bld_block_table b' = bld_block_table b"
    "bld_node_count b' = bld_node_count b" "bld_zone_idx b' = bld_zone_idx b" "bld_min_key b' = bld_min_key b"
    "bld_max_key b' = bld_max_key b" "bld_min_timestamp b' = bld_min_timestamp b"
    "bld_max_timestamp b' = bld_max_timestamp b"
proof -
  define t pos where "t = bld_block_table b" and "pos = insert_position (n_key node) t"
  note sp = insert_position_split [OF assms(1) [folded t_def] pos_def]
  note def = assms(2) [unfolded imr_lsm_segment_builder_add_block_entry_def Let_def, folded t_def, folded pos_def]
  have "table_ok (bld_block_table b') \<and>
    (ret = 0 \<longrightarrow> table_version (bld_block_table b') k =
      (if k = n_key node then best (table_version (bld_block_table b) k) (node_version node)
       else table_version (bld_block_table b) k)) \<and>
    (ret \<noteq> 0 \<longrightarrow> bld_block_table b' = bld_block_table b) \<and>
    bld_node_count b' = bld_node_count b \<and> bld_zone_idx b' = bld_zone_idx b \<and> bld_min_key b' = bld_min_key b \<and>
    bld_max_key b' = bld_max_key b \<and> bld_min_timestamp b' = bld_min_timestamp b \<and>
    bld_max_timestamp b' = bld_max_timestamp b" (is ?concl)
  proof (cases "pos < length t \<and> be_key (t ! pos) = n_key node")
    case True
    then have v: "table_version t (n_key node) = Some (entry_version (t ! pos))"
      using assms(1) by (auto simp: table_version_Some t_def)
    have ok: "table_ok t" using assms(1) by (simp add: t_def)
    show ?thesis
    proof (cases "be_timestamp (t ! pos) < n_timestamp node")
      case newer: True
      with def True v ok show ?thesis
        by (auto simp: t_def [symmetric] best_def entry_version_def node_version_def table_update)
    next
      case False
      with def True have "ret = 0 \<and> b' = b" by auto
      with False v ok show ?thesis
        by (auto simp: t_def [symmetric] best_def entry_version_def node_version_def)
    qed
  next
    case False
    then have no: "\<forall>e \<in> set t. be_key e \<noteq> n_key node" using sp(5) by blast
    obtain r b1 m1 where r: "imr_lsm_segment_builder_reserve_block_table th b m = (r, b1, m1)"
      by (cases "imr_lsm_segment_builder_reserve_block_table th b m") auto
    note f = reserve_frame [OF r]
    let ?e = "zero_entry\<lparr>be_key := n_key node, be_pba := n_pba node, be_zone_idx := n_zone_idx node,
                        be_valid := n_valid node, be_timestamp := n_timestamp node\<rparr>"
    have i: "table_ok (take pos t @ ?e # drop pos t)"
      "table_version (take pos t @ ?e # drop pos t) k =
        (if k = n_key node then Some (entry_version ?e) else table_version t k)"
      using table_insert(1) [of t pos ?e] table_insert(2) [of t pos ?e k] assms(1) pos_def no by (simp_all add: t_def)
    have n: "table_version t (n_key node) = None" using no by (simp add: table_version_None)
    show ?thesis
      using def assms(1) False f i n r
      by (auto simp: t_def [symmetric] best_def entry_version_def node_version_def split: if_splits)
  qed
  then show "table_ok (bld_block_table b')"
    "ret = 0 \<Longrightarrow> table_version (bld_block_table b') k =
      (if k = n_key node then best (table_version (bld_block_table b) k) (node_version node)
       else table_version (bld_block_table b) k)"
    "ret \<noteq> 0 \<Longrightarrow> bld_block_table b' = bld_block_table b"
    "bld_node_count b' = bld_node_count b" "bld_zone_idx b' = bld_zone_idx b" "bld_min_key b' = bld_min_key b"
    "bld_max_key b' = bld_max_key b" "bld_min_timestamp b' = bld_min_timestamp b"
    "bld_max_timestamp b' = bld_max_timestamp b" by blast+
qed

definition builder_ok :: "imr_lsm_segment_builder \<Rightarrow> bool" where
  "builder_ok b \<longleftrightarrow> table_ok (bld_block_table b) \<and> (bld_node_count b = 0 \<longleftrightarrow> bld_block_table b = []) \<and>
     (\<forall>e \<in> set (bld_block_table b). bld_min_key b \<le> be_key e \<and> be_key e \<le> bld_max_key b \<and>
        bld_min_timestamp b \<le> be_timestamp e \<and> be_timestamp e \<le> bld_max_timestamp b)"

definition versions_of :: "imr_lsm_node list \<Rightarrow> nat \<Rightarrow> version list" where
  "versions_of ns k = map node_version (filter (\<lambda>n. n_key n = k) ns)"

lemma builder_ok_zero [simp]: "builder_ok zero_builder"
  by (simp add: builder_ok_def zero_builder_def table_ok_def)

lemma table_version_Nil [simp]: "table_version [] k = None"
  by (simp add: table_version_def table_find_def)

lemma table_version_mem:
  assumes "table_ok t" "e \<in> set t"
  shows "table_version t (be_key e) = Some (entry_version e)"
  using assms by (auto simp: table_version_Some)

lemma best_Some: "best a r \<noteq> None"
  by (cases a; cases r) (simp_all add: best_def split_paired_all)

lemma best_cases: "best a r = Some v \<Longrightarrow> v = r \<or> a = Some v"
  by (auto simp: best_def split: option.splits if_splits)

lemma builder_add_correct:
  assumes "builder_ok b" "imr_lsm_segment_builder_add th node b m = (ret, b', m')"
  shows "ret = 0 \<Longrightarrow> builder_ok b'" "table_ok (bld_block_table b')"
    "ret = 0 \<Longrightarrow> table_version (bld_block_table b') k =
      (if k = n_key node then best (table_version (bld_block_table b) k) (node_version node)
       else table_version (bld_block_table b) k)"
    "ret = 0 \<Longrightarrow> bld_node_count b' \<noteq> 0"
proof -
  obtain r b1 m1 where a: "imr_lsm_segment_builder_add_block_entry th node b m = (r, b1, m1)"
    by (cases "imr_lsm_segment_builder_add_block_entry th node b m") auto
  have ok: "table_ok (bld_block_table b)" using assms(1) by (simp add: builder_ok_def)
  note f = add_block_entry_correct [OF ok a]
  have tb: "bld_block_table b' = bld_block_table b1" "ret = r"
    using assms(2) a by (auto simp: imr_lsm_segment_builder_add_def Let_def widen_builder_def start_builder_def split: if_splits)
  show "table_ok (bld_block_table b')" using f(1) tb by simp
  assume ret: "ret = 0"
  then have r0: "r = 0" using tb by simp
  show v: "table_version (bld_block_table b') k =
      (if k = n_key node then best (table_version (bld_block_table b) k) (node_version node)
       else table_version (bld_block_table b) k)" using f(2) [OF r0] tb by simp
  show "bld_node_count b' \<noteq> 0"
    using assms(2) a r0 by (auto simp: imr_lsm_segment_builder_add_def Let_def)
  have mem: "be_key e = n_key node \<and> be_timestamp e = n_timestamp node \<or>
      (\<exists>e0 \<in> set (bld_block_table b). be_key e0 = be_key e \<and> be_timestamp e0 = be_timestamp e)"
    if e: "e \<in> set (bld_block_table b1)" for e
  proof -
    have "Some (entry_version e) = (if be_key e = n_key node then best (table_version (bld_block_table b) (be_key e))
        (node_version node) else table_version (bld_block_table b) (be_key e))"
      using table_version_mem [OF f(1) e] f(2) [OF r0, of "be_key e"] by simp
    then have "be_key e = n_key node \<and> entry_version e = node_version node \<or>
        table_version (bld_block_table b) (be_key e) = Some (entry_version e)"
      using best_cases by (metis)
    then show ?thesis using table_version_Some [OF ok] by (auto simp: entry_version_def node_version_def)
  qed
  have ne: "bld_block_table b1 \<noteq> []"
    using f(2) [OF r0, of "n_key node"] best_Some [of "table_version (bld_block_table b) (n_key node)" "node_version node"]
    by (metis table_version_Nil)
  show "builder_ok b'"
  proof (cases "bld_node_count b = 0")
    case True
    then have "bld_block_table b = []" using assms(1) by (simp add: builder_ok_def)
    with mem have m: "\<forall>e \<in> set (bld_block_table b1). be_key e = n_key node \<and> be_timestamp e = n_timestamp node" by auto
    show ?thesis using m ne f(1,4) True r0 assms(2) a
      by (auto simp: builder_ok_def imr_lsm_segment_builder_add_def Let_def start_builder_def)
  next
    case False
    have bounds: "\<forall>e \<in> set (bld_block_table b). bld_min_key b \<le> be_key e \<and> be_key e \<le> bld_max_key b \<and>
        bld_min_timestamp b \<le> be_timestamp e \<and> be_timestamp e \<le> bld_max_timestamp b"
      using assms(1) by (simp add: builder_ok_def)
    have b': "bld_block_table b' = bld_block_table b1" "bld_node_count b' \<noteq> 0"
      "bld_min_key b' = min (n_key node) (bld_min_key b)" "bld_max_key b' = max (n_key node) (bld_max_key b)"
      "bld_min_timestamp b' = min (n_timestamp node) (bld_min_timestamp b)"
      "bld_max_timestamp b' = max (n_timestamp node) (bld_max_timestamp b)"
      using False f(4-9) r0 assms(2) a
      by (auto simp: imr_lsm_segment_builder_add_def Let_def widen_builder_def)
    have "bld_min_key b' \<le> be_key e \<and> be_key e \<le> bld_max_key b' \<and>
        bld_min_timestamp b' \<le> be_timestamp e \<and> be_timestamp e \<le> bld_max_timestamp b'"
      if "e \<in> set (bld_block_table b1)" for e
      using mem [OF that] bounds unfolding b' by fastforce
    then show ?thesis using ne f(1) b' by (simp add: builder_ok_def)
  qed
qed

lemma builder_add_list_correct:
  assumes "builder_ok b" "builder_add_list th ns b m = (0, b', m')"
  shows "builder_ok b' \<and> (ns \<noteq> [] \<or> bld_node_count b \<noteq> 0 \<longrightarrow> bld_node_count b' \<noteq> 0) \<and>
    table_version (bld_block_table b') k = foldl best (table_version (bld_block_table b) k) (versions_of ns k)"
  using assms
proof (induction ns arbitrary: b m)
  case (Cons n ns)
  obtain r b1 m1 where a: "imr_lsm_segment_builder_add th n b m = (r, b1, m1)"
    by (cases "imr_lsm_segment_builder_add th n b m") auto
  with Cons.prems have r: "r = 0" and rest: "builder_add_list th ns b1 m1 = (0, b', m')" by (auto split: if_splits)
  note f = builder_add_correct [OF Cons.prems(1) a]
  show ?case using Cons.IH [OF f(1) [OF r] rest] f(3) [OF r, of k] f(4) [OF r] by (auto simp: versions_of_def)
qed (simp add: versions_of_def)

section \<open>Segments\<close>

definition seg_ok :: "imr_lsm_segment \<Rightarrow> bool" where
  "seg_ok s \<longleftrightarrow> table_ok (seg_block_table s) \<and> seg_block_table s \<noteq> [] \<and>
     (\<forall>e \<in> set (seg_block_table s). seg_min_key s \<le> be_key e \<and> be_key e \<le> seg_max_key s \<and>
        imr_lsm_bloom_may_contain s (be_key e))"

text \<open>What a lookup in the segment yields, with its key-range and Bloom shortcuts.\<close>

definition segment_version :: "imr_lsm_segment \<Rightarrow> nat \<Rightarrow> version option" where
  "segment_version s key =
     (if key < seg_min_key s \<or> key > seg_max_key s then None
      else if \<not> (bloom_key_count s = 0 \<or> imr_lsm_bloom_may_contain s key) then None
      else map_option entry_version (imr_lsm_segment_block_table_find s key))"

lemma segment_version_table: "seg_ok s \<Longrightarrow> segment_version s key = table_version (seg_block_table s) key"
proof -
  assume ok: "seg_ok s"
  then have t: "table_ok (seg_block_table s)" by (simp add: seg_ok_def)
  show ?thesis
  proof (cases "table_version (seg_block_table s) key")
    case None
    then show ?thesis using block_table_find_correct [OF t]
      by (simp add: segment_version_def table_version_def)
  next
    case (Some v)
    then obtain e where "e \<in> set (seg_block_table s)" "be_key e = key" by (auto simp: table_version_Some [OF t])
    then show ?thesis using ok block_table_find_correct [OF t]
      by (force simp: seg_ok_def segment_version_def table_version_def)
  qed
qed

lemma build_bloom_correct:
  assumes "imr_lsm_segment_build_bloom s bpk m = (0, s', m')"
  shows "seg_block_table s' = seg_block_table s" "seg_min_key s' = seg_min_key s" "seg_max_key s' = seg_max_key s"
    "seg_level s' = seg_level s" "retired s' = retired s" "seg_max_timestamp s' = seg_max_timestamp s"
    "seg_id s' = seg_id s"
    "\<forall>e \<in> set (seg_block_table s). imr_lsm_bloom_may_contain s' (be_key e)"
proof -
  define bits where "bits = imr_lsm_bloom_choose_bits (length (seg_block_table s)) bpk"
  obtain j where j: "8 \<le> j" "j \<le> 14" "bits = 2 ^ j" using choose_bits_power bits_def by metis
  then obtain i where i: "j = 6 + i" using le_Suc_ex [of 6 j] by auto
  have w: "64 * (bits div 64) = 2 ^ j" by (simp add: j(3) i power_add)
  obtain hs where s': "s' = s\<lparr>bloom_key_count := length (seg_block_table s), bloom_bits_count := bits,
      bloom_hash_count := hs, bloom_bits := fold (\<lambda>e w. imr_lsm_bloom_add w bits hs (be_key e))
                     (seg_block_table s) (replicate (bits div 64) 0)\<rparr>"
    using assms by (auto simp: imr_lsm_segment_build_bloom_def Let_def bits_def split: prod.splits bool.splits)
  then show "seg_block_table s' = seg_block_table s" "seg_min_key s' = seg_min_key s" "seg_max_key s' = seg_max_key s"
    "seg_level s' = seg_level s" "retired s' = retired s" "seg_max_timestamp s' = seg_max_timestamp s"
    "seg_id s' = seg_id s" by simp_all
  have fold: "fold (\<lambda>k w. imr_lsm_bloom_add w (2 ^ j) hs k) (map be_key (seg_block_table s)) ws =
      fold (\<lambda>e w. imr_lsm_bloom_add w (2 ^ j) hs (be_key e)) (seg_block_table s) ws" for ws
    by (simp add: fold_map comp_def)
  have "bloom_test_loop (bloom_bits s') (bloom_bits_count s') (be_key e) 0 hs"
    if "e \<in> set (seg_block_table s)" for e
    using bloom_fold_contains [OF j(2), of "replicate (bits div 64) 0" "be_key e" "map be_key (seg_block_table s)" hs] w that
    by (simp add: s' fold j(3))
  then show "\<forall>e \<in> set (seg_block_table s). imr_lsm_bloom_may_contain s' (be_key e)"
    by (simp add: imr_lsm_bloom_may_contain_def s')
qed

lemma prepare_segment_correct:
  assumes "builder_ok b" "imr_lsm_prepare_segment level track b bpk m = (0, Some s, b', m')"
  shows "seg_ok s" "seg_block_table s = bld_block_table b" "seg_level s = level" "\<not> retired s"
proof -
  let ?z = "zero_segment\<lparr>seg_level := level, seg_zone_idx := bld_zone_idx b,
                       seg_track_type := track, seg_node_count := bld_node_count b,
                       seg_min_key := bld_min_key b, seg_max_key := bld_max_key b,
                       seg_min_timestamp := bld_min_timestamp b, seg_max_timestamp := bld_max_timestamp b,
                       seg_block_table := bld_block_table b\<rparr>"
  obtain m1 m2 where n: "bld_node_count b \<noteq> 0" and bb: "imr_lsm_segment_build_bloom ?z bpk m1 = (0, s, m2)"
    using assms(2) by (auto simp: imr_lsm_prepare_segment_def split: if_splits prod.splits bool.splits)
  note f = build_bloom_correct [OF bb]
  show "seg_block_table s = bld_block_table b" "seg_level s = level" "\<not> retired s"
    using f by (simp_all add: zero_segment_def)
  show "seg_ok s" using f assms(1) n by (simp add: seg_ok_def builder_ok_def)
qed

section \<open>Properties\<close>

text \<open>C13. A segment built from any sequence of nodes answers every key with the newest version that
  was put in (the first one among equal timestamps) and answers nothing for other keys: the key
  range, the Bloom filter and the binary search never hide a record.\<close>

theorem segment_build_lookup:
  assumes "builder_add_list threshold nodes zero_builder m = (0, b, m1)"
    "imr_lsm_prepare_segment level track b bits_per_key m1 = (0, Some s, b', m2)"
  shows "segment_version s key = foldl best None (versions_of nodes key)"
proof -
  have b: "builder_ok b" "table_version (bld_block_table b) key = foldl best None (versions_of nodes key)"
    using builder_add_list_correct [OF builder_ok_zero assms(1), of key]
    by (simp_all add: zero_builder_def table_version_def table_find_def)
  note p = prepare_segment_correct [OF b(1) assms(2)]
  show ?thesis using segment_version_table [OF p(1)] p(2) b(2) by simp
qed

definition demo_nodes :: "imr_lsm_node list" where
  "demo_nodes = [\<lparr>n_key = 9, n_pba = 80, n_zone_idx = 0, n_valid = True, n_timestamp = 1\<rparr>,
     \<lparr>n_key = 4, n_pba = 88, n_zone_idx = 0, n_valid = True, n_timestamp = 2\<rparr>,
     \<lparr>n_key = 9, n_pba = 96, n_zone_idx = 1, n_valid = True, n_timestamp = 3\<rparr>]"

lemma demo_build:
  "\<exists>b s b'. builder_add_list 16 demo_nodes zero_builder [] = (0, b, []) \<and>
     imr_lsm_prepare_segment 2 1 b 10 [] = (0, Some s, b', [])"
  by (simp add: demo_nodes_def imr_lsm_segment_builder_add_def imr_lsm_segment_builder_add_block_entry_def
      imr_lsm_segment_builder_reserve_block_table_def insert_position_def kalloc_def zero_builder_def zero_entry_def
      start_builder_def widen_builder_def imr_lsm_prepare_segment_def imr_lsm_segment_build_bloom_def Let_def)

theorem segment_build_lookup_witness:
  "\<exists>s. segment_version s 9 = Some (3, 96, True) \<and> segment_version s 4 = Some (2, 88, True) \<and>
     segment_version s 5 = None"
proof -
  obtain b s b' where b: "builder_add_list 16 demo_nodes zero_builder [] = (0, b, [])"
    "imr_lsm_prepare_segment 2 1 b 10 [] = (0, Some s, b', [])" using demo_build by blast
  have "segment_version s k = foldl best None (versions_of demo_nodes k)" for k
    by (rule segment_build_lookup [OF b])
  then show ?thesis
    by (intro exI [of _ s]) (simp add: versions_of_def demo_nodes_def node_version_def best_def)
qed

end
