(* ===== verification/Imr_State.thy ===== *)
theory Imr_State
  imports Imr_Segment
begin

text \<open>
  The state of the in-kernel LSM, from \<open>dm-imrsim.c\<close>: levels, read cache, newest-version index,
  segments, statistics and tunables, with their initialisation and release; and the per-zone state
  of \<open>imrsim_types.h\<close> with the logical forward map.  A linked list is a list with its head first.
  The read tree and its LRU list hold the same nodes, so they are one list in LRU order (front =
  evicted first); the newest-version tree is an ordered association list.  \<open>struct imr_lsm_stats\<close> is
  a function from field names to values.  \<open>kmem\<close> is the script of allocation outcomes.  The
  diagnostic counters of \<open>imrsim_diag\<close>, which the source declares to influence nothing, and
  \<open>printk\<close> are left out; locks make every operation atomic.
\<close>

definition IMR_LSM_LEVELS :: nat where "IMR_LSM_LEVELS = 7"
definition IMR_LSM_MAX_LEVEL :: nat where "IMR_LSM_MAX_LEVEL = IMR_LSM_LEVELS - 1"
definition IMR_LSM_COMPACTION_THRESHOLD :: nat where "IMR_LSM_COMPACTION_THRESHOLD = 16"
definition IMR_LSM_RECORD_BYTES :: nat where "IMR_LSM_RECORD_BYTES = 32"
definition IMR_LSM_LEVEL_RATIO_DEFAULT :: nat where "IMR_LSM_LEVEL_RATIO_DEFAULT = 10"
definition IMR_LSM_MAX_BYTES_FOR_LEVEL_BASE_DEFAULT :: nat where
  "IMR_LSM_MAX_BYTES_FOR_LEVEL_BASE_DEFAULT = IMR_LSM_COMPACTION_THRESHOLD * IMR_LSM_RECORD_BYTES"
definition IMR_LSM_BLOOM_BITS_PER_KEY :: nat where "IMR_LSM_BLOOM_BITS_PER_KEY = 10"
definition IMR_LSM_READ_TREE_LIMIT :: nat where "IMR_LSM_READ_TREE_LIMIT = 4096"
definition IMR_LSM_TRACK_BOTTOM :: nat where "IMR_LSM_TRACK_BOTTOM = 1"
definition IMR_LSM_TRACK_TOP :: nat where "IMR_LSM_TRACK_TOP = 2"

abbreviation (input) "IMR_LSM_DEFAULT_UNSORTED_LEVEL \<equiv> (0 :: nat)"

lemmas lsm_consts = IMR_LSM_LEVELS_def IMR_LSM_MAX_LEVEL_def IMR_LSM_COMPACTION_THRESHOLD_def
  IMR_LSM_RECORD_BYTES_def IMR_LSM_LEVEL_RATIO_DEFAULT_def IMR_LSM_MAX_BYTES_FOR_LEVEL_BASE_DEFAULT_def
  IMR_LSM_BLOOM_BITS_PER_KEY_def IMR_LSM_READ_TREE_LIMIT_def IMR_LSM_TRACK_BOTTOM_def IMR_LSM_TRACK_TOP_def

section \<open>Metadata\<close>

record imr_lsm_level_state =
  unsorted_nodes :: "imr_lsm_node list"
  sorted_nodes :: "imr_lsm_node list"
  unsorted_count :: nat
  sorted_count :: nat

record imr_lsm_read_tree_node =
  rt_key :: nat
  rt_pba :: nat
  rt_valid :: bool
  rt_timestamp :: nat

text \<open>\<open>live_segment\<close> lists the linked entries as pairs of segment identifier and table index.\<close>

record imr_lsm_newest_node =
  nw_timestamp :: nat
  nw_valid :: bool
  live_segment :: "(nat \<times> nat) list"

type_synonym imr_lsm_stats = "string \<Rightarrow> int"

record imr_lsm_metadata =
  initialized :: bool
  zone_compaction_auto_run :: bool
  zone_compaction_auto_running :: bool
  zone_compaction_auto_pending :: bool
  level_compaction_pending :: bool
  level_compaction_running :: bool
  zone_compaction_auto_pending_zone :: nat
  lsm_timestamp :: nat
  active_write_level :: nat
  base_level :: nat
  effective_level_multiplier :: nat
  lowest_unnecessary_level :: int
  level_max_bytes :: "nat list"
  next_segment_id :: nat
  segment_count :: nat
  segments :: "imr_lsm_segment list"
  read_lru :: "imr_lsm_read_tree_node list"
  read_tree_limit :: nat
  read_tree_size :: nat
  newest_tree :: "(nat, imr_lsm_newest_node) std_map"
  newest_tree_size :: nat
  newest_index_valid :: bool
  stats :: imr_lsm_stats
  levels :: "imr_lsm_level_state list"
  kmem :: memory
  metadata_epoch :: nat

text \<open>The tunables that debugfs may override.\<close>

record imr_lsm_config =
  imr_lsm_compaction_threshold :: nat
  imr_lsm_max_bytes_for_level_base :: nat
  imr_lsm_max_bytes_for_level_multiplier :: nat
  imr_lsm_bloom_bits_per_key :: nat
  imr_lsm_zone_gc_min_invalid_ratio_permille :: nat
  imr_lsm_zone_gc_free_low_watermark :: nat

definition imr_lsm_reset_validation_overrides_locked :: imr_lsm_config where
  "imr_lsm_reset_validation_overrides_locked =
     \<lparr>imr_lsm_compaction_threshold = IMR_LSM_COMPACTION_THRESHOLD,
      imr_lsm_max_bytes_for_level_base = IMR_LSM_MAX_BYTES_FOR_LEVEL_BASE_DEFAULT,
      imr_lsm_max_bytes_for_level_multiplier = IMR_LSM_LEVEL_RATIO_DEFAULT,
      imr_lsm_bloom_bits_per_key = IMR_LSM_BLOOM_BITS_PER_KEY,
      imr_lsm_zone_gc_min_invalid_ratio_permille = 250,
      imr_lsm_zone_gc_free_low_watermark = 3\<rparr>"

text \<open>The getters replace an override of 0 by the default.\<close>

definition imr_lsm_compaction_threshold_locked :: "imr_lsm_config \<Rightarrow> nat" where
  "imr_lsm_compaction_threshold_locked c =
     (if imr_lsm_compaction_threshold c \<noteq> 0 then imr_lsm_compaction_threshold c
      else IMR_LSM_COMPACTION_THRESHOLD)"

definition imr_lsm_max_bytes_for_level_base_locked :: "imr_lsm_config \<Rightarrow> nat" where
  "imr_lsm_max_bytes_for_level_base_locked c =
     (if imr_lsm_max_bytes_for_level_base c \<noteq> 0 then imr_lsm_max_bytes_for_level_base c
      else IMR_LSM_MAX_BYTES_FOR_LEVEL_BASE_DEFAULT)"

definition imr_lsm_max_bytes_for_level_multiplier_locked :: "imr_lsm_config \<Rightarrow> nat" where
  "imr_lsm_max_bytes_for_level_multiplier_locked c =
     (if imr_lsm_max_bytes_for_level_multiplier c \<noteq> 0 then imr_lsm_max_bytes_for_level_multiplier c
      else IMR_LSM_LEVEL_RATIO_DEFAULT)"

definition imr_lsm_bloom_bits_per_key_locked :: "imr_lsm_config \<Rightarrow> nat" where
  "imr_lsm_bloom_bits_per_key_locked c =
     (if imr_lsm_bloom_bits_per_key c \<noteq> 0 then imr_lsm_bloom_bits_per_key c else IMR_LSM_BLOOM_BITS_PER_KEY)"

section \<open>Statistics\<close>

definition stat_add :: "string \<Rightarrow> int \<Rightarrow> imr_lsm_metadata \<Rightarrow> imr_lsm_metadata" where
  "stat_add f n m = m\<lparr>stats := (stats m)(f := stats m f + n)\<rparr>"

abbreviation stat_inc :: "string \<Rightarrow> imr_lsm_metadata \<Rightarrow> imr_lsm_metadata" where
  "stat_inc f \<equiv> stat_add f 1"

definition stat_set :: "string \<Rightarrow> int \<Rightarrow> imr_lsm_metadata \<Rightarrow> imr_lsm_metadata" where
  "stat_set f n m = m\<lparr>stats := (stats m)(f := n)\<rparr>"

text \<open>Several assignments in a row.\<close>

definition stat_sets :: "(string \<times> int) list \<Rightarrow> imr_lsm_metadata \<Rightarrow> imr_lsm_metadata" where
  "stat_sets = fold (\<lambda>(f, n). stat_set f n)"

definition stat_adds :: "(string \<times> int) list \<Rightarrow> imr_lsm_metadata \<Rightarrow> imr_lsm_metadata" where
  "stat_adds = fold (\<lambda>(f, n). stat_add f n)"

abbreviation bool_int :: "bool \<Rightarrow> int" where
  "bool_int b \<equiv> (if b then 1 else 0)"

lemma stats_only:
  "\<exists>s. stat_add f n m = m\<lparr>stats := s\<rparr>" "\<exists>s. stat_set f n m = m\<lparr>stats := s\<rparr>"
  by (auto simp: stat_add_def stat_set_def)

lemma stat_sets_only: "\<exists>s. stat_sets xs m = m\<lparr>stats := s\<rparr>"
proof (induction xs arbitrary: m)
  case Nil show ?case by (auto simp: stat_sets_def intro!: exI [of _ "stats m"])
next
  case (Cons x xs)
  obtain f n where x: "x = (f, n)" by (cases x)
  obtain s where "stat_sets xs (stat_set f n m) = (stat_set f n m)\<lparr>stats := s\<rparr>" using Cons by blast
  then show ?case by (auto simp: stat_sets_def x stat_set_def)
qed

lemma stat_adds_only: "\<exists>s. stat_adds xs m = m\<lparr>stats := s\<rparr>"
proof (induction xs arbitrary: m)
  case Nil show ?case by (auto simp: stat_adds_def intro!: exI [of _ "stats m"])
next
  case (Cons x xs)
  obtain f n where x: "x = (f, n)" by (cases x)
  obtain s where "stat_adds xs (stat_add f n m) = (stat_add f n m)\<lparr>stats := s\<rparr>" using Cons by blast
  then show ?case by (auto simp: stat_adds_def x stat_add_def)
qed

section \<open>Initialisation and release\<close>

definition zero_level :: imr_lsm_level_state where
  "zero_level = \<lparr>unsorted_nodes = [], sorted_nodes = [], unsorted_count = 0, sorted_count = 0\<rparr>"

text \<open>After \<open>memset(&imr_lsm_meta, 0, ...)\<close>.\<close>

definition zero_metadata :: "memory \<Rightarrow> nat \<Rightarrow> imr_lsm_metadata" where
  "zero_metadata mem epoch = \<lparr>initialized = False, zone_compaction_auto_run = False,
     zone_compaction_auto_running = False, zone_compaction_auto_pending = False,
     level_compaction_pending = False, level_compaction_running = False,
     zone_compaction_auto_pending_zone = 0, lsm_timestamp = 0, active_write_level = 0, base_level = 0,
     effective_level_multiplier = 0, lowest_unnecessary_level = 0,
     level_max_bytes = replicate IMR_LSM_LEVELS 0, next_segment_id = 0, segment_count = 0, segments = [],
     read_lru = [], read_tree_limit = 0, read_tree_size = 0, newest_tree = [], newest_tree_size = 0,
     newest_index_valid = False, stats = (\<lambda>_. 0), levels = replicate IMR_LSM_LEVELS zero_level,
     kmem = mem, metadata_epoch = epoch\<rparr>"

definition imr_lsm_init_read_tree_locked :: "imr_lsm_metadata \<Rightarrow> imr_lsm_metadata" where
  "imr_lsm_init_read_tree_locked m =
     m\<lparr>read_lru := [], read_tree_limit := IMR_LSM_READ_TREE_LIMIT, read_tree_size := 0\<rparr>"

definition imr_lsm_read_tree_limit_locked :: "imr_lsm_metadata \<Rightarrow> nat" where
  "imr_lsm_read_tree_limit_locked m =
     (if read_tree_limit m \<noteq> 0 then read_tree_limit m else IMR_LSM_READ_TREE_LIMIT)"

definition imr_lsm_clear_read_tree_locked :: "imr_lsm_metadata \<Rightarrow> nat \<times> imr_lsm_metadata" where
  "imr_lsm_clear_read_tree_locked m = (length (read_lru m), m\<lparr>read_lru := [], read_tree_size := 0\<rparr>)"

definition imr_lsm_init_newest_index_locked :: "imr_lsm_metadata \<Rightarrow> imr_lsm_metadata" where
  "imr_lsm_init_newest_index_locked m = m\<lparr>newest_tree := [], newest_tree_size := 0, newest_index_valid := True\<rparr>"

definition imr_lsm_free_newest_index_locked :: "imr_lsm_metadata \<Rightarrow> imr_lsm_metadata" where
  "imr_lsm_free_newest_index_locked m = m\<lparr>newest_tree := [], newest_tree_size := 0, newest_index_valid := True\<rparr>"

definition imr_lsm_free_segments_locked :: "imr_lsm_metadata \<Rightarrow> imr_lsm_metadata" where
  "imr_lsm_free_segments_locked m = m\<lparr>segments := [], segment_count := 0, next_segment_id := 0\<rparr>"

definition imr_lsm_free_sorted_level_locked :: "nat \<Rightarrow> imr_lsm_metadata \<Rightarrow> imr_lsm_metadata" where
  "imr_lsm_free_sorted_level_locked level m = m\<lparr>levels := (levels m)[level :=
     (levels m ! level)\<lparr>sorted_nodes := [], sorted_count := 0\<rparr>]\<rparr>"

definition imr_lsm_free_unsorted_level_locked :: "nat \<Rightarrow> imr_lsm_metadata \<Rightarrow> imr_lsm_metadata" where
  "imr_lsm_free_unsorted_level_locked level m = m\<lparr>levels := (levels m)[level :=
     (levels m ! level)\<lparr>unsorted_nodes := [], unsorted_count := 0\<rparr>]\<rparr>"

text \<open>The epoch is a 64-bit counter that skips 0 when it wraps.\<close>

definition next_epoch :: "nat \<Rightarrow> nat" where
  "next_epoch e = (let e1 = (e + 1) mod 2 ^ 64 in if e1 = 0 then 1 else e1)"

definition imr_lsm_release_metadata_locked :: "imr_lsm_metadata \<Rightarrow> imr_lsm_metadata" where
  "imr_lsm_release_metadata_locked m =
     (let m1 = fold (\<lambda>level. imr_lsm_free_sorted_level_locked level \<circ> imr_lsm_free_unsorted_level_locked level)
                 [0..<IMR_LSM_LEVELS] m;
          m2 = imr_lsm_free_newest_index_locked (snd (imr_lsm_clear_read_tree_locked (imr_lsm_free_segments_locked m1)));
          m3 = m2\<lparr>metadata_epoch := next_epoch (metadata_epoch m2)\<rparr>
      in imr_lsm_init_newest_index_locked (imr_lsm_init_read_tree_locked
           (zero_metadata (kmem m3) (metadata_epoch m3))))"

definition imr_lsm_initialize_metadata_locked :: "imr_lsm_metadata \<Rightarrow> imr_lsm_metadata" where
  "imr_lsm_initialize_metadata_locked m =
     stat_sets
       [(''last_segment_compaction_from_id'', int IMR_LSM_SEGMENT_NONE),
        (''last_segment_compaction_to_id'', int IMR_LSM_SEGMENT_NONE),
        (''last_placement_output_segment_id'', int IMR_LSM_SEGMENT_NONE),
        (''last_segment_output_mapping_segment_id'', int IMR_LSM_SEGMENT_NONE),
        (''last_segment_output_copy_plan_segment_id'', int IMR_LSM_SEGMENT_NONE),
        (''last_segment_output_metadata_commit_segment_id'', int IMR_LSM_SEGMENT_NONE),
        (''last_segment_output_physical_copy_segment_id'', int IMR_LSM_SEGMENT_NONE),
        (''zone_compaction_candidate_zone'', int IMR_LSM_ZONE_COMPACTION_NONE),
        (''zone_compaction_candidate_dest_zone'', int IMR_LSM_ZONE_COMPACTION_NONE),
        (''last_zone_compaction_candidate_zone'', int IMR_LSM_ZONE_COMPACTION_NONE),
        (''last_zone_compaction_candidate_dest_zone'', int IMR_LSM_ZONE_COMPACTION_NONE),
        (''last_zone_compaction_auto_pending_zone'', int IMR_LSM_ZONE_COMPACTION_NONE),
        (''last_zone_compaction_auto_run_zone'', int IMR_LSM_ZONE_COMPACTION_NONE),
        (''last_zone_compaction_source_zone'', int IMR_LSM_ZONE_COMPACTION_NONE),
        (''last_zone_compaction_dest_zone0'', int IMR_LSM_ZONE_COMPACTION_NONE),
        (''last_zone_compaction_dest_zone1'', int IMR_LSM_ZONE_COMPACTION_NONE)]
       ((imr_lsm_release_metadata_locked m)\<lparr>initialized := True, zone_compaction_auto_run := True,
          lsm_timestamp := 0, active_write_level := IMR_LSM_DEFAULT_UNSORTED_LEVEL,
          base_level := IMR_LSM_MAX_LEVEL, lowest_unnecessary_level := -1,
          zone_compaction_auto_pending_zone := IMR_LSM_ZONE_COMPACTION_NONE\<rparr>)"

section \<open>Zone state\<close>

datatype imrsim_zone_conditions =
  Z_COND_NO_WP | Z_COND_EMPTY | Z_COND_CLOSED | Z_COND_OPEN | Z_COND_RO | Z_COND_FULL | Z_COND_OFFLINE

datatype imrsim_zone_type = Z_TYPE_RESERVED | Z_TYPE_CONVENTIONAL | Z_TYPE_SEQUENTIAL | Z_TYPE_PREFERRED

text \<open>Arrays of a zone are functions of their index; \<open>z_pba_map\<close> holds C \<open>int\<close> values.\<close>

record imrsim_zone_status =
  z_start :: nat
  z_length :: nat
  z_conds :: imrsim_zone_conditions
  z_type :: imrsim_zone_type
  z_flag :: nat
  z_tracks :: "nat \<Rightarrow> nat \<Rightarrow> bool"
  z_map_size :: nat
  z_live_count :: nat
  z_generation :: nat
  z_pba_map :: "nat \<Rightarrow> int"
  z_key_map :: "nat \<Rightarrow> nat"

text \<open>The casts \<open>(int)(__u32)n\<close> and \<open>(__u32)i\<close>.\<close>

definition as_int :: "nat \<Rightarrow> int" where
  "as_int n = (let u = n mod 2 ^ 32 in if u < 2 ^ 31 then int u else int u - 2 ^ 32)"

definition as_u32 :: "int \<Rightarrow> nat" where
  "as_u32 i = nat (i mod 2 ^ 32)"

lemma as_u32_int: "n < 2 ^ 32 \<Longrightarrow> as_u32 (as_int n) = n"
proof -
  assume "n < 2 ^ 32"
  then have "int n mod 2 ^ 32 = int n" "(int n - 2 ^ 32) mod 2 ^ 32 = int n" by (simp_all add: mod_diff_right_eq)
  then show ?thesis using \<open>n < 2 ^ 32\<close> by (simp add: as_u32_def as_int_def)
qed

lemma as_int_minus_one: "n < 2 ^ 32 - 1 \<Longrightarrow> as_int n \<noteq> -1"
  by (simp add: as_int_def Let_def)

definition imr_lsm_zone_map_has_key :: "imrsim_zone_status list option \<Rightarrow> nat \<Rightarrow> bool" where
  "imr_lsm_zone_map_has_key zstat key =
     (case zstat of
        None \<Rightarrow> False
      | Some zs \<Rightarrow>
          let zone_idx = key div 2 ^ IMR_ZONE_SIZE_SHIFT mod 2 ^ 32
          in if zone_idx \<ge> length zs then False
             else let block_offset = key - zone_idx * 2 ^ IMR_ZONE_SIZE_SHIFT
                  in if block_offset \<ge> TOTAL_ITEMS then False
                     else z_pba_map (zs ! zone_idx) block_offset \<noteq> -1)"

end
