(* ===== verification/Imr_Levels.thy ===== *)
theory Imr_Levels
  imports Imr_State
begin

text \<open>
  Dynamic level sizing and the choice of the level to compact, from \<open>dm-imrsim.c\<close>
  (\<open>imr_lsm_level_target_bytes_locked\<close> to \<open>imr_lsm_calculate_dynamic_levels_locked\<close>,
  \<open>imr_lsm_compaction_dst_level_locked\<close>, \<open>imr_lsm_compaction_score_locked\<close>,
  \<open>imr_lsm_pick_compaction_level_locked\<close>, \<open>imr_lsm_level_compaction_needed_locked\<close>).
  Byte counts are natural numbers below \<open>2^64\<close>; the one sum the code checks for wrap-around is
  written out.
\<close>

section \<open>Sizes\<close>

definition imr_lsm_level_target_bytes_locked :: "imr_lsm_config \<Rightarrow> nat \<Rightarrow> imr_lsm_metadata \<Rightarrow> nat" where
  "imr_lsm_level_target_bytes_locked c level m =
     (if level = 0 then imr_lsm_compaction_threshold_locked c * IMR_LSM_RECORD_BYTES
      else if level \<ge> IMR_LSM_LEVELS \<or> level_max_bytes m ! level = 0 \<or> level_max_bytes m ! level = u64_max then 0
      else level_max_bytes m ! level)"

definition imr_lsm_level_capacity :: "imr_lsm_config \<Rightarrow> nat \<Rightarrow> imr_lsm_metadata \<Rightarrow> nat" where
  "imr_lsm_level_capacity c level m =
     (if level = 0 \<or> level \<ge> IMR_LSM_LEVELS then imr_lsm_compaction_threshold_locked c
      else
        let target_bytes = imr_lsm_level_target_bytes_locked c level m
        in if target_bytes = 0 then imr_lsm_compaction_threshold_locked c
           else
             let t0 = target_bytes div IMR_LSM_RECORD_BYTES;
                 target_entries = (if target_bytes mod IMR_LSM_RECORD_BYTES \<noteq> 0 then t0 + 1 else t0)
             in if target_entries = 0 then 1 else if target_entries > u32_max then u32_max else target_entries)"

definition imr_lsm_level_total_count_locked :: "nat \<Rightarrow> imr_lsm_metadata \<Rightarrow> nat" where
  "imr_lsm_level_total_count_locked level m =
     (unsorted_count (levels m ! level) + sorted_count (levels m ! level)) mod 2 ^ 32"

definition imr_lsm_level_actual_bytes_locked :: "nat \<Rightarrow> imr_lsm_metadata \<Rightarrow> nat" where
  "imr_lsm_level_actual_bytes_locked level m = imr_lsm_level_total_count_locked level m * IMR_LSM_RECORD_BYTES"

definition imr_lsm_div_round_up_u64 :: "nat \<Rightarrow> nat \<Rightarrow> nat" where
  "imr_lsm_div_round_up_u64 val divisor =
     (if divisor = 0 then val
      else let quotient = val div divisor in if val mod divisor \<noteq> 0 then quotient + 1 else quotient)"

definition imr_lsm_level1_target_for_multiplier :: "nat \<Rightarrow> nat \<Rightarrow> nat" where
  "imr_lsm_level1_target_for_multiplier last_level_bytes multiplier =
     fold (\<lambda>level b. imr_lsm_div_round_up_u64 b multiplier) (rev [1..<IMR_LSM_MAX_LEVEL]) last_level_bytes"

text \<open>The first loop doubles \<open>high\<close> until the bound holds; \<open>high\<close> starts at the multiplier, which the
  getter never returns as 0.\<close>

function raise_high :: "nat \<Rightarrow> nat \<Rightarrow> nat \<Rightarrow> nat" where
  "raise_high max_level_bytes base_bytes_max high =
     (if 0 < high \<and> high < u32_max
      then
        let high' = (if high > u32_max div 2 then u32_max else high * 2)
        in if imr_lsm_level1_target_for_multiplier max_level_bytes high' \<le> base_bytes_max then high'
           else raise_high max_level_bytes base_bytes_max high'
      else high)"
  by pat_completeness auto
termination by (relation "measure (\<lambda>(_, _, h). u32_max - h)") (auto split: if_splits)

function search_multiplier :: "nat \<Rightarrow> nat \<Rightarrow> nat \<Rightarrow> nat \<Rightarrow> nat" where
  "search_multiplier max_level_bytes base_bytes_max low high =
     (if low < high
      then
        let middle = low + (high - low) div 2
        in if imr_lsm_level1_target_for_multiplier max_level_bytes middle \<le> base_bytes_max
           then search_multiplier max_level_bytes base_bytes_max low middle
           else search_multiplier max_level_bytes base_bytes_max (middle + 1) high
      else low)"
  by pat_completeness auto
termination by (relation "measure (\<lambda>(_, _, l, h). h - l)") auto

declare raise_high.simps [simp del] search_multiplier.simps [simp del]

definition imr_lsm_effective_level_multiplier :: "nat \<Rightarrow> nat \<Rightarrow> nat \<Rightarrow> nat" where
  "imr_lsm_effective_level_multiplier max_level_bytes base_bytes_max configured_multiplier =
     (if imr_lsm_level1_target_for_multiplier max_level_bytes configured_multiplier \<le> base_bytes_max
      then configured_multiplier
      else search_multiplier max_level_bytes base_bytes_max configured_multiplier
             (raise_high max_level_bytes base_bytes_max configured_multiplier))"

section \<open>Dynamic levels\<close>

text \<open>The backward loop from the last level; its first argument counts down, the level is its value.\<close>

fun base_loop :: "nat \<Rightarrow> nat \<Rightarrow> nat \<Rightarrow> nat \<Rightarrow> nat \<Rightarrow> nat list \<Rightarrow> nat \<Rightarrow> nat list \<times> nat" where
  "base_loop level_multiplier base_bytes_max base_bytes_min 0 current_target max_bytes base = (max_bytes, base)"
| "base_loop level_multiplier base_bytes_max base_bytes_min (Suc l) current_target max_bytes base =
     (let previous_target = imr_lsm_div_round_up_u64 current_target level_multiplier;
          max_bytes1 = max_bytes[Suc l := previous_target]
      in if previous_target \<le> base_bytes_max
         then (if previous_target \<le> base_bytes_min then max_bytes1[Suc l := base_bytes_min + 1] else max_bytes1, Suc l)
         else base_loop level_multiplier base_bytes_max base_bytes_min l previous_target max_bytes1 (Suc l))"

definition largest_level_bytes :: "imr_lsm_metadata \<Rightarrow> nat" where
  "largest_level_bytes m =
     fold (\<lambda>level mx. let b = imr_lsm_level_actual_bytes_locked level m in if b > mx then b else mx)
       [1..<IMR_LSM_LEVELS] 0"

definition lowest_unnecessary :: "nat \<Rightarrow> imr_lsm_metadata \<Rightarrow> int" where
  "lowest_unnecessary base m =
     fold (\<lambda>level r. if imr_lsm_level_total_count_locked level m \<noteq> 0 then int level else r) [1..<base] (-1)"

definition imr_lsm_calculate_dynamic_levels_locked :: "imr_lsm_config \<Rightarrow> imr_lsm_metadata \<Rightarrow> imr_lsm_metadata" where
  "imr_lsm_calculate_dynamic_levels_locked c m =
     (let base_bytes_max = imr_lsm_max_bytes_for_level_base_locked c;
          configured = imr_lsm_max_bytes_for_level_multiplier_locked c;
          max_level_bytes = largest_level_bytes m;
          level_multiplier = (if max_level_bytes > base_bytes_max
             then imr_lsm_effective_level_multiplier max_level_bytes base_bytes_max configured else configured);
          b0 = base_bytes_max div level_multiplier;
          base_bytes_min = (if b0 = 0 then 1 else b0);
          unset = replicate IMR_LSM_LEVELS u64_max;
          (max_bytes, base) =
            (if max_level_bytes \<le> base_bytes_max then (unset[IMR_LSM_MAX_LEVEL := base_bytes_max], IMR_LSM_MAX_LEVEL)
             else base_loop level_multiplier base_bytes_max base_bytes_min (IMR_LSM_MAX_LEVEL - 1) max_level_bytes
                    (unset[IMR_LSM_MAX_LEVEL := max_level_bytes]) IMR_LSM_MAX_LEVEL)
      in m\<lparr>level_max_bytes := max_bytes, active_write_level := IMR_LSM_DEFAULT_UNSORTED_LEVEL,
           effective_level_multiplier := level_multiplier, base_level := base,
           lowest_unnecessary_level := lowest_unnecessary base m\<rparr>)"

section \<open>Choosing a compaction\<close>

definition imr_lsm_compaction_dst_level_locked ::
  "imr_lsm_config \<Rightarrow> nat \<Rightarrow> imr_lsm_metadata \<Rightarrow> nat \<times> imr_lsm_metadata" where
  "imr_lsm_compaction_dst_level_locked c level m =
     (if level \<ge> IMR_LSM_MAX_LEVEL then (IMR_LSM_MAX_LEVEL, m)
      else
        let m1 = imr_lsm_calculate_dynamic_levels_locked c m
        in (case find (\<lambda>dst. level_max_bytes m1 ! dst \<noteq> u64_max) [level + 1..<IMR_LSM_LEVELS] of
              Some dst \<Rightarrow> dst | None \<Rightarrow> IMR_LSM_MAX_LEVEL, m1))"

definition IMR_LSM_SCORE_SCALE :: nat where "IMR_LSM_SCORE_SCALE = 1000"
definition IMR_LSM_SCORE_BOOST :: nat where "IMR_LSM_SCORE_BOOST = 10"

definition imr_lsm_compaction_score_locked :: "imr_lsm_config \<Rightarrow> nat \<Rightarrow> nat \<Rightarrow> imr_lsm_metadata \<Rightarrow> nat" where
  "imr_lsm_compaction_score_locked c level total_downcompact_bytes m =
     (if level \<ge> IMR_LSM_LEVELS - 1 then 0
      else if level = IMR_LSM_DEFAULT_UNSORTED_LEVEL
      then
        let level_entries = imr_lsm_level_total_count_locked level m
        in if level_entries = 0 then 0
           else level_entries * IMR_LSM_SCORE_SCALE div imr_lsm_compaction_threshold_locked c
      else
        let level_bytes = imr_lsm_level_actual_bytes_locked level m
        in if level_bytes = 0 then 0
           else if lowest_unnecessary_level m \<ge> 0 \<and> level \<le> nat (lowest_unnecessary_level m)
           then IMR_LSM_SCORE_SCALE * IMR_LSM_SCORE_BOOST + 1 + (nat (lowest_unnecessary_level m) - level)
           else
             let t0 = imr_lsm_level_target_bytes_locked c level m;
                 target = (if t0 = 0 then 1 else t0);
                 denominator = (if target + total_downcompact_bytes > u64_max then u64_max
                                else target + total_downcompact_bytes)
             in level_bytes * IMR_LSM_SCORE_SCALE div denominator)"

text \<open>The loop over the levels: best level, best score and the bytes already due to move down.\<close>

definition pick_step :: "imr_lsm_config \<Rightarrow> imr_lsm_metadata \<Rightarrow> nat \<Rightarrow> nat \<times> nat \<times> nat \<Rightarrow> nat \<times> nat \<times> nat" where
  "pick_step c m level st =
     (let (best_level, best_score, total_downcompact_bytes) = st;
          score = imr_lsm_compaction_score_locked c level total_downcompact_bytes m;
          level_entries = imr_lsm_level_total_count_locked level m;
          level_bytes = imr_lsm_level_actual_bytes_locked level m;
          target_bytes = imr_lsm_level_target_bytes_locked c level m;
          (best_level', best_score') = (if score > best_score then (level, score) else (best_level, best_score));
          total' = (if level = IMR_LSM_DEFAULT_UNSORTED_LEVEL
                    then (if level_entries \<ge> imr_lsm_compaction_threshold_locked c
                          then total_downcompact_bytes + level_bytes else total_downcompact_bytes)
                    else if lowest_unnecessary_level m \<ge> 0 \<and> level \<le> nat (lowest_unnecessary_level m)
                    then total_downcompact_bytes + level_bytes
                    else if target_bytes \<noteq> 0 \<and> level_bytes > target_bytes
                    then total_downcompact_bytes + (level_bytes - target_bytes) else total_downcompact_bytes)
      in (best_level', best_score', total'))"

definition imr_lsm_pick_compaction_level_locked :: "imr_lsm_config \<Rightarrow> imr_lsm_metadata \<Rightarrow> nat \<times> imr_lsm_metadata" where
  "imr_lsm_pick_compaction_level_locked c m =
     (let m1 = imr_lsm_calculate_dynamic_levels_locked c m;
          (best_level, best_score, total) =
            fold (pick_step c m1) [0..<IMR_LSM_LEVELS - 1] (IMR_LSM_LEVELS, 0, 0)
      in (if best_score \<ge> IMR_LSM_SCORE_SCALE then best_level else IMR_LSM_LEVELS, m1))"

definition imr_lsm_level_compaction_needed_locked :: "imr_lsm_config \<Rightarrow> imr_lsm_metadata \<Rightarrow> bool \<times> imr_lsm_metadata" where
  "imr_lsm_level_compaction_needed_locked c m =
     (let m1 = imr_lsm_calculate_dynamic_levels_locked c m
      in if unsorted_count (levels m1 ! IMR_LSM_DEFAULT_UNSORTED_LEVEL) \<ge> imr_lsm_compaction_threshold_locked c
         then (True, m1)
         else if base_level m1 < IMR_LSM_MAX_LEVEL \<and> unsorted_count (levels m1 ! IMR_LSM_MAX_LEVEL) \<noteq> 0
         then (True, m1)
         else case imr_lsm_pick_compaction_level_locked c m1 of (level, m2) \<Rightarrow> (level < IMR_LSM_LEVELS, m2))"

definition imr_lsm_mark_level_compaction_pending_locked :: "imr_lsm_config \<Rightarrow> imr_lsm_metadata \<Rightarrow> imr_lsm_metadata" where
  "imr_lsm_mark_level_compaction_pending_locked c m =
     (case imr_lsm_level_compaction_needed_locked c m of (needed, m1) \<Rightarrow>
        if \<not> needed then m1
        else if level_compaction_pending m1 then m1
        else stat_inc ''level_compaction_work_schedule_count'' (m1\<lparr>level_compaction_pending := True\<rparr>))"

section \<open>Lemmas on the multiplier\<close>

lemma div_round_up_le_iff: "0 < d \<Longrightarrow> imr_lsm_div_round_up_u64 v d \<le> q \<longleftrightarrow> v \<le> q * d"
proof -
  assume d: "0 < d"
  show ?thesis
  proof (cases "v mod d = 0")
    case True
    then obtain k where "v = k * d" by (metis dvd_def mod_eq_0_iff_dvd mult.commute)
    then show ?thesis using d by (simp add: imr_lsm_div_round_up_u64_def)
  next
    case False
    then have "v \<noteq> q * d" by auto
    moreover have "v div d < q \<longleftrightarrow> v < q * d" by (rule div_less_iff_less_mult [OF d])
    ultimately show ?thesis using False d by (auto simp: imr_lsm_div_round_up_u64_def Suc_le_eq)
  qed
qed

lemma div_round_up_mono:
  assumes "0 < d" "d \<le> d'" "v' \<le> v"
  shows "imr_lsm_div_round_up_u64 v' d' \<le> imr_lsm_div_round_up_u64 v d"
proof -
  have "v \<le> imr_lsm_div_round_up_u64 v d * d" using div_round_up_le_iff [OF assms(1)] by blast
  then have "v' \<le> imr_lsm_div_round_up_u64 v d * d'" using assms by (meson le_trans mult_le_mono2)
  then show ?thesis using assms by (simp add: div_round_up_le_iff)
qed

lemma fold_ceil_le: "0 < d \<Longrightarrow> fold (\<lambda>l b. imr_lsm_div_round_up_u64 b d) ls v \<le> q \<longleftrightarrow> v \<le> q * d ^ length ls"
proof (induction ls arbitrary: v)
  case (Cons l ls)
  then show ?case by (simp add: div_round_up_le_iff mult_ac)
qed simp

lemma level1_target_le_iff:
  "0 < d \<Longrightarrow> imr_lsm_level1_target_for_multiplier v d \<le> q \<longleftrightarrow> v \<le> q * d ^ 5"
  using fold_ceil_le [of d "rev [1..<IMR_LSM_MAX_LEVEL]" v q]
  by (simp add: imr_lsm_level1_target_for_multiplier_def lsm_consts)

lemma raise_high_bound:
  assumes "0 < high" "high \<le> u32_max" "v \<le> q * u32_max ^ 5" "\<not> v \<le> q * high ^ 5"
  shows "high \<le> raise_high v q high \<and> raise_high v q high \<le> u32_max \<and> v \<le> q * raise_high v q high ^ 5"
  using assms
proof (induction v q high rule: raise_high.induct)
  case (1 v q high)
  define h where "h = (if high > u32_max div 2 then u32_max else high * 2)"
  have lt: "high < u32_max" using 1(3-5) by (metis le_neq_implies_less)
  have h: "high \<le> h" "h \<le> u32_max" "0 < h" using 1(2) lt by (auto simp: h_def)
  have eq: "raise_high v q high = (if v \<le> q * h ^ 5 then h else raise_high v q h)"
    using 1(2) lt h(3) by (subst raise_high.simps) (simp add: Let_def h_def [symmetric] level1_target_le_iff)
  show ?case
  proof (cases "v \<le> q * h ^ 5")
    case True
    then show ?thesis using h by (simp add: eq)
  next
    case False
    then have "h \<le> raise_high v q h \<and> raise_high v q h \<le> u32_max \<and> v \<le> q * raise_high v q h ^ 5"
      using 1(1) [OF _ h_def _ h(3) h(2) 1(4)] 1(2) lt h(3) by (simp add: level1_target_le_iff)
    then show ?thesis using h(1) False by (simp add: eq)
  qed
qed

lemma search_multiplier_least:
  assumes "0 < low" "low \<le> high" "v \<le> q * high ^ 5" "\<forall>i. 0 < i \<and> i < low \<longrightarrow> \<not> v \<le> q * i ^ 5"
  shows "v \<le> q * search_multiplier v q low high ^ 5 \<and> low \<le> search_multiplier v q low high \<and>
    search_multiplier v q low high \<le> high \<and> (\<forall>i. 0 < i \<and> i < search_multiplier v q low high \<longrightarrow> \<not> v \<le> q * i ^ 5)"
  using assms
proof (induction v q low high rule: search_multiplier.induct)
  case (1 v q low high)
  show ?case
  proof (cases "low < high")
    case False
    then have "low = high" "search_multiplier v q low high = low"
      using 1(4) by (simp_all add: search_multiplier.simps [of v q low high] search_multiplier.simps [of v q high high])
    then show ?thesis using 1(5,6) by simp
  next
    case True
    define mid where "mid = low + (high - low) div 2"
    have mid: "0 < mid" "low \<le> mid" "mid < high" using True 1(3) by (auto simp: mid_def)
    have eq: "search_multiplier v q low high = (if v \<le> q * mid ^ 5 then search_multiplier v q low mid
        else search_multiplier v q (mid + 1) high)"
      using True mid(1) by (subst search_multiplier.simps) (simp add: Let_def mid_def [symmetric] level1_target_le_iff)
    show ?thesis
    proof (cases "v \<le> q * mid ^ 5")
      case t: True
      have "imr_lsm_level1_target_for_multiplier v mid \<le> q" using t mid(1) by (simp add: level1_target_le_iff)
      from 1(1) [OF True mid_def this 1(3) mid(2) t 1(6)] show ?thesis using t mid by (simp add: eq)
    next
      case f: False
      have n: "\<not> imr_lsm_level1_target_for_multiplier v mid \<le> q" using f mid(1) by (simp add: level1_target_le_iff)
      have "\<not> v \<le> q * i ^ 5" if "0 < i" "i < mid + 1" for i
      proof
        assume "v \<le> q * i ^ 5"
        moreover have "q * i ^ 5 \<le> q * mid ^ 5" using that by (simp add: power_mono)
        ultimately show False using f by linarith
      qed
      then have "\<forall>i. 0 < i \<and> i < mid + 1 \<longrightarrow> \<not> v \<le> q * i ^ 5" by blast
      from 1(2) [OF True mid_def n _ _ 1(5) this] show ?thesis using f mid by (simp add: eq)
    qed
  qed
qed

lemma effective_multiplier_bound:
  assumes "0 < d" "d \<le> u32_max" "0 < q" "v \<le> u64_max"
  shows "v \<le> q * imr_lsm_effective_level_multiplier v q d ^ 5 \<and> d \<le> imr_lsm_effective_level_multiplier v q d \<and>
    imr_lsm_effective_level_multiplier v q d \<le> u32_max \<and>
    (\<forall>i. d \<le> i \<and> i < imr_lsm_effective_level_multiplier v q d \<longrightarrow> \<not> v \<le> q * i ^ 5)"
proof (cases "v \<le> q * d ^ 5")
  case True
  then show ?thesis using assms by (simp add: imr_lsm_effective_level_multiplier_def level1_target_le_iff)
next
  case False
  have "u64_max \<le> u32_max ^ 5" by (simp add: u64_max_def u32_max_def)
  also have "\<dots> \<le> q * u32_max ^ 5" using assms(3) by simp
  finally have v: "v \<le> q * u32_max ^ 5" using assms(4) by simp
  define h where "h = raise_high v q d"
  have h: "d \<le> h" "h \<le> u32_max" "v \<le> q * h ^ 5"
    using raise_high_bound [OF assms(1,2) v False] by (simp_all add: h_def)
  have "\<not> v \<le> q * i ^ 5" if "0 < i" "i < d" for i
  proof -
    have "q * i ^ 5 \<le> q * d ^ 5" using that by (simp add: power_mono)
    then show ?thesis using False by linarith
  qed
  then have "\<forall>i. 0 < i \<and> i < d \<longrightarrow> \<not> v \<le> q * i ^ 5" by blast
  from search_multiplier_least [OF assms(1) h(1,3) this] h(2) assms(1) False show ?thesis
    by (auto simp: imr_lsm_effective_level_multiplier_def level1_target_le_iff h_def [symmetric])
qed

section \<open>Lemmas on the dynamic levels\<close>

definition fanout_ok :: "nat \<Rightarrow> nat list \<Rightarrow> nat \<Rightarrow> bool" where
  "fanout_ok d mb l \<longleftrightarrow> (\<forall>i. l < i \<and> i \<le> 6 \<longrightarrow> mb ! (i - 1) = imr_lsm_div_round_up_u64 (mb ! i) d)"

definition above :: "nat \<Rightarrow> nat \<Rightarrow> nat list \<Rightarrow> nat \<Rightarrow> bool" where
  "above q v mb l \<longleftrightarrow> (\<forall>i. l < i \<and> i \<le> 6 \<longrightarrow> q < mb ! i \<and> mb ! i \<le> v)"

lemma base_loop_result:
  assumes "length mb = 7" "l \<le> 5" "mb ! Suc l = cur" "q < cur" "cur \<le> q * d ^ l" "0 < d"
    "\<forall>i \<le> l. mb ! i = u" "above q v mb l" "fanout_ok d mb (Suc l)" "mn < q"
    "base_loop d q mn l cur mb b0 = (mb', base)"
  shows "1 \<le> base \<and> base \<le> l \<and> length mb' = 7 \<and> (\<forall>i < base. mb' ! i = u) \<and> mn < mb' ! base \<and> mb' ! base \<le> q \<and>
    above q v mb' base \<and> fanout_ok d mb' (Suc base) \<and>
    mb' ! base = max (imr_lsm_div_round_up_u64 (mb' ! Suc base) d) (mn + 1)"
  using assms
proof (induction l arbitrary: cur mb b0)
  case 0
  then show ?case by simp
next
  case (Suc l)
  define prev where "prev = imr_lsm_div_round_up_u64 cur d"
  have next_cur: "mb ! Suc (Suc l) = cur" using Suc.prems(3) by simp
  show ?case
  proof (cases "prev \<le> q")
    case True
    define x where "x = (if prev \<le> mn then mn + 1 else prev)"
    have r: "mb' = mb[Suc l := x]" "base = Suc l"
      using Suc.prems(11) True by (auto simp: Let_def prev_def [symmetric] x_def)
    have x: "mn < x" "x \<le> q" "x = max prev (mn + 1)" using True Suc.prems(10) by (auto simp: x_def)
    have "\<forall>i < Suc l. mb' ! i = u" using Suc.prems(7) by (simp add: r)
    moreover have "above q v mb' (Suc l)" using Suc.prems(8) by (simp add: r above_def)
    moreover have "fanout_ok d mb' (Suc (Suc l))" using Suc.prems(9) by (auto simp: r fanout_ok_def nth_list_update)
    ultimately show ?thesis using x Suc.prems(1,2) next_cur by (simp add: r prev_def)
  next
    case False
    have eq: "base_loop d q mn l prev (mb[Suc l := prev]) (Suc l) = (mb', base)"
      using Suc.prems(11) False by (simp add: Let_def prev_def [symmetric])
    have len: "length (mb[Suc l := prev]) = 7" using Suc.prems(1) by simp
    have "cur \<le> (q * d ^ l) * d" using Suc.prems(5) by (simp add: mult_ac)
    then have le: "prev \<le> q * d ^ l" using Suc.prems(6) by (simp add: prev_def div_round_up_le_iff)
    have "prev \<le> cur"
      using Suc.prems(6) by (simp add: prev_def div_round_up_le_iff)
    also have "cur \<le> v" using Suc.prems(2,8) next_cur by (auto simp: above_def)
    finally have pv: "prev \<le> v" .
    have a: "above q v (mb[Suc l := prev]) l"
      using Suc.prems(1,2,8) False pv by (auto simp: above_def nth_list_update)
    have f: "fanout_ok d (mb[Suc l := prev]) (Suc l)"
      using Suc.prems(1,2,9) next_cur
      by (auto simp: fanout_ok_def nth_list_update prev_def)
    have "1 \<le> base \<and> base \<le> l \<and> length mb' = 7 \<and> (\<forall>i < base. mb' ! i = u) \<and> mn < mb' ! base \<and> mb' ! base \<le> q \<and>
        above q v mb' base \<and> fanout_ok d mb' (Suc base) \<and>
        mb' ! base = max (imr_lsm_div_round_up_u64 (mb' ! Suc base) d) (mn + 1)"
      by (rule Suc.IH [OF len _ _ _ le Suc.prems(6) _ a f Suc.prems(10) eq])
        (use Suc.prems False in auto)
    then show ?thesis by auto
  qed
qed

lemma fold_max:
  fixes f :: "'a \<Rightarrow> nat"
  shows "(\<forall>l \<in> set ls. f l \<le> fold (\<lambda>l mx. let b = f l in if b > mx then b else mx) ls x) \<and>
    x \<le> fold (\<lambda>l mx. let b = f l in if b > mx then b else mx) ls x \<and>
    fold (\<lambda>l mx. let b = f l in if b > mx then b else mx) ls x \<in> insert x (f ` set ls)"
proof (induction ls arbitrary: x)
  case (Cons a ls)
  show ?case using Cons [of "if f a > x then f a else x"] by (auto simp: Let_def split: if_splits)
qed simp

lemma largest_level_bytes_bound:
  "largest_level_bytes m \<le> 32 * u32_max"
  "1 \<le> l \<Longrightarrow> l < IMR_LSM_LEVELS \<Longrightarrow> imr_lsm_level_actual_bytes_locked l m \<le> largest_level_bytes m"
proof -
  note f = fold_max [where f = "\<lambda>l. imr_lsm_level_actual_bytes_locked l m" and ls = "[1..<IMR_LSM_LEVELS]" and x = 0,
      folded largest_level_bytes_def]
  show "1 \<le> l \<Longrightarrow> l < IMR_LSM_LEVELS \<Longrightarrow> imr_lsm_level_actual_bytes_locked l m \<le> largest_level_bytes m"
    using f by auto
  have "n mod 2 ^ 32 \<le> u32_max" for n by (simp add: u32_max_def less_Suc_eq_le [symmetric])
  then have "imr_lsm_level_actual_bytes_locked l m \<le> 32 * u32_max" for l
    by (simp add: imr_lsm_level_actual_bytes_locked_def imr_lsm_level_total_count_locked_def lsm_consts)
  then show "largest_level_bytes m \<le> 32 * u32_max" using f by auto
qed

lemma lowest_unnecessary_spec:
  "lowest_unnecessary base m = -1 \<and> (\<forall>l. 1 \<le> l \<and> l < base \<longrightarrow> imr_lsm_level_total_count_locked l m = 0) \<or>
   (\<exists>l. lowest_unnecessary base m = int l \<and> 1 \<le> l \<and> l < base \<and> imr_lsm_level_total_count_locked l m \<noteq> 0 \<and>
     (\<forall>k. l < k \<and> k < base \<longrightarrow> imr_lsm_level_total_count_locked k m = 0))"
proof (induction base)
  case 0 show ?case by (simp add: lowest_unnecessary_def)
next
  case (Suc base)
  show ?case
  proof (cases "1 \<le> base")
    case True
    have step: "lowest_unnecessary (Suc base) m =
        (if imr_lsm_level_total_count_locked base m \<noteq> 0 then int base else lowest_unnecessary base m)"
      using True by (simp add: lowest_unnecessary_def)
    show ?thesis
    proof (cases "imr_lsm_level_total_count_locked base m = 0")
      case z: True
      then have "lowest_unnecessary (Suc base) m = lowest_unnecessary base m" by (simp add: step)
      then show ?thesis using Suc.IH z by (fastforce simp: less_Suc_eq)
    next
      case nz: False
      then have "lowest_unnecessary (Suc base) m = int base" by (simp add: step)
      then show ?thesis using True nz by (intro disjI2 exI [of _ base]) auto
    qed
  qed (auto simp: lowest_unnecessary_def)
qed

text \<open>The bounds that the debugfs writers enforce on the tunables.\<close>

definition config_ok :: "imr_lsm_config \<Rightarrow> bool" where
  "config_ok c \<longleftrightarrow> 1 \<le> imr_lsm_compaction_threshold_locked c \<and> imr_lsm_compaction_threshold_locked c \<le> 4096 \<and>
     32 \<le> imr_lsm_max_bytes_for_level_base_locked c \<and> imr_lsm_max_bytes_for_level_base_locked c \<le> 2 ^ 40 \<and>
     2 \<le> imr_lsm_max_bytes_for_level_multiplier_locked c \<and> imr_lsm_max_bytes_for_level_multiplier_locked c \<le> 1000"

lemma config_ok_default: "config_ok imr_lsm_reset_validation_overrides_locked"
  by (simp add: config_ok_def imr_lsm_reset_validation_overrides_locked_def imr_lsm_compaction_threshold_locked_def
      imr_lsm_max_bytes_for_level_base_locked_def imr_lsm_max_bytes_for_level_multiplier_locked_def lsm_consts)

text \<open>The shape of the level targets: undefined above the base level, then growing by the fan-out.\<close>

definition targets_ok :: "nat \<Rightarrow> nat \<Rightarrow> nat list \<Rightarrow> nat \<Rightarrow> bool" where
  "targets_ok q d mb base \<longleftrightarrow> 1 \<le> base \<and> base \<le> 6 \<and> length mb = 7 \<and> (\<forall>i < base. mb ! i = u64_max) \<and>
     q div d < mb ! base \<and> mb ! base \<le> q \<and> above q (u64_max - 1) mb base \<and> fanout_ok d mb (Suc base)"

lemma calculate_levels_frame [simp]:
  "levels (imr_lsm_calculate_dynamic_levels_locked c m) = levels m"
  "segments (imr_lsm_calculate_dynamic_levels_locked c m) = segments m"
  "read_lru (imr_lsm_calculate_dynamic_levels_locked c m) = read_lru m"
  "lsm_timestamp (imr_lsm_calculate_dynamic_levels_locked c m) = lsm_timestamp m"
  "active_write_level (imr_lsm_calculate_dynamic_levels_locked c m) = 0"
  by (simp_all add: imr_lsm_calculate_dynamic_levels_locked_def Let_def split: prod.split)

lemma calculate_levels_targets:
  assumes "config_ok c" "m' = imr_lsm_calculate_dynamic_levels_locked c m"
  shows "targets_ok (imr_lsm_max_bytes_for_level_base_locked c) (effective_level_multiplier m')
      (level_max_bytes m') (base_level m') \<and>
    imr_lsm_max_bytes_for_level_multiplier_locked c \<le> effective_level_multiplier m' \<and>
    lowest_unnecessary_level m' = lowest_unnecessary (base_level m') m"
proof -
  define q d0 v where "q = imr_lsm_max_bytes_for_level_base_locked c"
    and "d0 = imr_lsm_max_bytes_for_level_multiplier_locked c" and "v = largest_level_bytes m"
  define d where "d = (if v > q then imr_lsm_effective_level_multiplier v q d0 else d0)"
  define mn where "mn = (if q div d = 0 then 1 else q div d)"
  have q: "32 \<le> q" "q \<le> 2 ^ 40" and d0: "2 \<le> d0" "d0 \<le> 1000"
    using assms(1) by (simp_all add: config_ok_def q_def d0_def)
  have v: "v \<le> u64_max - 1" using largest_level_bytes_bound(1) [of m] by (simp add: v_def u32_max_def u64_max_def)
  have eff: "v \<le> q * imr_lsm_effective_level_multiplier v q d0 ^ 5 \<and> d0 \<le> imr_lsm_effective_level_multiplier v q d0"
    using effective_multiplier_bound [of d0 q v] q d0 v by (simp add: u32_max_def)
  then have d: "d0 \<le> d" "v > q \<Longrightarrow> v \<le> q * d ^ 5" by (auto simp: d_def)
  then have "q div d < q" using q d0 by (intro div_less_dividend) auto
  then have mn: "mn < q" "q div d \<le> mn" using q by (auto simp: mn_def)
  define r where "r = (if v \<le> q then ((replicate 7 u64_max)[6 := q], 6)
       else base_loop d q mn 5 v ((replicate 7 u64_max)[6 := v]) 6)"
  obtain mb base where r: "r = (mb, base)" by fastforce
  have "m' = m\<lparr>level_max_bytes := mb, active_write_level := 0, effective_level_multiplier := d,
      base_level := base, lowest_unnecessary_level := lowest_unnecessary base m\<rparr>"
    using assms(2) unfolding imr_lsm_calculate_dynamic_levels_locked_def Let_def lsm_consts
      q_def [symmetric] d0_def [symmetric] v_def [symmetric] d_def [symmetric] mn_def [symmetric]
    using r unfolding r_def by (simp split: if_splits)
  then have m': "effective_level_multiplier m' = d" "lowest_unnecessary_level m' = lowest_unnecessary (base_level m') m"
    "(level_max_bytes m', base_level m') = r" using r by simp_all
  show ?thesis
  proof (cases "v \<le> q")
    case True
    then have "level_max_bytes m' = (replicate 7 u64_max)[6 := q]" "base_level m' = 6" using m'(3) by (simp_all add: r_def)
    then show ?thesis using m'(1,2) d(1) q(1) \<open>q div d < q\<close>
      by (simp add: targets_ok_def q_def [symmetric] d0_def [symmetric] above_def fanout_ok_def)
  next
    case False
    let ?mb = "(replicate 7 u64_max)[6 := v]"
    have "base_loop d q mn 5 v ?mb 6 = (level_max_bytes m', base_level m')" using m'(3) False by (simp add: r_def)
    from base_loop_result [OF _ _ _ _ _ _ _ _ _ mn(1) this, of u64_max "u64_max - 1"] False d v d0
    show ?thesis using m'(1,2) mn(2)
      by (force simp: targets_ok_def q_def [symmetric] d0_def [symmetric] above_def fanout_ok_def nth_list_update)
  qed
qed

text \<open>C32.  The fan-out that the dynamic level sizing picks is the least one, from the configured
  multiplier up, with which the largest level can be reached from the base size in five steps; the
  doubling and the binary search of the code agree with that definition.\<close>

theorem effective_multiplier_least:
  assumes "0 < configured" "configured \<le> u32_max" "0 < base_max" "max_bytes \<le> u64_max"
  shows "imr_lsm_effective_level_multiplier max_bytes base_max configured =
    (LEAST d. configured \<le> d \<and> max_bytes \<le> base_max * d ^ 5)"
proof (rule Least_equality [symmetric])
  note e = effective_multiplier_bound [OF assms(1-3), of max_bytes] assms(4)
  show "configured \<le> imr_lsm_effective_level_multiplier max_bytes base_max configured \<and>
      max_bytes \<le> base_max * imr_lsm_effective_level_multiplier max_bytes base_max configured ^ 5"
    using e by blast
  show "imr_lsm_effective_level_multiplier max_bytes base_max configured \<le> d"
    if "configured \<le> d \<and> max_bytes \<le> base_max * d ^ 5" for d
    using e that by (metis not_le)
qed

theorem effective_multiplier_least_witness:
  "(LEAST d. 2 \<le> d \<and> 1000000 \<le> 512 * d ^ 5) = imr_lsm_effective_level_multiplier 1000000 512 2"
  using effective_multiplier_least [of 2 512 1000000] by (simp add: u32_max_def u64_max_def)

text \<open>C29.  Dynamic level sizing, for every state and every admissible configuration: there is a base
  level between 1 and 6; levels above it have no target; the base target lies in
  (\<open>base / fan-out\<close>, \<open>base\<close>]; every deeper target is larger than the base size, and each target is
  the next one divided by the fan-out, rounded up; the fan-out is at least the configured one; and
  the lowest unnecessary level is the deepest non-empty level above the base, or -1.\<close>

theorem dynamic_levels_correct:
  assumes "config_ok c" "m' = imr_lsm_calculate_dynamic_levels_locked c m"
  shows "targets_ok (imr_lsm_max_bytes_for_level_base_locked c) (effective_level_multiplier m')
      (level_max_bytes m') (base_level m') \<and>
    imr_lsm_max_bytes_for_level_multiplier_locked c \<le> effective_level_multiplier m' \<and>
    (lowest_unnecessary_level m' = -1 \<and>
       (\<forall>l. 1 \<le> l \<and> l < base_level m' \<longrightarrow> imr_lsm_level_total_count_locked l m = 0) \<or>
     (\<exists>l. lowest_unnecessary_level m' = int l \<and> 1 \<le> l \<and> l < base_level m' \<and>
       imr_lsm_level_total_count_locked l m \<noteq> 0 \<and>
       (\<forall>k. l < k \<and> k < base_level m' \<longrightarrow> imr_lsm_level_total_count_locked k m = 0))) \<and>
    levels m' = levels m \<and> segments m' = segments m"
  using calculate_levels_targets [OF assms] lowest_unnecessary_spec [of "base_level m'" m] assms(2) by simp

theorem dynamic_levels_correct_witness:
  "targets_ok 512 (effective_level_multiplier (imr_lsm_calculate_dynamic_levels_locked
       imr_lsm_reset_validation_overrides_locked (imr_lsm_initialize_metadata_locked (zero_metadata [] 0))))
     (level_max_bytes (imr_lsm_calculate_dynamic_levels_locked
       imr_lsm_reset_validation_overrides_locked (imr_lsm_initialize_metadata_locked (zero_metadata [] 0))))
     (base_level (imr_lsm_calculate_dynamic_levels_locked
       imr_lsm_reset_validation_overrides_locked (imr_lsm_initialize_metadata_locked (zero_metadata [] 0))))"
  using dynamic_levels_correct [OF config_ok_default refl]
  by (simp add: imr_lsm_max_bytes_for_level_base_locked_def imr_lsm_reset_validation_overrides_locked_def lsm_consts)

section \<open>Picking a level\<close>

lemma find_first_upt:
  assumes "i \<le> k" "k < n" "P k" "\<forall>j. i \<le> j \<and> j < k \<longrightarrow> \<not> P j"
  shows "find P [i..<n] = Some k"
proof -
  have "[i..<n] = [i..<k] @ k # [Suc k..<n]"
    using assms(1,2) by (metis less_imp_le_nat upt_add_eq_append upt_conv_Cons le_add_diff_inverse)
  moreover have "find P [i..<k] = None" using assms(4) by (auto simp: find_None_iff)
  moreover have "find P (xs @ k # ys) = Some k" if "find P xs = None" for xs ys
    using that assms(3) by (induction xs) (auto split: if_splits)
  ultimately show ?thesis by simp
qed

lemma dst_level_eq:
  assumes "config_ok c" "level < IMR_LSM_MAX_LEVEL"
  shows "fst (imr_lsm_compaction_dst_level_locked c level m) =
    max (level + 1) (base_level (imr_lsm_calculate_dynamic_levels_locked c m))"
proof -
  define m1 where "m1 = imr_lsm_calculate_dynamic_levels_locked c m"
  define k where "k = max (level + 1) (base_level m1)"
  have t: "targets_ok (imr_lsm_max_bytes_for_level_base_locked c) (effective_level_multiplier m1)
      (level_max_bytes m1) (base_level m1)"
    using calculate_levels_targets [OF assms(1) m1_def] by simp
  have q: "imr_lsm_max_bytes_for_level_base_locked c < u64_max" using assms(1) by (simp add: config_ok_def u64_max_def)
  have "find (\<lambda>dst. level_max_bytes m1 ! dst \<noteq> u64_max) [level + 1..<IMR_LSM_LEVELS] = Some k"
  proof (rule find_first_upt)
    show "level + 1 \<le> k" "k < IMR_LSM_LEVELS" using t assms(2) by (auto simp: k_def targets_ok_def lsm_consts)
    show "level_max_bytes m1 ! k \<noteq> u64_max"
    proof (cases "k = base_level m1")
      case True then show ?thesis using t q by (auto simp: targets_ok_def)
    next
      case False
      then have "base_level m1 < k" by (auto simp: k_def)
      moreover have "k \<le> 6" using t assms(2) by (auto simp: k_def targets_ok_def lsm_consts)
      ultimately show ?thesis using t by (auto simp: targets_ok_def above_def u64_max_def)
    qed
    show "\<forall>j. level + 1 \<le> j \<and> j < k \<longrightarrow> \<not> level_max_bytes m1 ! j \<noteq> u64_max"
      using t by (auto simp: targets_ok_def k_def)
  qed
  then show ?thesis using assms(2) by (simp add: imr_lsm_compaction_dst_level_locked_def m1_def [symmetric] k_def)
qed

definition pick_inv :: "imr_lsm_config \<Rightarrow> imr_lsm_metadata \<Rightarrow> nat \<times> nat \<times> nat \<Rightarrow> bool" where
  "pick_inv c m st = (case st of (b, score, _) \<Rightarrow>
     (score > 0 \<longrightarrow> b < 6 \<and> (\<exists>t. score = imr_lsm_compaction_score_locked c b t m)))"

lemma pick_step_inv:
  assumes "pick_inv c m st" "level < 6"
  shows "pick_inv c m (pick_step c m level st)" and "fst (snd st) \<le> fst (snd (pick_step c m level st))"
    and "imr_lsm_compaction_score_locked c level (snd (snd st)) m \<le> fst (snd (pick_step c m level st))"
  using assms by (auto simp: pick_inv_def pick_step_def Let_def split: prod.splits if_splits)

lemma pick_fold:
  assumes "pick_inv c m st" "\<forall>l \<in> set ls. l < 6"
  shows "pick_inv c m (fold (pick_step c m) ls st) \<and> fst (snd st) \<le> fst (snd (fold (pick_step c m) ls st))"
  using assms
proof (induction ls arbitrary: st)
  case (Cons l ls)
  then have l: "l < 6" by simp
  show ?case using Cons.IH [OF pick_step_inv(1) [OF Cons.prems(1) l]] Cons.prems(2)
      pick_step_inv(2) [OF Cons.prems(1) l] by auto
qed simp

lemma score_nonzero_count: "imr_lsm_compaction_score_locked c l t m \<noteq> 0 \<Longrightarrow> imr_lsm_level_total_count_locked l m \<noteq> 0"
  by (auto simp: imr_lsm_compaction_score_locked_def imr_lsm_level_actual_bytes_locked_def Let_def split: if_splits)

lemma levels_counts_cong:
  assumes "levels m' = levels m"
  shows "imr_lsm_level_total_count_locked l m' = imr_lsm_level_total_count_locked l m"
    "largest_level_bytes m' = largest_level_bytes m" "lowest_unnecessary base m' = lowest_unnecessary base m"
  by (simp_all only: largest_level_bytes_def lowest_unnecessary_def imr_lsm_level_actual_bytes_locked_def
        imr_lsm_level_total_count_locked_def assms)

lemma calculate_levels_idem:
  "imr_lsm_calculate_dynamic_levels_locked c (imr_lsm_calculate_dynamic_levels_locked c m) =
   imr_lsm_calculate_dynamic_levels_locked c m"
proof -
  have f: "largest_level_bytes (m\<lparr>level_max_bytes := a, active_write_level := b, effective_level_multiplier := d,
      base_level := e, lowest_unnecessary_level := g\<rparr>) = largest_level_bytes m"
    "lowest_unnecessary l (m\<lparr>level_max_bytes := a, active_write_level := b, effective_level_multiplier := d,
      base_level := e, lowest_unnecessary_level := g\<rparr>) = lowest_unnecessary l m" for a b d e g l
    by (rule levels_counts_cong; simp)+
  have "\<exists>a b d e g. imr_lsm_calculate_dynamic_levels_locked c m = m\<lparr>level_max_bytes := a, active_write_level := b,
      effective_level_multiplier := d, base_level := e, lowest_unnecessary_level := g\<rparr>"
    unfolding imr_lsm_calculate_dynamic_levels_locked_def Let_def case_prod_beta by blast
  then obtain a b d e g where eq: "imr_lsm_calculate_dynamic_levels_locked c m = m\<lparr>level_max_bytes := a,
      active_write_level := b, effective_level_multiplier := d, base_level := e, lowest_unnecessary_level := g\<rparr>" by blast
  have "imr_lsm_calculate_dynamic_levels_locked c (m\<lparr>level_max_bytes := a, active_write_level := b,
      effective_level_multiplier := d, base_level := e, lowest_unnecessary_level := g\<rparr>) =
      imr_lsm_calculate_dynamic_levels_locked c m"
    unfolding imr_lsm_calculate_dynamic_levels_locked_def Let_def case_prod_beta f by simp
  then show ?thesis by (simp add: eq)
qed

text \<open>C30.  The compaction picker.  A level it picks is below the last one, holds entries, has a score of at
  least one, and has a strictly deeper destination, the first level at or below the base; and when
  level 0 has reached the threshold a level is always picked, so pressure never goes unanswered.\<close>

theorem pick_level_correct:
  assumes "config_ok c" "(level, m') = imr_lsm_pick_compaction_level_locked c m"
  shows "(level < IMR_LSM_LEVELS \<longrightarrow> level < IMR_LSM_MAX_LEVEL \<and> imr_lsm_level_total_count_locked level m' \<noteq> 0 \<and>
      (\<exists>t. 1000 \<le> imr_lsm_compaction_score_locked c level t m') \<and>
      fst (imr_lsm_compaction_dst_level_locked c level m') = max (level + 1) (base_level m')) \<and>
    (imr_lsm_compaction_threshold_locked c \<le> imr_lsm_level_total_count_locked 0 m \<longrightarrow> level < IMR_LSM_LEVELS)"
proof -
  define m1 where "m1 = imr_lsm_calculate_dynamic_levels_locked c m"
  define ls where "ls = [0..<IMR_LSM_LEVELS - 1]"
  define st where "st = fold (pick_step c m1) ls (IMR_LSM_LEVELS, 0, 0)"
  have "ls = 0 # [1..<IMR_LSM_LEVELS - 1]" unfolding ls_def by (subst upt_conv_Cons) (simp_all add: lsm_consts)
  then obtain ls' where ls0: "ls = 0 # ls'" by blast
  have ls: "\<forall>l \<in> set ls. l < 6" by (simp add: ls_def lsm_consts)
  obtain b s t where st: "st = (b, s, t)" by (cases st)
  have m': "m' = m1" and level: "level = (if s \<ge> 1000 then b else IMR_LSM_LEVELS)"
    using assms(2) unfolding imr_lsm_pick_compaction_level_locked_def Let_def m1_def [symmetric]
      ls_def [symmetric] st_def [symmetric] IMR_LSM_SCORE_SCALE_def st by simp_all
  have i: "pick_inv c m1 (IMR_LSM_LEVELS, 0, 0)" by (simp add: pick_inv_def)
  have inv: "pick_inv c m1 (b, s, t)" using pick_fold [OF i ls] st by (simp add: st_def)
  have idem: "imr_lsm_calculate_dynamic_levels_locked c m1 = m1" by (simp add: m1_def calculate_levels_idem)
  have a: "b < IMR_LSM_MAX_LEVEL \<and> imr_lsm_level_total_count_locked b m1 \<noteq> 0 \<and>
      (\<exists>t. 1000 \<le> imr_lsm_compaction_score_locked c b t m1)" if "s \<ge> 1000"
    using inv that score_nonzero_count [of c b _ m1] by (fastforce simp: pick_inv_def lsm_consts)
  have z: "s \<ge> 1000" if "imr_lsm_compaction_threshold_locked c \<le> imr_lsm_level_total_count_locked 0 m"
  proof -
    have pos: "1 \<le> imr_lsm_compaction_threshold_locked c" using assms(1) by (simp add: config_ok_def)
    have "imr_lsm_level_total_count_locked 0 m1 = imr_lsm_level_total_count_locked 0 m"
      by (simp add: m1_def imr_lsm_level_total_count_locked_def)
    then have "1000 \<le> imr_lsm_compaction_score_locked c 0 0 m1"
      using that pos by (simp add: imr_lsm_compaction_score_locked_def lsm_consts IMR_LSM_SCORE_SCALE_def less_eq_div_iff_mult_less_eq)
    also have "\<dots> \<le> fst (snd (pick_step c m1 0 (IMR_LSM_LEVELS, 0, 0)))" using pick_step_inv(3) [OF i, of 0] by simp
    also have "\<dots> \<le> fst (snd (fold (pick_step c m1) ls' (pick_step c m1 0 (IMR_LSM_LEVELS, 0, 0))))"
      using pick_fold [OF pick_step_inv(1) [OF i, of 0], of ls'] ls by (simp add: ls0)
    also have "fold (pick_step c m1) ls' (pick_step c m1 0 (IMR_LSM_LEVELS, 0, 0)) = st"
      by (simp add: st_def ls0)
    finally show ?thesis by (simp add: st)
  qed
  show ?thesis using a z dst_level_eq [OF assms(1), of level m'] by (auto simp: m' level idem lsm_consts)
qed

theorem pick_level_correct_witness:
  "let m = (zero_metadata [] 0)\<lparr>levels := (replicate 7 zero_level)[0 := zero_level\<lparr>unsorted_count := 16\<rparr>]\<rparr>
   in fst (imr_lsm_pick_compaction_level_locked imr_lsm_reset_validation_overrides_locked m) < IMR_LSM_LEVELS"
  using pick_level_correct [OF config_ok_default surjective_pairing [symmetric]]
  by (simp add: Let_def imr_lsm_level_total_count_locked_def imr_lsm_compaction_threshold_locked_def
      imr_lsm_reset_validation_overrides_locked_def zero_metadata_def zero_level_def lsm_consts)

end
