(* ===== verification/Imr_Cache.thy ===== *)
theory Imr_Cache
  imports Imr_Levels
begin

text \<open>
  The read cache of the in-kernel LSM, from \<open>dm-imrsim.c\<close> (\<open>imr_lsm_tree_*\<close> and the debugfs writer of
  its limit).  The C code keeps the nodes in a red-black tree by key and in an LRU list; \<open>read_lru\<close> is
  that list, its front evicted first, and a tree search is a search by key.  The lemmas show that the
  cache stays within its limit with distinct keys, never replaces a version by an older one, and
  evicts in least-recently-used order.
\<close>

datatype imr_lsm_lookup_result = IMR_LSM_LOOKUP_MISS | IMR_LSM_LOOKUP_VALID | IMR_LSM_LOOKUP_DELETED

definition imr_lsm_tree_find_node_locked :: "nat \<Rightarrow> imr_lsm_metadata \<Rightarrow> imr_lsm_read_tree_node option" where
  "imr_lsm_tree_find_node_locked key m = find (\<lambda>n. rt_key n = key) (read_lru m)"

definition imr_lsm_tree_record_last_locked ::
  "nat \<Rightarrow> nat \<Rightarrow> bool \<Rightarrow> nat \<Rightarrow> bool \<Rightarrow> imr_lsm_metadata \<Rightarrow> imr_lsm_metadata" where
  "imr_lsm_tree_record_last_locked key pba valid timestamp hit =
     stat_sets [(''last_read_tree_key'', int key), (''last_read_tree_pba'', int pba),
       (''last_read_tree_timestamp'', int timestamp), (''last_read_tree_valid'', bool_int valid),
       (''last_read_tree_hit'', bool_int hit)]"

text \<open>The second and third results are what the out parameters receive, \<open>None\<close> when not written.\<close>

definition imr_lsm_tree_lookup_locked ::
  "nat \<Rightarrow> imr_lsm_metadata \<Rightarrow> imr_lsm_lookup_result \<times> nat option \<times> nat option \<times> imr_lsm_metadata" where
  "imr_lsm_tree_lookup_locked key m =
     (let m1 = stat_inc ''read_tree_lookup_count'' m
      in case imr_lsm_tree_find_node_locked key m1 of
           None \<Rightarrow> (IMR_LSM_LOOKUP_MISS, None, None,
             imr_lsm_tree_record_last_locked key 0 False 0 False (stat_inc ''read_tree_miss_count'' m1))
         | Some node \<Rightarrow>
             let m2 = m1\<lparr>read_lru := remove1 node (read_lru m1) @ [node]\<rparr>;
                 m3 = imr_lsm_tree_record_last_locked (rt_key node) (rt_pba node) (rt_valid node) (rt_timestamp node)
                        True (stat_inc ''read_tree_hit_count'' m2)
             in if rt_valid node then (IMR_LSM_LOOKUP_VALID, Some (rt_pba node), Some (rt_timestamp node), m3)
                else (IMR_LSM_LOOKUP_DELETED, None, Some (rt_timestamp node), m3))"

definition imr_lsm_tree_remove_node_locked :: "imr_lsm_read_tree_node \<Rightarrow> imr_lsm_metadata \<Rightarrow> imr_lsm_metadata" where
  "imr_lsm_tree_remove_node_locked node m =
     stat_inc ''read_tree_remove_count''
       (m\<lparr>read_lru := remove1 node (read_lru m),
          read_tree_size := (if read_tree_size m \<noteq> 0 then read_tree_size m - 1 else 0)\<rparr>)"

definition imr_lsm_tree_remove_locked :: "nat \<Rightarrow> imr_lsm_metadata \<Rightarrow> imr_lsm_metadata" where
  "imr_lsm_tree_remove_locked key m =
     (case imr_lsm_tree_find_node_locked key m of
        None \<Rightarrow> m | Some node \<Rightarrow> imr_lsm_tree_remove_node_locked node m)"

function evict_loop :: "nat \<Rightarrow> imr_lsm_metadata \<Rightarrow> imr_lsm_metadata" where
  "evict_loop limit m =
     (if read_tree_size m > limit \<and> read_lru m \<noteq> []
      then evict_loop limit (stat_inc ''read_tree_evict_count''
             (m\<lparr>read_lru := tl (read_lru m), read_tree_size := read_tree_size m - 1\<rparr>))
      else m)"
  by pat_completeness auto
termination by (relation "measure (\<lambda>(_, m). length (read_lru m))") (auto simp: stat_add_def)

declare evict_loop.simps [simp del]

definition imr_lsm_tree_evict_locked :: "imr_lsm_metadata \<Rightarrow> imr_lsm_metadata" where
  "imr_lsm_tree_evict_locked m = evict_loop (imr_lsm_read_tree_limit_locked m) m"

definition imr_lsm_tree_update_locked :: "nat \<Rightarrow> nat \<Rightarrow> bool \<Rightarrow> nat \<Rightarrow> imr_lsm_metadata \<Rightarrow> imr_lsm_metadata" where
  "imr_lsm_tree_update_locked key pba valid timestamp m =
     (case imr_lsm_tree_find_node_locked key m of
        Some node \<Rightarrow>
          (if timestamp \<ge> rt_timestamp node
           then stat_inc ''read_tree_update_count''
             (m\<lparr>read_lru := remove1 node (read_lru m) @
                [node\<lparr>rt_pba := pba, rt_valid := valid, rt_timestamp := timestamp\<rparr>]\<rparr>)
           else m\<lparr>read_lru := remove1 node (read_lru m) @ [node]\<rparr>)
      | None \<Rightarrow>
          (case kalloc (kmem m) of
             (False, mem) \<Rightarrow> stat_inc ''read_tree_update_fail_count'' (m\<lparr>kmem := mem\<rparr>)
           | (True, mem) \<Rightarrow>
               imr_lsm_tree_evict_locked (stat_inc ''read_tree_update_count''
                 (m\<lparr>kmem := mem, read_lru := read_lru m @
                    [\<lparr>rt_key = key, rt_pba = pba, rt_valid = valid, rt_timestamp = timestamp\<rparr>],
                    read_tree_size := read_tree_size m + 1\<rparr>))))"

text \<open>The debugfs writer, after the number has been parsed; the result is the error code, if any.\<close>

definition imr_lsm_debugfs_read_tree_limit_write ::
  "bool \<Rightarrow> nat \<Rightarrow> imr_lsm_metadata \<Rightarrow> kret \<times> imr_lsm_metadata" where
  "imr_lsm_debugfs_read_tree_limit_write target_ready limit m =
     (if limit > IMR_LSM_READ_TREE_LIMIT then (K_EINVAL, m)
      else if \<not> target_ready then (K_ENODEV, m)
      else
        let limit' = (if limit = 0 then IMR_LSM_READ_TREE_LIMIT else limit);
            m1 = (if initialized m then m else imr_lsm_initialize_metadata_locked m)
        in (0, imr_lsm_tree_evict_locked (m1\<lparr>read_tree_limit := limit'\<rparr>)))"

section \<open>Frame\<close>

text \<open>All that the cache operations leave alone.\<close>

definition cache_core :: "imr_lsm_metadata \<Rightarrow> imr_lsm_metadata" where
  "cache_core m = m\<lparr>read_lru := [], read_tree_size := 0, stats := (\<lambda>_. 0), kmem := []\<rparr>"

lemma cache_core_upd [simp]:
  "cache_core (stat_add f i m) = cache_core m" "cache_core (stat_set f i m) = cache_core m"
  "cache_core (m\<lparr>read_lru := l\<rparr>) = cache_core m" "cache_core (m\<lparr>read_tree_size := n\<rparr>) = cache_core m"
  "cache_core (m\<lparr>kmem := k\<rparr>) = cache_core m"
  by (simp_all add: cache_core_def stat_add_def stat_set_def)

lemma cache_core_stats [simp]:
  "cache_core (stat_sets xs m) = cache_core m" "cache_core (stat_adds xs m) = cache_core m"
  using stat_sets_only [of xs m] stat_adds_only [of xs m] by (auto simp: cache_core_def)

lemma cache_coreD:
  assumes "cache_core m' = cache_core m"
  shows "levels m' = levels m" "segments m' = segments m" "lsm_timestamp m' = lsm_timestamp m"
    "newest_tree m' = newest_tree m" "newest_index_valid m' = newest_index_valid m"
    "read_tree_limit m' = read_tree_limit m" "initialized m' = initialized m" "active_write_level m' = active_write_level m"
    "next_segment_id m' = next_segment_id m" "segment_count m' = segment_count m"
    "level_compaction_pending m' = level_compaction_pending m" "metadata_epoch m' = metadata_epoch m"
    "level_max_bytes m' = level_max_bytes m" "base_level m' = base_level m"
  using arg_cong [OF assms, of levels] arg_cong [OF assms, of segments] arg_cong [OF assms, of lsm_timestamp] arg_cong [OF assms, of newest_tree] arg_cong [OF assms, of newest_index_valid]
    arg_cong [OF assms, of read_tree_limit] arg_cong [OF assms, of initialized] arg_cong [OF assms, of active_write_level] arg_cong [OF assms, of next_segment_id] arg_cong [OF assms, of segment_count]
    arg_cong [OF assms, of level_compaction_pending] arg_cong [OF assms, of metadata_epoch] arg_cong [OF assms, of level_max_bytes] arg_cong [OF assms, of base_level]
  by (simp_all add: cache_core_def)

lemma evict_core [simp]: "cache_core (evict_loop limit m) = cache_core m"
proof (induction limit m rule: evict_loop.induct)
  case (1 limit m)
  show ?case using 1 by (subst evict_loop.simps) simp
qed

lemma cache_ops_core [simp]:
  "cache_core (snd (snd (snd (imr_lsm_tree_lookup_locked key m)))) = cache_core m"
  "cache_core (imr_lsm_tree_remove_locked key m) = cache_core m"
  "cache_core (imr_lsm_tree_evict_locked m) = cache_core m"
  "cache_core (imr_lsm_tree_update_locked key pba valid timestamp m) = cache_core m"
  by (simp_all add: imr_lsm_tree_lookup_locked_def imr_lsm_tree_record_last_locked_def imr_lsm_tree_remove_locked_def
      imr_lsm_tree_remove_node_locked_def imr_lsm_tree_evict_locked_def imr_lsm_tree_update_locked_def Let_def
      split: option.split prod.split bool.split)

section \<open>The invariant\<close>

definition cache_ok :: "imr_lsm_metadata \<Rightarrow> bool" where
  "cache_ok m \<longleftrightarrow> distinct (map rt_key (read_lru m)) \<and> read_tree_size m = length (read_lru m) \<and>
     length (read_lru m) \<le> imr_lsm_read_tree_limit_locked m"

text \<open>What the cache says about a key.\<close>

definition cached :: "imr_lsm_metadata \<Rightarrow> nat \<Rightarrow> version option" where
  "cached m key = map_option (\<lambda>n. (rt_timestamp n, rt_pba n, rt_valid n)) (imr_lsm_tree_find_node_locked key m)"

lemma stat_fields [simp]:
  "read_lru (stat_add f i m) = read_lru m" "read_tree_size (stat_add f i m) = read_tree_size m"
  "read_tree_limit (stat_add f i m) = read_tree_limit m" "kmem (stat_add f i m) = kmem m"
  by (simp_all add: stat_add_def)

lemma record_last_fields [simp]:
  "read_lru (imr_lsm_tree_record_last_locked a b c d e m) = read_lru m"
  "read_tree_size (imr_lsm_tree_record_last_locked a b c d e m) = read_tree_size m"
  "read_tree_limit (imr_lsm_tree_record_last_locked a b c d e m) = read_tree_limit m"
  by (simp_all add: imr_lsm_tree_record_last_locked_def stat_sets_def stat_set_def)

lemma evict_loop_result:
  assumes "read_tree_size m = length (read_lru m)"
  shows "read_lru (evict_loop limit m) = drop (length (read_lru m) - limit) (read_lru m) \<and>
    read_tree_size (evict_loop limit m) = length (read_lru (evict_loop limit m))"
  using assms
proof (induction limit m rule: evict_loop.induct)
  case (1 limit m)
  show ?case
  proof (cases "read_tree_size m > limit \<and> read_lru m \<noteq> []")
    case True
    then have "length (read_lru m) - limit = Suc (length (tl (read_lru m)) - limit)" using 1(2) by auto
    then show ?thesis using 1(1) [OF True] 1(2) True by (subst (1 2 3) evict_loop.simps) (simp add: drop_Suc)
  next
    case False
    then show ?thesis using 1(2) by (subst (1 2 3) evict_loop.simps) auto
  qed
qed

lemma evict_locked:
  assumes "read_tree_size m = length (read_lru m)"
  shows "read_lru (imr_lsm_tree_evict_locked m) =
      drop (length (read_lru m) - imr_lsm_read_tree_limit_locked m) (read_lru m)"
    "read_tree_size (imr_lsm_tree_evict_locked m) = length (read_lru (imr_lsm_tree_evict_locked m))"
    "imr_lsm_read_tree_limit_locked (imr_lsm_tree_evict_locked m) = imr_lsm_read_tree_limit_locked m"
  using evict_loop_result [OF assms] cache_coreD(6) [OF evict_core]
  by (simp_all add: imr_lsm_tree_evict_locked_def imr_lsm_read_tree_limit_locked_def)

lemma evict_ok:
  assumes "read_tree_size m = length (read_lru m)" "distinct (map rt_key (read_lru m))"
  shows "cache_ok (imr_lsm_tree_evict_locked m)"
  using assms(2) by (simp add: cache_ok_def evict_locked [OF assms(1)] drop_map [symmetric])

lemma find_node_Some:
  "imr_lsm_tree_find_node_locked key m = Some n \<Longrightarrow> n \<in> set (read_lru m) \<and> rt_key n = key"
  by (auto simp: imr_lsm_tree_find_node_locked_def find_Some_iff)

lemma find_node_iff:
  assumes "distinct (map rt_key (read_lru m))"
  shows "imr_lsm_tree_find_node_locked key m = Some n \<longleftrightarrow> n \<in> set (read_lru m) \<and> rt_key n = key"
proof
  assume "n \<in> set (read_lru m) \<and> rt_key n = key"
  then obtain i where i: "i < length (read_lru m)" "read_lru m ! i = n" "rt_key n = key" by (auto simp: in_set_conv_nth)
  have "rt_key (read_lru m ! j) \<noteq> key" if "j < i" for j
    using assms i that nth_eq_iff_index_eq [of "map rt_key (read_lru m)" j i] by auto
  then show "imr_lsm_tree_find_node_locked key m = Some n"
    using i by (auto simp: imr_lsm_tree_find_node_locked_def find_Some_iff)
qed (rule find_node_Some)

lemma find_node_None: "imr_lsm_tree_find_node_locked key m = None \<longleftrightarrow> key \<notin> rt_key ` set (read_lru m)"
  by (auto simp: imr_lsm_tree_find_node_locked_def find_None_iff)

text \<open>Moving a node to the tail, with new contents for the same key.\<close>

lemma move_tail_distinct:
  assumes "distinct (map rt_key l)" "n \<in> set l" "rt_key n' = rt_key n"
  shows "distinct (map rt_key (remove1 n l @ [n']))" "length (remove1 n l @ [n']) = length l"
    "set (remove1 n l @ [n']) = insert n' (set l - {n})"
    "\<forall>x \<in> set l. rt_key x = rt_key n \<longrightarrow> x = n"
proof -
  have d: "distinct l" using assms(1) by (simp add: distinct_map)
  show u: "\<forall>x \<in> set l. rt_key x = rt_key n \<longrightarrow> x = n" using assms(1,2) by (auto simp: distinct_map inj_on_def)
  show "set (remove1 n l @ [n']) = insert n' (set l - {n})" using d by (simp add: set_remove1_eq)
  show "length (remove1 n l @ [n']) = length l" using assms(2) length_pos_if_in_set [OF assms(2)] by (simp add: length_remove1)
  have "distinct (map rt_key (remove1 n l))"
    using assms(1) d by (auto simp: distinct_map intro: inj_on_subset dest: set_remove1_subset [THEN subsetD])
  then show "distinct (map rt_key (remove1 n l @ [n']))" using u assms(3) d by (force simp: set_remove1_eq)
qed

lemma map_eq_SomeI: "(\<And>k v. f k = Some v \<longleftrightarrow> g k = Some v) \<Longrightarrow> f = g"
  by (rule ext) (metis not_Some_eq)

lemma cached_iff:
  assumes "cache_ok m"
  shows "cached m key = Some v \<longleftrightarrow>
    (\<exists>n \<in> set (read_lru m). rt_key n = key \<and> v = (rt_timestamp n, rt_pba n, rt_valid n))"
  using assms by (auto simp: cached_def cache_ok_def find_node_iff)

lemma cached_cong: "read_lru m' = read_lru m \<Longrightarrow> cached m' = cached m"
  by (rule ext) (simp add: cached_def imr_lsm_tree_find_node_locked_def)

lemma cache_ok_cong:
  "read_lru m' = read_lru m \<Longrightarrow> read_tree_size m' = read_tree_size m \<Longrightarrow> read_tree_limit m' = read_tree_limit m \<Longrightarrow>
   cache_ok m' = cache_ok m"
  by (simp add: cache_ok_def imr_lsm_read_tree_limit_locked_def)

lemma limit_stat [simp]: "imr_lsm_read_tree_limit_locked (stat_add f i m) = imr_lsm_read_tree_limit_locked m"
  by (simp add: imr_lsm_read_tree_limit_locked_def)

text \<open>The LRU list after a lookup.\<close>

lemma tree_lookup_lru:
  "read_lru (snd (snd (snd (imr_lsm_tree_lookup_locked key m)))) =
     (case imr_lsm_tree_find_node_locked key m of
        None \<Rightarrow> read_lru m | Some n \<Rightarrow> remove1 n (read_lru m) @ [n])"
  "read_tree_size (snd (snd (snd (imr_lsm_tree_lookup_locked key m)))) = read_tree_size m"
  by (simp_all add: imr_lsm_tree_lookup_locked_def imr_lsm_tree_find_node_locked_def Let_def split: option.split)

lemma tree_lookup_result:
  "imr_lsm_tree_lookup_locked key m = (r, p, t, m') \<Longrightarrow>
     (case cached m key of
        None \<Rightarrow> r = IMR_LSM_LOOKUP_MISS
      | Some (ts, pba, valid) \<Rightarrow> (r, p) = (if valid then (IMR_LSM_LOOKUP_VALID, Some pba) else (IMR_LSM_LOOKUP_DELETED, None)))"
  by (auto simp: imr_lsm_tree_lookup_locked_def cached_def imr_lsm_tree_find_node_locked_def Let_def
      split: option.splits if_splits)

lemma cache_ok_move:
  assumes "cache_ok m" "n \<in> set (read_lru m)" "rt_key n' = rt_key n"
    "read_lru m' = remove1 n (read_lru m) @ [n']" "read_tree_size m' = read_tree_size m"
    "read_tree_limit m' = read_tree_limit m"
  shows "cache_ok m'"
    "cached m' = (cached m)(rt_key n \<mapsto> (rt_timestamp n', rt_pba n', rt_valid n'))"
proof -
  note mt = move_tail_distinct [OF _ assms(2,3), folded assms(4)]
  have d: "distinct (map rt_key (read_lru m))" using assms(1) by (simp add: cache_ok_def)
  show ok: "cache_ok m'"
    using assms(1,5,6) mt(1,2) [OF d] by (simp add: cache_ok_def imr_lsm_read_tree_limit_locked_def split: if_splits)
  have "cached m' k = Some v \<longleftrightarrow> ((cached m)(rt_key n \<mapsto> (rt_timestamp n', rt_pba n', rt_valid n'))) k = Some v" for k v
    using mt(3,4) [OF d] assms(3) by (auto simp: cached_iff [OF ok] cached_iff [OF assms(1)])
  then show "cached m' = (cached m)(rt_key n \<mapsto> (rt_timestamp n', rt_pba n', rt_valid n'))"
    by (rule map_eq_SomeI)
qed

lemma tree_lookup_ok:
  assumes "cache_ok m" "m' = snd (snd (snd (imr_lsm_tree_lookup_locked key m)))"
  shows "cache_ok m'" "cached m' = cached m"
proof -
  have l: "read_tree_limit m' = read_tree_limit m" using assms(2) by (auto intro: cache_coreD(6))
  have "cache_ok m' \<and> cached m' = cached m"
  proof (cases "imr_lsm_tree_find_node_locked key m")
    case None
    then have "read_lru m' = read_lru m" "read_tree_size m' = read_tree_size m"
      using assms(2) by (simp_all add: tree_lookup_lru)
    then show ?thesis using assms(1) l by (simp add: cache_ok_cong [of m' m] cached_cong [of m' m])
  next
    case (Some n)
    note n = find_node_Some [OF Some]
    have "cached m (rt_key n) = Some (rt_timestamp n, rt_pba n, rt_valid n)" using n Some by (simp add: cached_def)
    then show ?thesis
      using cache_ok_move [OF assms(1), of n n m'] n l assms(2) Some by (simp add: tree_lookup_lru fun_upd_idem)
  qed
  then show "cache_ok m'" "cached m' = cached m" by simp_all
qed

lemma tree_remove_ok:
  assumes "cache_ok m"
  shows "cache_ok (imr_lsm_tree_remove_locked key m)"
    "cached (imr_lsm_tree_remove_locked key m) = (cached m)(key := None)"
proof -
  define m' where "m' = imr_lsm_tree_remove_locked key m"
  have "cache_ok m' \<and> cached m' = (cached m)(key := None)"
  proof (cases "imr_lsm_tree_find_node_locked key m")
    case None
    then have "m' = m" by (simp add: m'_def imr_lsm_tree_remove_locked_def)
    then show ?thesis using None assms by (auto simp: cached_def fun_upd_idem)
  next
    case (Some n)
    note n = find_node_Some [OF Some]
    have d: "distinct (map rt_key (read_lru m))" and sz: "read_tree_size m = length (read_lru m)"
      using assms by (simp_all add: cache_ok_def)
    have l: "read_lru m' = remove1 n (read_lru m)"
      "read_tree_size m' = length (read_lru m')" "imr_lsm_read_tree_limit_locked m' = imr_lsm_read_tree_limit_locked m"
      using Some n sz by (auto simp: m'_def imr_lsm_tree_remove_locked_def imr_lsm_tree_remove_node_locked_def
          imr_lsm_read_tree_limit_locked_def length_remove1)
    have "distinct (map rt_key (remove1 n (read_lru m) @ [n]))" using move_tail_distinct(1) [OF d conjunct1 [OF n] refl] .
    then have ok: "cache_ok m'"
      using l assms by (auto simp: cache_ok_def length_remove1)
    have s: "set (read_lru m') = set (read_lru m) - {n}" using d l(1) by (simp add: distinct_map set_remove1_eq)
    have "cached m' k = Some v \<longleftrightarrow> ((cached m)(key := None)) k = Some v" for k v
      using n move_tail_distinct(4) [OF d conjunct1 [OF n] refl]
      by (auto simp: cached_iff [OF ok] cached_iff [OF assms] s)
    then show ?thesis using ok map_eq_SomeI [of "cached m'"] by blast
  qed
  then show "cache_ok (imr_lsm_tree_remove_locked key m)"
    "cached (imr_lsm_tree_remove_locked key m) = (cached m)(key := None)" by (simp_all add: m'_def)
qed

abbreviation cache_node :: "nat \<Rightarrow> nat \<Rightarrow> bool \<Rightarrow> nat \<Rightarrow> imr_lsm_read_tree_node" where
  "cache_node key pba valid timestamp \<equiv> \<lparr>rt_key = key, rt_pba = pba, rt_valid = valid, rt_timestamp = timestamp\<rparr>"

text \<open>The LRU list after an update: a cached key moves to the tail and keeps the newer version; a new
  key goes to the tail and the oldest nodes beyond the limit are dropped.\<close>

lemma tree_update_lru:
  assumes "cache_ok m"
  shows "read_lru (imr_lsm_tree_update_locked key pba valid timestamp m) =
    (case imr_lsm_tree_find_node_locked key m of
       Some n \<Rightarrow> remove1 n (read_lru m) @ [if rt_timestamp n \<le> timestamp then cache_node key pba valid timestamp else n]
     | None \<Rightarrow> if fst (kalloc (kmem m))
         then drop (length (read_lru m) + 1 - imr_lsm_read_tree_limit_locked m)
                (read_lru m @ [cache_node key pba valid timestamp])
         else read_lru m)"
proof (cases "imr_lsm_tree_find_node_locked key m")
  case None
  have sz: "read_tree_size m = length (read_lru m)" using assms by (simp add: cache_ok_def)
  obtain ok mem where k: "kalloc (kmem m) = (ok, mem)" by (cases "kalloc (kmem m)")
  show ?thesis
  proof (cases ok)
    case True
    then show ?thesis using None k sz
      by (simp add: imr_lsm_tree_update_locked_def evict_locked imr_lsm_read_tree_limit_locked_def)
  next
    case False
    then show ?thesis using None k by (simp add: imr_lsm_tree_update_locked_def)
  qed
next
  case (Some n)
  then show ?thesis using find_node_Some [OF Some] by (cases n) (auto simp: imr_lsm_tree_update_locked_def)
qed

lemma tree_update_ok:
  assumes "cache_ok m" "m' = imr_lsm_tree_update_locked key pba valid timestamp m"
  shows "cache_ok m'"
    "cached m' k = Some v \<Longrightarrow>
       cached m k = Some v \<or> (k = key \<and> v = (timestamp, pba, valid) \<and> (\<forall>w. cached m k = Some w \<longrightarrow> fst w \<le> timestamp))"
proof -
  have lim: "read_tree_limit m' = read_tree_limit m" using assms(2) by (auto intro: cache_coreD(6))
  have d: "distinct (map rt_key (read_lru m))" and sz: "read_tree_size m = length (read_lru m)"
    using assms(1) by (simp_all add: cache_ok_def)
  have "cache_ok m' \<and> (cached m' k = Some v \<longrightarrow> cached m k = Some v \<or>
      (k = key \<and> v = (timestamp, pba, valid) \<and> (\<forall>w. cached m k = Some w \<longrightarrow> fst w \<le> timestamp)))"
  proof (cases "imr_lsm_tree_find_node_locked key m")
    case (Some n)
    define n' where "n' = (if rt_timestamp n \<le> timestamp then cache_node key pba valid timestamp else n)"
    note n = find_node_Some [OF Some]
    have l: "read_lru m' = remove1 n (read_lru m) @ [n']" using tree_update_lru [OF assms(1)] assms(2) Some
      by (simp add: n'_def)
    have s: "read_tree_size m' = read_tree_size m" using assms(2) Some by (simp add: imr_lsm_tree_update_locked_def)
    have k: "rt_key n' = rt_key n" using n by (simp add: n'_def)
    have c: "cached m key = Some (rt_timestamp n, rt_pba n, rt_valid n)" using Some by (simp add: cached_def)
    show ?thesis using cache_ok_move [OF assms(1) conjunct1 [OF n] k l s lim] n c by (auto simp: n'_def)
  next
    case None
    show ?thesis
    proof (cases "fst (kalloc (kmem m))")
      case True
      obtain mem where mem: "kalloc (kmem m) = (True, mem)" using True by (cases "kalloc (kmem m)") auto
      define m2 where "m2 = stat_inc ''read_tree_update_count'' (m\<lparr>kmem := mem, read_lru := read_lru m @
        [cache_node key pba valid timestamp], read_tree_size := read_tree_size m + 1\<rparr>)"
      have m': "m' = imr_lsm_tree_evict_locked m2" using assms(2) None mem by (simp add: imr_lsm_tree_update_locked_def m2_def)
      have s2: "read_tree_size m2 = length (read_lru m2)" "distinct (map rt_key (read_lru m2))"
        "read_lru m2 = read_lru m @ [cache_node key pba valid timestamp]"
        using sz d None by (auto simp: m2_def find_node_None)
      have ok: "cache_ok m'" unfolding m' using s2 by (intro evict_ok)
      have "set (read_lru m') \<subseteq> set (read_lru m2)" unfolding m' evict_locked(1) [OF s2(1)] by (rule set_drop_subset)
      then have sub: "x \<in> set (read_lru m) \<or> x = cache_node key pba valid timestamp" if "x \<in> set (read_lru m')" for x
        using that by (auto simp: s2(3))
      have c: "cached m key = None" using None by (simp add: cached_def)
      have "cached m k = Some v \<or> (k = key \<and> v = (timestamp, pba, valid))" if cm: "cached m' k = Some v"
      proof -
        obtain x where x: "x \<in> set (read_lru m')" "rt_key x = k" "v = (rt_timestamp x, rt_pba x, rt_valid x)"
          using cm unfolding cached_iff [OF ok] by blast
        from sub [OF x(1)] show ?thesis
        proof
          assume "x \<in> set (read_lru m)"
          then have "cached m k = Some v" unfolding cached_iff [OF assms(1)] using x by blast
          then show ?thesis ..
        qed (use x in simp)
      qed
      then show ?thesis using ok c by auto
    next
      case False
      then have "read_lru m' = read_lru m" "read_tree_size m' = read_tree_size m" using assms(2) None
        by (auto simp: imr_lsm_tree_update_locked_def split: prod.split bool.split)
      then show ?thesis using assms(1) lim by (simp add: cache_ok_cong [of m' m] cached_cong [of m' m])
    qed
  qed
  then show "cache_ok m'" "cached m' k = Some v \<Longrightarrow>
      cached m k = Some v \<or> (k = key \<and> v = (timestamp, pba, valid) \<and> (\<forall>w. cached m k = Some w \<longrightarrow> fst w \<le> timestamp))"
    by blast+
qed

lemma tree_update_hit:
  assumes "cache_ok m" "cached m key = Some w" "fst w \<le> timestamp"
  shows "cached (imr_lsm_tree_update_locked key pba valid timestamp m) key = Some (timestamp, pba, valid)"
proof -
  define m' where "m' = imr_lsm_tree_update_locked key pba valid timestamp m"
  obtain n where n: "imr_lsm_tree_find_node_locked key m = Some n" and w: "w = (rt_timestamp n, rt_pba n, rt_valid n)"
    using assms(2) by (auto simp: cached_def)
  note f = find_node_Some [OF n]
  have l: "read_lru m' = remove1 n (read_lru m) @ [cache_node key pba valid timestamp]"
    using tree_update_lru [OF assms(1)] n w assms(3) by (simp add: m'_def)
  have "read_tree_size m' = read_tree_size m" "read_tree_limit m' = read_tree_limit m"
    using n cache_coreD(6) [OF cache_ops_core(4)] by (simp_all add: m'_def imr_lsm_tree_update_locked_def)
  then show ?thesis using cache_ok_move(2) [OF assms(1) conjunct1 [OF f] _ l] f by (simp add: m'_def)
qed

lemma initialize_cache: "read_lru (imr_lsm_initialize_metadata_locked m) = []"
  "read_tree_size (imr_lsm_initialize_metadata_locked m) = 0"
  by (simp_all add: imr_lsm_initialize_metadata_locked_def stat_sets_def stat_set_def imr_lsm_release_metadata_locked_def
      imr_lsm_init_newest_index_locked_def imr_lsm_init_read_tree_locked_def Let_def)

lemma limit_write_ok:
  assumes "cache_ok m"
  shows "cache_ok (snd (imr_lsm_debugfs_read_tree_limit_write ready limit m))"
  using assms by (auto simp: imr_lsm_debugfs_read_tree_limit_write_def Let_def initialize_cache cache_ok_def [of m]
      intro!: evict_ok)

text \<open>C28.  The read cache, for every operation on it: keys stay distinct, the size field is the number of
  nodes, and that number never exceeds the limit, also right after the limit is lowered; a lookup
  reports the cached version and changes no cached version; removal forgets exactly one key; and
  whatever an update leaves in the cache was there before or is the given version, which never
  replaces a newer one.\<close>

theorem cache_invariant:
  assumes "cache_ok m"
  shows "cache_ok (snd (snd (snd (imr_lsm_tree_lookup_locked key m)))) \<and>
    cached (snd (snd (snd (imr_lsm_tree_lookup_locked key m)))) = cached m \<and>
    cache_ok (imr_lsm_tree_remove_locked key m) \<and>
    cached (imr_lsm_tree_remove_locked key m) = (cached m)(key := None) \<and>
    cache_ok (imr_lsm_tree_update_locked key pba valid timestamp m) \<and>
    (\<forall>k v. cached (imr_lsm_tree_update_locked key pba valid timestamp m) k = Some v \<longrightarrow>
       cached m k = Some v \<or> (k = key \<and> v = (timestamp, pba, valid) \<and> (\<forall>w. cached m k = Some w \<longrightarrow> fst w \<le> timestamp))) \<and>
    cache_ok (snd (imr_lsm_debugfs_read_tree_limit_write ready limit m))"
  using tree_lookup_ok [OF assms refl] tree_remove_ok [OF assms] tree_update_ok [OF assms refl] limit_write_ok [OF assms]
  by blast

definition demo_cache :: imr_lsm_metadata where
  "demo_cache = (zero_metadata [] 0)\<lparr>initialized := True, read_tree_limit := 2, read_tree_size := 2,
     read_lru := [cache_node 5 80 True 1, cache_node 9 16 False 2]\<rparr>"

lemma demo_cache_ok: "cache_ok demo_cache"
  by (simp add: cache_ok_def demo_cache_def imr_lsm_read_tree_limit_locked_def)

theorem cache_invariant_witness:
  "cache_ok (imr_lsm_tree_update_locked 7 24 True 3 demo_cache) \<and>
   cache_ok (snd (imr_lsm_debugfs_read_tree_limit_write True 1 demo_cache))"
  using cache_invariant [OF demo_cache_ok] by blast



end
