(* ===== verification/Imr_Accounting.thy ===== *)
theory Imr_Accounting
  imports Imr_Cache
begin

text \<open>
  The newest-version index and the invalid-entry accounting of the segments, from \<open>dm-imrsim.c\<close>
  (\<open>imr_lsm_newest_index_*\<close>, \<open>imr_lsm_find_*_record*\<close>, \<open>imr_lsm_*_live_segment_entry*\<close>,
  \<open>imr_lsm_account_*\<close>, \<open>imr_lsm_recalculate_*\<close> and the compaction scores).  A pointer to a segment is
  its position in \<open>segments\<close>, to which the code only appends; a pointer to a block entry is the pair
  of that position and the index in the table; a pointer to an index node is its key.  The chain
  \<open>newest_next\<close> of a node is the list \<open>live_segment\<close>, its head first.
\<close>

type_synonym entry_ref = "nat \<times> nat"

definition seg_entry :: "imr_lsm_metadata \<Rightarrow> entry_ref \<Rightarrow> imr_lsm_block_entry" where
  "seg_entry m r = seg_block_table (segments m ! fst r) ! snd r"

definition upd_seg :: "nat \<Rightarrow> (imr_lsm_segment \<Rightarrow> imr_lsm_segment) \<Rightarrow> imr_lsm_metadata \<Rightarrow> imr_lsm_metadata" where
  "upd_seg i f m = m\<lparr>segments := (segments m)[i := f (segments m ! i)]\<rparr>"

definition upd_entry :: "entry_ref \<Rightarrow> (imr_lsm_block_entry \<Rightarrow> imr_lsm_block_entry) \<Rightarrow> imr_lsm_metadata \<Rightarrow> imr_lsm_metadata" where
  "upd_entry r f = upd_seg (fst r) (\<lambda>s. s\<lparr>seg_block_table := (seg_block_table s)[snd r := f (seg_block_table s ! snd r)]\<rparr>)"

definition imr_lsm_newest_index_find_locked :: "nat \<Rightarrow> imr_lsm_metadata \<Rightarrow> imr_lsm_newest_node option" where
  "imr_lsm_newest_index_find_locked key m = map_find (newest_tree m) key"

definition upd_newest :: "nat \<Rightarrow> (imr_lsm_newest_node \<Rightarrow> imr_lsm_newest_node) \<Rightarrow> imr_lsm_metadata \<Rightarrow> imr_lsm_metadata" where
  "upd_newest key f m = m\<lparr>newest_tree := map (\<lambda>(k, n). (k, if k = key then f n else n)) (newest_tree m)\<rparr>"

section \<open>Live entries of a key\<close>

definition imr_lsm_detach_live_segment_entry_locked :: "nat option \<Rightarrow> entry_ref \<Rightarrow> imr_lsm_metadata \<Rightarrow> imr_lsm_metadata" where
  "imr_lsm_detach_live_segment_entry_locked owner r m =
     (case owner of
        None \<Rightarrow> m
      | Some key \<Rightarrow>
          if \<not> newest_linked (seg_entry m r) then m
          else upd_entry r (\<lambda>e. e\<lparr>newest_linked := False\<rparr>)
                 (upd_newest key (\<lambda>n. n\<lparr>live_segment := remove1 r (live_segment n)\<rparr>) m))"

definition imr_lsm_attach_live_segment_entry_locked :: "nat \<Rightarrow> entry_ref \<Rightarrow> imr_lsm_metadata \<Rightarrow> imr_lsm_metadata" where
  "imr_lsm_attach_live_segment_entry_locked key r m =
     upd_newest key (\<lambda>n. n\<lparr>live_segment := r # live_segment n\<rparr>)
       (upd_entry r (\<lambda>e. e\<lparr>newest_linked := True\<rparr>) (imr_lsm_detach_live_segment_entry_locked (Some key) r m))"

section \<open>Scores\<close>

definition IMR_LSM_COMPACTION_MIN_OBSOLETE_RATIO :: nat where "IMR_LSM_COMPACTION_MIN_OBSOLETE_RATIO = 250"
definition IMR_LSM_COMPACTION_MIN_INVALID :: nat where "IMR_LSM_COMPACTION_MIN_INVALID = 1"
definition IMR_LSM_COMPACTION_DELETE_BOOST :: nat where "IMR_LSM_COMPACTION_DELETE_BOOST = 1000"
definition IMR_LSM_COMPACTION_TOMBSTONE_BOOST :: nat where "IMR_LSM_COMPACTION_TOMBSTONE_BOOST = 500"

definition imr_lsm_segment_compaction_score :: "imr_lsm_segment \<Rightarrow> nat" where
  "imr_lsm_segment_compaction_score s =
     (if retired s then 0
      else if invalid_count s < IMR_LSM_COMPACTION_MIN_INVALID then 0
      else if obsolete_ratio_permille s < IMR_LSM_COMPACTION_MIN_OBSOLETE_RATIO then 0
      else obsolete_ratio_permille s * invalid_count s +
           delete_invalid_count s * IMR_LSM_COMPACTION_DELETE_BOOST +
           tombstone_count s * IMR_LSM_COMPACTION_TOMBSTONE_BOOST)"

definition imr_lsm_refresh_segment_invalid_ratio_locked :: "imr_lsm_segment \<Rightarrow> imr_lsm_segment" where
  "imr_lsm_refresh_segment_invalid_ratio_locked s =
     (let s1 = s\<lparr>obsolete_ratio_permille :=
                   (if seg_block_table s \<noteq> [] then invalid_count s * 1000 div length (seg_block_table s) else 0)\<rparr>
      in s1\<lparr>compaction_score := imr_lsm_segment_compaction_score s1\<rparr>)"

text \<open>The statistics of the worst segment, raised when a segment exceeds them.\<close>

definition raise_max_ratio :: "nat \<Rightarrow> imr_lsm_metadata \<Rightarrow> imr_lsm_metadata" where
  "raise_max_ratio i m =
     (let s = segments m ! i
      in if int (obsolete_ratio_permille s) > stats m ''max_obsolete_ratio_permille''
         then stat_sets [(''max_obsolete_ratio_permille'', int (obsolete_ratio_permille s)),
                (''max_obsolete_segment_id'', int (seg_id s))] m
         else m)"

definition imr_lsm_mark_segment_entry_invalid_locked ::
  "nat \<Rightarrow> entry_ref \<Rightarrow> bool \<Rightarrow> bool \<Rightarrow> imr_lsm_metadata \<Rightarrow> imr_lsm_metadata" where
  "imr_lsm_mark_segment_entry_invalid_locked owner r obsolete newer_valid m =
     (let e = seg_entry m r
      in case accounting_segment e of
           None \<Rightarrow> imr_lsm_detach_live_segment_entry_locked (Some owner) r m
         | Some i \<Rightarrow>
             if retired (segments m ! i) \<or> \<not> invalid_stats_accounted (segments m ! i)
             then imr_lsm_detach_live_segment_entry_locked (Some owner) r m
             else
               let m1 = (if accounting_invalid e then m
                         else upd_entry r (\<lambda>e. e\<lparr>accounting_invalid := True\<rparr>)
                           (stat_inc ''invalid_entry_count''
                             (upd_seg i (\<lambda>s. s\<lparr>live_count := live_count s - 1, invalid_count := invalid_count s + 1\<rparr>)
                               (if invalid_count (segments m ! i) = 0 then stat_inc ''invalid_segment_count'' m else m))));
                   m2 = (if obsolete \<and> \<not> accounting_obsolete e
                         then upd_entry r (\<lambda>e. e\<lparr>accounting_obsolete := True\<rparr>)
                           (stat_inc ''obsolete_entry_count''
                             (upd_seg i (\<lambda>s. s\<lparr>obsolete_count := obsolete_count s + 1\<rparr>) m1))
                         else m1);
                   m3 = (if obsolete \<and> be_valid e \<and> \<not> newer_valid \<and> \<not> accounting_delete_invalid e
                         then upd_entry r (\<lambda>e. e\<lparr>accounting_delete_invalid := True\<rparr>)
                           (stat_inc ''delete_invalid_entry_count''
                             (upd_seg i (\<lambda>s. s\<lparr>delete_invalid_count := delete_invalid_count s + 1\<rparr>) m2))
                         else m2)
               in raise_max_ratio i (upd_seg i imr_lsm_refresh_segment_invalid_ratio_locked
                    (imr_lsm_detach_live_segment_entry_locked (Some owner) r m3)))"

text \<open>The loop of \<open>imr_lsm_incremental_supersede_locked\<close> runs while the chain of the key is not empty; each
  round unlinks the head, so the length of the chain bounds the number of rounds.\<close>

fun supersede_loop :: "nat \<Rightarrow> nat \<Rightarrow> bool \<Rightarrow> imr_lsm_metadata \<Rightarrow> imr_lsm_metadata" where
  "supersede_loop 0 key newer_valid m = m"
| "supersede_loop (Suc n) key newer_valid m =
     (case imr_lsm_newest_index_find_locked key m of
        None \<Rightarrow> m
      | Some node \<Rightarrow>
          (case live_segment node of
             [] \<Rightarrow> m
           | r # rs \<Rightarrow> supersede_loop n key newer_valid
               (imr_lsm_mark_segment_entry_invalid_locked key r True newer_valid m)))"

definition imr_lsm_incremental_supersede_locked :: "nat \<Rightarrow> bool \<Rightarrow> imr_lsm_metadata \<Rightarrow> imr_lsm_metadata" where
  "imr_lsm_incremental_supersede_locked key newer_valid m =
     (case imr_lsm_newest_index_find_locked key m of
        None \<Rightarrow> m | Some node \<Rightarrow> supersede_loop (length (live_segment node)) key newer_valid m)"

definition imr_lsm_newest_index_update_locked ::
  "nat \<Rightarrow> nat \<Rightarrow> bool \<Rightarrow> imr_lsm_metadata \<Rightarrow> kret \<times> imr_lsm_metadata" where
  "imr_lsm_newest_index_update_locked key timestamp valid m =
     (case imr_lsm_newest_index_find_locked key m of
        Some node \<Rightarrow>
          (0, if timestamp \<ge> nw_timestamp node
              then upd_newest key (\<lambda>n. n\<lparr>nw_timestamp := timestamp, nw_valid := valid\<rparr>)
                     (if timestamp > nw_timestamp node \<and> newest_index_valid m
                      then imr_lsm_incremental_supersede_locked key valid m else m)
              else m)
      | None \<Rightarrow>
          (case kalloc (kmem m) of
             (False, mem) \<Rightarrow> (K_ENOMEM, m\<lparr>kmem := mem, newest_index_valid := False\<rparr>)
           | (True, mem) \<Rightarrow>
               (0, m\<lparr>kmem := mem, newest_tree_size := newest_tree_size m + 1,
                    newest_tree := map_put key \<lparr>nw_timestamp = timestamp, nw_valid = valid, live_segment = []\<rparr>
                      (newest_tree m)\<rparr>)))"

section \<open>Searching all records of a key\<close>

text \<open>A sorted list is left at the first node whose key is not smaller.\<close>

definition sorted_find :: "nat \<Rightarrow> imr_lsm_node list \<Rightarrow> imr_lsm_node option" where
  "sorted_find key nodes =
     (case dropWhile (\<lambda>n. n_key n < key) nodes of
        [] \<Rightarrow> None | n # _ \<Rightarrow> if n_key n = key then Some n else None)"

text \<open>The records the scans visit, in their order: per level the unsorted nodes of the key and the
  sorted node, then the entry of every segment that is not retired.\<close>

definition level_records :: "nat \<Rightarrow> imr_lsm_level_state \<Rightarrow> version list" where
  "level_records key l =
     map node_version (filter (\<lambda>n. n_key n = key) (unsorted_nodes l)) @
     (case sorted_find key (sorted_nodes l) of None \<Rightarrow> [] | Some n \<Rightarrow> [node_version n])"

definition segment_records :: "nat \<Rightarrow> imr_lsm_segment \<Rightarrow> version list" where
  "segment_records key s =
     (if retired s then []
      else case imr_lsm_segment_block_table_find s key of None \<Rightarrow> [] | Some e \<Rightarrow> [entry_version e])"

definition scan_records :: "nat \<Rightarrow> imr_lsm_metadata \<Rightarrow> version list" where
  "scan_records key m =
     concat (map (\<lambda>level. level_records key (levels m ! level)) [0..<IMR_LSM_LEVELS]) @
     concat (map (segment_records key) (segments m))"

text \<open>State of the searches: timestamp, validity and (for the latest record) address, and whether found.\<close>

definition imr_lsm_update_newer_record :: "nat \<Rightarrow> bool \<Rightarrow> nat \<times> bool \<times> bool \<Rightarrow> nat \<times> bool \<times> bool" where
  "imr_lsm_update_newer_record timestamp valid acc =
     (case acc of (newer_timestamp, newer_valid, newer_found) \<Rightarrow>
        if timestamp > newer_timestamp then (timestamp, valid, True) else acc)"

definition imr_lsm_update_latest_record ::
  "nat \<Rightarrow> bool \<Rightarrow> nat \<Rightarrow> nat \<times> bool \<times> nat \<times> bool \<Rightarrow> nat \<times> bool \<times> nat \<times> bool" where
  "imr_lsm_update_latest_record timestamp valid pba acc =
     (case acc of (latest_timestamp, latest_valid, latest_pba, latest_found) \<Rightarrow>
        if timestamp > latest_timestamp then (timestamp, valid, pba, True) else acc)"

text \<open>The results are \<open>latest_found\<close>, \<open>*latest_valid\<close> and \<open>*latest_pba\<close>.\<close>

definition imr_lsm_find_latest_record_locked :: "nat \<Rightarrow> imr_lsm_metadata \<Rightarrow> bool \<times> bool \<times> nat" where
  "imr_lsm_find_latest_record_locked key m =
     (case fold (\<lambda>(timestamp, pba, valid). imr_lsm_update_latest_record timestamp valid pba)
             (scan_records key m) (0, False, 0, False) of
        (latest_timestamp, latest_valid, latest_pba, latest_found) \<Rightarrow> (latest_found, latest_valid, latest_pba))"

text \<open>The results are \<open>newer_found\<close>, \<open>*newer_timestamp\<close> and \<open>*newer_valid\<close>.\<close>

definition imr_lsm_find_newer_record_scan_locked :: "nat \<Rightarrow> nat \<Rightarrow> imr_lsm_metadata \<Rightarrow> bool \<times> nat \<times> bool" where
  "imr_lsm_find_newer_record_scan_locked key timestamp m =
     (case fold (\<lambda>(ts, pba, valid) acc. if ts > timestamp then imr_lsm_update_newer_record ts valid acc else acc)
             (scan_records key m) (timestamp, False, False) of
        (newer_timestamp, newer_valid, newer_found) \<Rightarrow> (newer_found, newer_timestamp, newer_valid))"

definition imr_lsm_find_newer_record_locked :: "nat \<Rightarrow> nat \<Rightarrow> imr_lsm_metadata \<Rightarrow> bool \<times> nat \<times> bool" where
  "imr_lsm_find_newer_record_locked key timestamp m =
     (if \<not> newest_index_valid m then imr_lsm_find_newer_record_scan_locked key timestamp m
      else case imr_lsm_newest_index_find_locked key m of
        None \<Rightarrow> imr_lsm_find_newer_record_scan_locked key timestamp m
      | Some node \<Rightarrow> if nw_timestamp node \<le> timestamp then (False, timestamp, False)
                     else (True, nw_timestamp node, nw_valid node))"

definition imr_lsm_find_older_valid_record_locked :: "nat \<Rightarrow> nat \<Rightarrow> imr_lsm_metadata \<Rightarrow> bool" where
  "imr_lsm_find_older_valid_record_locked key timestamp m =
     list_ex (\<lambda>(ts, pba, valid). valid \<and> ts < timestamp) (scan_records key m)"

definition imr_lsm_tombstone_should_keep_locked ::
  "imrsim_zone_status list option \<Rightarrow> imr_lsm_block_entry \<Rightarrow> imr_lsm_metadata \<Rightarrow> bool" where
  "imr_lsm_tombstone_should_keep_locked zs e m =
     (if imr_lsm_zone_map_has_key zs (be_key e) then True
      else imr_lsm_find_older_valid_record_locked (be_key e) (be_timestamp e) m)"

definition imr_lsm_segment_entry_should_keep_locked ::
  "imrsim_zone_status list option \<Rightarrow> imr_lsm_block_entry \<Rightarrow> imr_lsm_metadata \<Rightarrow> bool" where
  "imr_lsm_segment_entry_should_keep_locked zs e m =
     (if fst (imr_lsm_find_newer_record_locked (be_key e) (be_timestamp e) m) then False
      else if be_valid e then True
      else imr_lsm_tombstone_should_keep_locked zs e m)"

section \<open>Choosing a segment to compact\<close>

definition imr_lsm_segment_age_locked :: "imr_lsm_segment \<Rightarrow> imr_lsm_metadata \<Rightarrow> nat" where
  "imr_lsm_segment_age_locked s m =
     (if lsm_timestamp m \<le> seg_max_timestamp s then 0 else lsm_timestamp m - seg_max_timestamp s)"

abbreviation (input) "IMR_LSM_PLACEMENT_NONE \<equiv> (0 :: nat)"
abbreviation (input) "IMR_LSM_PLACEMENT_BOTTOM_TO_TOP \<equiv> (1 :: nat)"

definition imr_lsm_segment_placement_cost_permille :: "imr_lsm_segment \<Rightarrow> nat" where
  "imr_lsm_segment_placement_cost_permille s =
     (if placement_policy s \<noteq> IMR_LSM_PLACEMENT_BOTTOM_TO_TOP \<or> placement_target_track_type s \<noteq> IMR_LSM_TRACK_TOP \<or>
         placement_top_pba_start s > placement_top_pba_end s then 1000
      else if \<not> output_allocated s \<or> output_pba_start s > output_pba_end s then 1000
      else
        let target_sectors = placement_top_pba_end s - placement_top_pba_start s + 1;
            output_sectors = output_pba_end s - output_pba_start s + 1;
            cost = output_sectors * 1000 div target_sectors
        in if cost > 1000 then 1000 else cost)"

definition imr_lsm_segment_rmw_cost_permille :: "imr_lsm_segment \<Rightarrow> nat" where
  "imr_lsm_segment_rmw_cost_permille s =
     (let entries = (if seg_block_table s \<noteq> [] then length (seg_block_table s) else seg_node_count s)
      in if entries = 0 then 0
         else if seg_track_type s = IMR_LSM_TRACK_TOP then 0
         else if seg_track_type s \<noteq> IMR_LSM_TRACK_BOTTOM then 500
         else live_count s * 1000 div entries)"

definition imr_lsm_segment_zone_fullness_permille :: "imrsim_zone_status list option \<Rightarrow> imr_lsm_segment \<Rightarrow> nat" where
  "imr_lsm_segment_zone_fullness_permille zstat s =
     (case zstat of
        None \<Rightarrow> 0
      | Some zs \<Rightarrow>
          if seg_zone_idx s = IMR_LSM_SEGMENT_ZONE_MIXED \<or> seg_zone_idx s \<ge> length zs then 0
          else
            let z = zs ! seg_zone_idx s;
                b = z_length z div 2 ^ IMR_BLOCK_SIZE_SHIFT;
                zone_blocks = (if b = 0 then TOTAL_ITEMS else b);
                fullness = z_map_size z * 1000 div zone_blocks
            in if fullness > 1000 then 1000 else fullness)"

text \<open>\<open>final_score\<close> of \<open>imr_lsm_segment_policy_score_locked\<close>, with the weights 1, -100, -1, -1 and 1.\<close>

definition imr_lsm_segment_policy_score_locked ::
  "imrsim_zone_status list option \<Rightarrow> imr_lsm_segment \<Rightarrow> imr_lsm_metadata \<Rightarrow> int" where
  "imr_lsm_segment_policy_score_locked zs s m =
     int (compaction_score s) + int (imr_lsm_segment_age_locked s m) * 1 + int (read_hit_count s) * (-100) +
     int (imr_lsm_segment_placement_cost_permille s) * (-1) + int (imr_lsm_segment_rmw_cost_permille s) * (-1) +
     int (imr_lsm_segment_zone_fullness_permille zs s) * 1"

text \<open>The comparison of a candidate with the best one so far.\<close>

definition better_candidate :: "int \<Rightarrow> imr_lsm_segment \<Rightarrow> int \<Rightarrow> imr_lsm_segment \<Rightarrow> bool" where
  "better_candidate score s best_score b \<longleftrightarrow>
     score > best_score \<or>
     (score = best_score \<and> compaction_score s > compaction_score b) \<or>
     (score = best_score \<and> compaction_score s = compaction_score b \<and>
        obsolete_ratio_permille s > obsolete_ratio_permille b) \<or>
     (score = best_score \<and> compaction_score s = compaction_score b \<and>
        obsolete_ratio_permille s = obsolete_ratio_permille b \<and> invalid_count s > invalid_count b)"

text \<open>One round of the selection loop; the state is the best segment with its score, and the count.\<close>

definition selection_step ::
  "imrsim_zone_status list option \<Rightarrow> nat \<Rightarrow> (imr_lsm_segment \<times> int) option \<times> nat \<times> imr_lsm_metadata
    \<Rightarrow> (imr_lsm_segment \<times> int) option \<times> nat \<times> imr_lsm_metadata" where
  "selection_step zs i st =
     (case st of (best_segment, candidate_count, m) \<Rightarrow>
        let s0 = segments m ! i; score = imr_lsm_segment_compaction_score s0;
            s = s0\<lparr>compaction_score := score, compaction_candidate := (score \<noteq> 0)\<rparr>;
            m1 = upd_seg i (\<lambda>_. s) m
        in if \<not> compaction_candidate s then (best_segment, candidate_count, m1)
           else
             let final = imr_lsm_segment_policy_score_locked zs s m1
             in (case best_segment of
                   None \<Rightarrow> Some (s, final)
                 | Some (b, best_score) \<Rightarrow> if better_candidate final s best_score b then Some (s, final) else best_segment,
                 candidate_count + 1, m1))"

definition imr_lsm_update_segment_compaction_selection_locked ::
  "imrsim_zone_status list option \<Rightarrow> imr_lsm_metadata \<Rightarrow> imr_lsm_metadata" where
  "imr_lsm_update_segment_compaction_selection_locked zs m =
     (case fold (selection_step zs) [0..<length (segments m)] (None, 0, m) of (best_segment, candidate_count, m1) \<Rightarrow>
        let m2 = stat_set ''segment_compaction_candidate_count'' (int candidate_count)
                   (stat_inc ''segment_compaction_selection_count'' m1)
        in case best_segment of
             Some (b, best_score) \<Rightarrow> stat_sets
               [(''segment_compaction_candidate_segment_id'', int (seg_id b)),
                (''segment_compaction_candidate_level'', int (seg_level b)),
                (''segment_compaction_candidate_score'', int (compaction_score b)),
                (''segment_compaction_candidate_ratio_permille'', int (obsolete_ratio_permille b)),
                (''segment_compaction_candidate_invalid_count'', int (invalid_count b)),
                (''segment_compaction_candidate_delete_invalid_count'', int (delete_invalid_count b)),
                (''segment_compaction_candidate_tombstone_count'', int (tombstone_count b))] m2
           | None \<Rightarrow> stat_sets
               [(''segment_compaction_candidate_segment_id'', 0),
                (''segment_compaction_candidate_level'', int IMR_LSM_LEVELS),
                (''segment_compaction_candidate_score'', 0),
                (''segment_compaction_candidate_ratio_permille'', 0),
                (''segment_compaction_candidate_invalid_count'', 0),
                (''segment_compaction_candidate_delete_invalid_count'', 0),
                (''segment_compaction_candidate_tombstone_count'', 0)]
               (stat_inc ''segment_compaction_no_candidate_count'' m2))"

section \<open>Recounting everything\<close>

text \<open>The local counters of \<open>imr_lsm_recalculate_segment_invalid_stats_locked\<close>.\<close>

record recalc_totals =
  tot_segments :: nat
  tot_entries :: nat
  tot_invalid_segments :: nat
  tot_invalid :: nat
  tot_obsolete :: nat
  tot_tombstone :: nat
  tot_delete_invalid :: nat
  tot_max_ratio :: nat
  tot_max_ratio_segment_id :: nat

definition recalc_entry ::
  "imrsim_zone_status list option \<Rightarrow> nat \<Rightarrow> nat \<Rightarrow> recalc_totals \<times> imr_lsm_metadata \<Rightarrow> recalc_totals \<times> imr_lsm_metadata" where
  "recalc_entry zs i j st =
     (case st of (t, m) \<Rightarrow>
        let e = seg_entry m (i, j);
            (newer_found, newer_timestamp, newer_valid) = imr_lsm_find_newer_record_locked (be_key e) (be_timestamp e) m;
            drop_tombstone = (\<not> be_valid e \<and> \<not> imr_lsm_tombstone_should_keep_locked zs e m);
            delete_invalid = (newer_found \<and> be_valid e \<and> \<not> newer_valid);
            invalid = (drop_tombstone \<or> newer_found);
            t1 = t\<lparr>tot_entries := tot_entries t + 1,
                   tot_tombstone := tot_tombstone t + (if be_valid e then 0 else 1),
                   tot_obsolete := tot_obsolete t + (if newer_found then 1 else 0),
                   tot_delete_invalid := tot_delete_invalid t + (if delete_invalid then 1 else 0),
                   tot_invalid := tot_invalid t + (if invalid then 1 else 0)\<rparr>;
            m1 = upd_seg i (\<lambda>s. s\<lparr>tombstone_count := tombstone_count s + (if be_valid e then 0 else 1),
                   obsolete_count := obsolete_count s + (if newer_found then 1 else 0),
                   delete_invalid_count := delete_invalid_count s + (if delete_invalid then 1 else 0),
                   invalid_count := invalid_count s + (if invalid then 1 else 0),
                   live_count := live_count s + (if invalid then 0 else 1)\<rparr>) m;
            m2 = upd_entry (i, j) (\<lambda>e. e\<lparr>accounting_obsolete := newer_found \<or> accounting_obsolete e,
                   accounting_delete_invalid := delete_invalid \<or> accounting_delete_invalid e,
                   accounting_invalid := invalid \<or> accounting_invalid e\<rparr>) m1;
            m3 = (if invalid \<or> \<not> newest_index_valid m2 then m2
                  else case imr_lsm_newest_index_find_locked (be_key e) m2 of
                    None \<Rightarrow> m2
                  | Some node \<Rightarrow> if nw_timestamp node = be_timestamp e
                      then imr_lsm_attach_live_segment_entry_locked (be_key e) (i, j) m2 else m2)
        in (t1, upd_entry (i, j) (\<lambda>e. e\<lparr>accounting_segment := Some i\<rparr>) m3))"

definition clear_accounting :: "imr_lsm_block_entry \<Rightarrow> imr_lsm_block_entry" where
  "clear_accounting e = e\<lparr>accounting_segment := None, newest_linked := False, accounting_invalid := False,
     accounting_obsolete := False, accounting_delete_invalid := False\<rparr>"

definition zero_counts :: "imr_lsm_segment \<Rightarrow> imr_lsm_segment" where
  "zero_counts s = s\<lparr>live_count := 0, invalid_count := 0, obsolete_count := 0, tombstone_count := 0,
     delete_invalid_count := 0, obsolete_ratio_permille := 0\<rparr>"

definition recalc_segment ::
  "imrsim_zone_status list option \<Rightarrow> nat \<Rightarrow> recalc_totals \<times> imr_lsm_metadata \<Rightarrow> recalc_totals \<times> imr_lsm_metadata" where
  "recalc_segment zs i st =
     (case st of (t, m) \<Rightarrow>
        let m1 = upd_seg i (\<lambda>s. s\<lparr>invalid_stats_accounted := False,
                   seg_block_table := map clear_accounting (seg_block_table s)\<rparr>) m
        in if retired (segments m1 ! i) then (t\<lparr>tot_segments := tot_segments t + 1\<rparr>, m1)
           else
             case fold (recalc_entry zs i) [0..<length (seg_block_table (segments m1 ! i))] (t, upd_seg i zero_counts m1) of
               (t2, m2) \<Rightarrow>
                 let m3 = upd_seg i (\<lambda>s. s\<lparr>obsolete_ratio_permille :=
                              (if seg_block_table s \<noteq> [] then invalid_count s * 1000 div length (seg_block_table s)
                               else obsolete_ratio_permille s), invalid_stats_accounted := True\<rparr>) m2;
                     s = segments m3 ! i;
                     t3 = t2\<lparr>tot_invalid_segments := tot_invalid_segments t2 + (if invalid_count s \<noteq> 0 then 1 else 0)\<rparr>;
                     t4 = (if obsolete_ratio_permille s > tot_max_ratio t3
                           then t3\<lparr>tot_max_ratio := obsolete_ratio_permille s, tot_max_ratio_segment_id := seg_id s\<rparr>
                           else t3)
                 in (t4\<lparr>tot_segments := tot_segments t4 + 1\<rparr>, m3))"

definition imr_lsm_recalculate_segment_invalid_stats_locked ::
  "imrsim_zone_status list option \<Rightarrow> imr_lsm_metadata \<Rightarrow> imr_lsm_metadata" where
  "imr_lsm_recalculate_segment_invalid_stats_locked zs m =
     (case fold (recalc_segment zs) [0..<length (segments m)]
             (\<lparr>tot_segments = 0, tot_entries = 0, tot_invalid_segments = 0, tot_invalid = 0, tot_obsolete = 0,
               tot_tombstone = 0, tot_delete_invalid = 0, tot_max_ratio = 0, tot_max_ratio_segment_id = 0\<rparr>,
              m\<lparr>newest_tree := map (\<lambda>(k, n). (k, n\<lparr>live_segment := []\<rparr>)) (newest_tree m)\<rparr>) of
        (t, m1) \<Rightarrow>
          imr_lsm_update_segment_compaction_selection_locked zs
            (stat_sets
               [(''invalid_segment_count'', int (tot_invalid_segments t)), (''invalid_entry_count'', int (tot_invalid t)),
                (''obsolete_entry_count'', int (tot_obsolete t)), (''tombstone_entry_count'', int (tot_tombstone t)),
                (''delete_invalid_entry_count'', int (tot_delete_invalid t)),
                (''max_obsolete_ratio_permille'', int (tot_max_ratio t)),
                (''max_obsolete_segment_id'', int (tot_max_ratio_segment_id t)),
                (''last_invalid_recalc_segments'', int (tot_segments t)),
                (''last_invalid_recalc_entries'', int (tot_entries t))]
               (stat_inc ''invalid_recalc_count'' m1)))"

section \<open>Incremental accounting\<close>

text \<open>The loop that repairs missing or stale index nodes; it stops at the first failed allocation.\<close>

fun account_repair :: "imr_lsm_block_entry list \<Rightarrow> imr_lsm_metadata \<Rightarrow> kret \<times> imr_lsm_metadata" where
  "account_repair [] m = (0, m)"
| "account_repair (e # es) m =
     (if (case imr_lsm_newest_index_find_locked (be_key e) m of
            None \<Rightarrow> True | Some node \<Rightarrow> nw_timestamp node < be_timestamp e)
      then case imr_lsm_newest_index_update_locked (be_key e) (be_timestamp e) (be_valid e) m of
             (ret, m') \<Rightarrow> if ret \<noteq> 0 then (ret, m') else account_repair es m'
      else account_repair es m)"

definition account_entry :: "imrsim_zone_status list option \<Rightarrow> nat \<Rightarrow> nat \<Rightarrow> imr_lsm_metadata \<Rightarrow> imr_lsm_metadata" where
  "account_entry zs i j m =
     (let m1 = upd_entry (i, j) (\<lambda>e. (clear_accounting e)\<lparr>accounting_segment := Some i\<rparr>) m;
          e = seg_entry m1 (i, j);
          node = imr_lsm_newest_index_find_locked (be_key e) m1;
          newer = (case node of None \<Rightarrow> False | Some n \<Rightarrow> nw_timestamp n > be_timestamp e);
          drop_tombstone = (\<not> be_valid e \<and> \<not> imr_lsm_tombstone_should_keep_locked zs e m1);
          delete_invalid = (newer \<and> be_valid e \<and> (case node of None \<Rightarrow> False | Some n \<Rightarrow> \<not> nw_valid n));
          invalid = (drop_tombstone \<or> newer);
          m2 = upd_entry (i, j) (\<lambda>e. e\<lparr>accounting_obsolete := newer, accounting_delete_invalid := delete_invalid,
                 accounting_invalid := invalid\<rparr>)
               (upd_seg i (\<lambda>s. s\<lparr>tombstone_count := tombstone_count s + (if be_valid e then 0 else 1),
                 obsolete_count := obsolete_count s + (if newer then 1 else 0),
                 delete_invalid_count := delete_invalid_count s + (if delete_invalid then 1 else 0),
                 invalid_count := invalid_count s + (if invalid then 1 else 0),
                 live_count := live_count s + (if invalid then 0 else 1)\<rparr>) m1)
      in if \<not> invalid \<and> (case node of None \<Rightarrow> False | Some n \<Rightarrow> nw_timestamp n = be_timestamp e)
         then imr_lsm_attach_live_segment_entry_locked (be_key e) (i, j) m2 else m2)"

definition imr_lsm_account_new_segment_invalid_stats_locked ::
  "imrsim_zone_status list option \<Rightarrow> nat \<Rightarrow> imr_lsm_metadata \<Rightarrow> bool \<times> imr_lsm_metadata" where
  "imr_lsm_account_new_segment_invalid_stats_locked zs i m =
     (if retired (segments m ! i) \<or> invalid_stats_accounted (segments m ! i) then (True, m)
      else if \<not> newest_index_valid m then (False, imr_lsm_recalculate_segment_invalid_stats_locked zs m)
      else
        case account_repair (seg_block_table (segments m ! i)) m of (ret, m1) \<Rightarrow>
          if ret \<noteq> 0 then (False, imr_lsm_recalculate_segment_invalid_stats_locked zs m1)
          else
            let m2 = fold (account_entry zs i) [0..<length (seg_block_table (segments m1 ! i))] (upd_seg i zero_counts m1);
                m3 = upd_seg i (\<lambda>s. imr_lsm_refresh_segment_invalid_ratio_locked (s\<lparr>invalid_stats_accounted := True\<rparr>)) m2;
                s = segments m3 ! i
            in (True, raise_max_ratio i (stat_adds
                 [(''invalid_segment_count'', if invalid_count s \<noteq> 0 then 1 else 0),
                  (''invalid_entry_count'', int (invalid_count s)), (''obsolete_entry_count'', int (obsolete_count s)),
                  (''tombstone_entry_count'', int (tombstone_count s)),
                  (''delete_invalid_entry_count'', int (delete_invalid_count s))] m3)))"

definition imr_lsm_unaccount_segment_invalid_stats_locked :: "nat \<Rightarrow> imr_lsm_metadata \<Rightarrow> imr_lsm_metadata" where
  "imr_lsm_unaccount_segment_invalid_stats_locked i m =
     (if \<not> invalid_stats_accounted (segments m ! i) then m
      else
        let m1 = fold (\<lambda>j m. upd_entry (i, j) (\<lambda>e. e\<lparr>accounting_segment := None\<rparr>)
                   (imr_lsm_detach_live_segment_entry_locked
                      (if newest_linked (seg_entry m (i, j)) \<and>
                          imr_lsm_newest_index_find_locked (be_key (seg_entry m (i, j))) m \<noteq> None
                       then Some (be_key (seg_entry m (i, j))) else None) (i, j) m))
                 [0..<length (seg_block_table (segments m ! i))] m;
            s = segments m1 ! i
        in upd_seg i (\<lambda>s. s\<lparr>invalid_stats_accounted := False\<rparr>)
             (stat_adds
               [(''invalid_segment_count'',
                   if invalid_count s \<noteq> 0 \<and> stats m1 ''invalid_segment_count'' \<noteq> 0 then -1 else 0),
                (''invalid_entry_count'', - int (invalid_count s)), (''obsolete_entry_count'', - int (obsolete_count s)),
                (''tombstone_entry_count'', - int (tombstone_count s)),
                (''delete_invalid_entry_count'', - int (delete_invalid_count s))] m1))"

text \<open>The chain is walked as it was when the walk began; a marked entry leaves it.\<close>

definition reevaluate_key :: "imrsim_zone_status list option \<Rightarrow> nat \<Rightarrow> imr_lsm_metadata \<Rightarrow> imr_lsm_metadata" where
  "reevaluate_key zs key m =
     (case imr_lsm_newest_index_find_locked key m of
        None \<Rightarrow> m
      | Some node \<Rightarrow>
          fold (\<lambda>r m. if \<not> be_valid (seg_entry m r) \<and> \<not> imr_lsm_tombstone_should_keep_locked zs (seg_entry m r) m
                       then imr_lsm_mark_segment_entry_invalid_locked key r False False m else m)
            (live_segment node) m)"

definition imr_lsm_reevaluate_latest_tombstones_locked ::
  "imrsim_zone_status list option \<Rightarrow> nat \<Rightarrow> imr_lsm_metadata \<Rightarrow> imr_lsm_metadata" where
  "imr_lsm_reevaluate_latest_tombstones_locked zs i m =
     fold (\<lambda>e. reevaluate_key zs (be_key e)) (seg_block_table (segments m ! i)) m"

definition imr_lsm_refresh_max_obsolete_ratio_locked :: "imr_lsm_metadata \<Rightarrow> imr_lsm_metadata" where
  "imr_lsm_refresh_max_obsolete_ratio_locked m =
     (case fold (\<lambda>s (max_ratio, max_segment_id).
             if \<not> retired s \<and> invalid_stats_accounted s \<and> obsolete_ratio_permille s > max_ratio
             then (obsolete_ratio_permille s, seg_id s) else (max_ratio, max_segment_id)) (segments m) (0, 0) of
        (max_ratio, max_segment_id) \<Rightarrow> stat_sets
          [(''max_obsolete_ratio_permille'', int max_ratio), (''max_obsolete_segment_id'', int max_segment_id)] m)"

definition imr_lsm_segment_count_locked :: "nat \<Rightarrow> imr_lsm_metadata \<Rightarrow> nat" where
  "imr_lsm_segment_count_locked level m = length (filter (\<lambda>s. seg_level s = level) (segments m))"

definition retire_segment :: "imrsim_zone_status list option \<Rightarrow> nat \<Rightarrow> imr_lsm_metadata \<Rightarrow> imr_lsm_metadata" where
  "retire_segment zs i m =
     imr_lsm_reevaluate_latest_tombstones_locked zs i
       (upd_seg i (\<lambda>s. s\<lparr>retired := True, compaction_candidate := False, compaction_score := 0\<rparr>)
         (imr_lsm_unaccount_segment_invalid_stats_locked i m))"

definition imr_lsm_retire_level_segments_locked ::
  "imrsim_zone_status list option \<Rightarrow> nat \<Rightarrow> imr_lsm_metadata \<Rightarrow> nat \<times> imr_lsm_metadata" where
  "imr_lsm_retire_level_segments_locked zs level m =
     fold (\<lambda>i (n, m). if seg_level (segments m ! i) = level \<and> \<not> retired (segments m ! i)
                        then (n + 1, retire_segment zs i m) else (n, m))
       [0..<length (segments m)] (0, m)"

section \<open>What the accounting leaves alone\<close>

text \<open>A segment without its accounting: records, Bloom filter, placement and retirement.\<close>

definition seg_core :: "imr_lsm_segment \<Rightarrow> imr_lsm_segment" where
  "seg_core s = s\<lparr>invalid_stats_accounted := False, seg_block_table := map clear_accounting (seg_block_table s),
     live_count := 0, invalid_count := 0, obsolete_count := 0, tombstone_count := 0, delete_invalid_count := 0,
     obsolete_ratio_permille := 0, compaction_candidate := False, compaction_score := 0,
     read_hit_count := 0, last_read_timestamp := 0\<rparr>"

definition acct_core :: "imr_lsm_metadata \<Rightarrow> imr_lsm_metadata" where
  "acct_core m = m\<lparr>segments := map seg_core (segments m),
     newest_tree := map (\<lambda>(k, n). (k, n\<lparr>live_segment := []\<rparr>)) (newest_tree m), stats := (\<lambda>_. 0)\<rparr>"

lemma acct_core_stat [simp]: "acct_core (stat_add f i m) = acct_core m" "acct_core (stat_set f i m) = acct_core m"
  "acct_core (stat_sets xs m) = acct_core m" "acct_core (stat_adds xs m) = acct_core m"
  using stat_sets_only [of xs m] stat_adds_only [of xs m] by (auto simp: acct_core_def stat_add_def stat_set_def)

lemma acct_core_seg:
  "seg_core (f (segments m ! i)) = seg_core (segments m ! i) \<Longrightarrow> acct_core (upd_seg i f m) = acct_core m"
proof -
  assume "seg_core (f (segments m ! i)) = seg_core (segments m ! i)"
  then have "map seg_core ((segments m)[i := f (segments m ! i)]) = map seg_core (segments m)"
    by (cases "i < length (segments m)") (simp_all add: map_update list_update_same_conv list_update_beyond)
  then show ?thesis by (simp add: acct_core_def upd_seg_def)
qed

lemma acct_core_entry:
  assumes "\<And>e. clear_accounting (f e) = clear_accounting e"
  shows "acct_core (upd_entry r f m) = acct_core m"
proof -
  have "map clear_accounting (t[j := f (t ! j)]) = map clear_accounting t" for t :: "imr_lsm_block_entry list" and j
    using assms by (cases "j < length t") (simp_all add: map_update list_update_same_conv list_update_beyond)
  then show ?thesis by (simp add: upd_entry_def acct_core_seg seg_core_def)
qed

lemma acct_core_newest:
  assumes "\<And>n. nw_timestamp (f n) = nw_timestamp n \<and> nw_valid (f n) = nw_valid n"
  shows "acct_core (upd_newest key f m) = acct_core m"
proof -
  have "(f n)\<lparr>live_segment := []\<rparr> = n\<lparr>live_segment := []\<rparr>" for n using assms [of n] by simp
  then have "map (\<lambda>(k, n). (k, n\<lparr>live_segment := []\<rparr>)) (map (\<lambda>(k, n). (k, if k = key then f n else n)) t) =
      map (\<lambda>(k, n). (k, n\<lparr>live_segment := []\<rparr>)) t" for t :: "(nat \<times> imr_lsm_newest_node) list" by auto
  then show ?thesis by (simp add: acct_core_def upd_newest_def)
qed

lemma clear_clear [simp]: "clear_accounting (clear_accounting e) = clear_accounting e"
  by (simp add: clear_accounting_def)

lemma fold_invariant: "(\<And>x a. g (f x a) = g a) \<Longrightarrow> g (fold f xs a) = g a"
  by (induction xs arbitrary: a) simp_all

lemma detach_core [simp]: "acct_core (imr_lsm_detach_live_segment_entry_locked owner r m) = acct_core m"
  by (simp add: imr_lsm_detach_live_segment_entry_locked_def acct_core_entry acct_core_newest clear_accounting_def
      split: option.split)

lemma attach_core [simp]: "acct_core (imr_lsm_attach_live_segment_entry_locked key r m) = acct_core m"
  by (simp add: imr_lsm_attach_live_segment_entry_locked_def acct_core_entry acct_core_newest clear_accounting_def)

lemma raise_max_core [simp]: "acct_core (raise_max_ratio i m) = acct_core m"
  by (simp add: raise_max_ratio_def Let_def)

lemma mark_core [simp]: "acct_core (imr_lsm_mark_segment_entry_invalid_locked owner r obsolete newer_valid m) = acct_core m"
  by (simp add: imr_lsm_mark_segment_entry_invalid_locked_def Let_def acct_core_entry acct_core_seg clear_accounting_def
      seg_core_def imr_lsm_refresh_segment_invalid_ratio_locked_def split: option.split)

lemma supersede_core [simp]:
  "acct_core (supersede_loop n key v m) = acct_core m"
  "acct_core (imr_lsm_incremental_supersede_locked key v m) = acct_core m"
proof -
  show a: "acct_core (supersede_loop n key v m) = acct_core m" for n m
    by (induction n arbitrary: m) (simp_all split: option.split list.split)
  show "acct_core (imr_lsm_incremental_supersede_locked key v m) = acct_core m"
    by (simp add: imr_lsm_incremental_supersede_locked_def a split: option.split)
qed

lemma selection_core [simp]: "acct_core (imr_lsm_update_segment_compaction_selection_locked zs m) = acct_core m"
proof -
  have "acct_core (snd (snd (selection_step zs i st))) = acct_core (snd (snd st))" for i st
    by (simp add: selection_step_def Let_def acct_core_seg seg_core_def split: prod.split)
  note fold_invariant [of "\<lambda>st. acct_core (snd (snd st))" "selection_step zs", OF this, of "[0..<length (segments m)]" "(None, 0, m)"]
  then show ?thesis
    by (auto simp: imr_lsm_update_segment_compaction_selection_locked_def Let_def split: prod.splits option.split)
qed

lemma acct_core_entryI:
  "acct_core m = x \<Longrightarrow> (\<And>e. clear_accounting (f e) = clear_accounting e) \<Longrightarrow> acct_core (upd_entry r f m) = x"
  by (simp add: acct_core_entry)

lemma acct_core_segI:
  "acct_core m = x \<Longrightarrow> seg_core (f (segments m ! i)) = seg_core (segments m ! i) \<Longrightarrow> acct_core (upd_seg i f m) = x"
  by (simp add: acct_core_seg)

lemma recalc_entry_core: "acct_core (snd (recalc_entry zs i j st)) = acct_core (snd st)"
proof -
  have opt: "acct_core a = x \<Longrightarrow> (\<And>n. acct_core (g n) = x) \<Longrightarrow> acct_core (case z of None \<Rightarrow> a | Some n \<Rightarrow> g n) = x"
    for a g x and z :: "imr_lsm_newest_node option" by (simp split: option.split)
  have ite: "acct_core a = x \<Longrightarrow> acct_core b = x \<Longrightarrow> acct_core (if p then a else b) = x" for a b x p by simp
  show ?thesis unfolding recalc_entry_def Let_def case_prod_beta snd_conv
    by (intro acct_core_entryI acct_core_segI ite opt)
      (simp_all add: seg_core_def clear_accounting_def acct_core_seg acct_core_entry split del: if_split)
qed

lemma recalc_segment_core: "acct_core (snd (recalc_segment zs i st)) = acct_core (snd st)"
proof -
  obtain t m where st: "st = (t, m)" by (cases st)
  define m1 where "m1 = upd_seg i (\<lambda>s. s\<lparr>invalid_stats_accounted := False,
      seg_block_table := map clear_accounting (seg_block_table s)\<rparr>) m"
  have m1: "acct_core m1 = acct_core m" by (simp add: m1_def acct_core_seg seg_core_def)
  have m2: "acct_core (snd (fold (recalc_entry zs i) js (t, upd_seg i zero_counts m1))) = acct_core m" for js
    using fold_invariant [of "\<lambda>st. acct_core (snd st)" "recalc_entry zs i", OF recalc_entry_core, of js "(t, upd_seg i zero_counts m1)"]
    by (simp add: m1 acct_core_seg zero_counts_def seg_core_def)
  show ?thesis using m1 m2 [of "[0..<length (seg_block_table (segments m1 ! i))]"]
    by (auto simp: recalc_segment_def st Let_def m1_def [symmetric] acct_core_seg seg_core_def split: prod.splits)
qed

lemma recalculate_core [simp]: "acct_core (imr_lsm_recalculate_segment_invalid_stats_locked zs m) = acct_core m"
proof -
  let ?m = "m\<lparr>newest_tree := map (\<lambda>(k, n). (k, n\<lparr>live_segment := []\<rparr>)) (newest_tree m)\<rparr>"
  have "acct_core ?m = acct_core m" by (simp add: acct_core_def comp_def case_prod_beta)
  then have "acct_core (snd (fold (recalc_segment zs) is (t, ?m))) = acct_core m" for "is" t
    using fold_invariant [of "\<lambda>st. acct_core (snd st)" "recalc_segment zs", OF recalc_segment_core, of "is" "(t, ?m)"] by simp
  from this [of "[0..<length (segments m)]"] show ?thesis
    by (simp add: imr_lsm_recalculate_segment_invalid_stats_locked_def split: prod.split) (metis snd_conv)
qed

lemma account_entry_core [simp]: "acct_core (account_entry zs i j m) = acct_core m"
  by (simp add: account_entry_def Let_def acct_core_seg acct_core_entry seg_core_def clear_accounting_def split: option.split)

lemma unaccount_core [simp]: "acct_core (imr_lsm_unaccount_segment_invalid_stats_locked i m) = acct_core m"
proof -
  let ?f = "\<lambda>j m. upd_entry (i, j) (\<lambda>e. e\<lparr>accounting_segment := None\<rparr>)
        (imr_lsm_detach_live_segment_entry_locked
           (if newest_linked (seg_entry m (i, j)) \<and> imr_lsm_newest_index_find_locked (be_key (seg_entry m (i, j))) m \<noteq> None
            then Some (be_key (seg_entry m (i, j))) else None) (i, j) m)"
  have "acct_core (fold ?f js m) = acct_core m" for js
    by (rule fold_invariant) (simp add: acct_core_entry clear_accounting_def)
  then show ?thesis
    by (simp add: imr_lsm_unaccount_segment_invalid_stats_locked_def Let_def acct_core_seg seg_core_def)
qed

lemma reevaluate_core [simp]: "acct_core (imr_lsm_reevaluate_latest_tombstones_locked zs i m) = acct_core m"
proof -
  have "acct_core (reevaluate_key zs key m) = acct_core m" for key m
    by (auto simp: reevaluate_key_def split: option.split intro!: fold_invariant)
  then show ?thesis by (auto simp: imr_lsm_reevaluate_latest_tombstones_locked_def intro!: fold_invariant)
qed

lemma refresh_max_core [simp]: "acct_core (imr_lsm_refresh_max_obsolete_ratio_locked m) = acct_core m"
  by (simp add: imr_lsm_refresh_max_obsolete_ratio_locked_def split: prod.split)

section \<open>The records a state holds\<close>

lemma acct_coreD:
  assumes "acct_core m' = acct_core m"
  shows "levels m' = levels m" "map seg_core (segments m') = map seg_core (segments m)"
    "length (segments m') = length (segments m)" "lsm_timestamp m' = lsm_timestamp m" "kmem m' = kmem m"
    "read_lru m' = read_lru m" "read_tree_size m' = read_tree_size m" "read_tree_limit m' = read_tree_limit m"
    "initialized m' = initialized m" "newest_index_valid m' = newest_index_valid m" "metadata_epoch m' = metadata_epoch m"
    "map (\<lambda>(k, n). (k, nw_timestamp n, nw_valid n)) (newest_tree m') = map (\<lambda>(k, n). (k, nw_timestamp n, nw_valid n)) (newest_tree m)"
proof -
  have c: "f (acct_core m') = f (acct_core m)" for f :: "imr_lsm_metadata \<Rightarrow> 'a" using assms by simp
  show "levels m' = levels m" "map seg_core (segments m') = map seg_core (segments m)" "lsm_timestamp m' = lsm_timestamp m"
    "kmem m' = kmem m" "read_lru m' = read_lru m" "read_tree_size m' = read_tree_size m"
    "read_tree_limit m' = read_tree_limit m" "initialized m' = initialized m" "newest_index_valid m' = newest_index_valid m"
    "metadata_epoch m' = metadata_epoch m"
    using arg_cong [OF assms, of levels] arg_cong [OF assms, of segments] arg_cong [OF assms, of lsm_timestamp]
      arg_cong [OF assms, of kmem] arg_cong [OF assms, of read_lru] arg_cong [OF assms, of read_tree_size]
      arg_cong [OF assms, of read_tree_limit] arg_cong [OF assms, of initialized] arg_cong [OF assms, of newest_index_valid]
      arg_cong [OF assms, of metadata_epoch] by (simp_all add: acct_core_def)
  then show "length (segments m') = length (segments m)" by (metis length_map)
  have "map (\<lambda>(k, n). (k, n\<lparr>live_segment := []\<rparr>)) (newest_tree m') = map (\<lambda>(k, n). (k, n\<lparr>live_segment := []\<rparr>)) (newest_tree m)"
    using arg_cong [OF assms, of newest_tree] by (simp add: acct_core_def)
  from arg_cong [OF this, of "map (\<lambda>(k, n). (k, nw_timestamp n, nw_valid n))"]
  show "map (\<lambda>(k, n). (k, nw_timestamp n, nw_valid n)) (newest_tree m') = map (\<lambda>(k, n). (k, nw_timestamp n, nw_valid n)) (newest_tree m)"
    by (simp add: comp_def case_prod_beta')
qed

text \<open>Updating the newest index also changes the index itself and the memory.\<close>

definition idx_core :: "imr_lsm_metadata \<Rightarrow> imr_lsm_metadata" where
  "idx_core m = (acct_core m)\<lparr>newest_tree := [], newest_tree_size := 0, newest_index_valid := True, kmem := []\<rparr>"

lemma idx_core_acct: "acct_core m' = acct_core m \<Longrightarrow> idx_core m' = idx_core m"
  by (simp add: idx_core_def)

lemma idx_core_upd [simp]:
  "idx_core (m\<lparr>newest_tree := t\<rparr>) = idx_core m" "idx_core (m\<lparr>newest_tree_size := n\<rparr>) = idx_core m"
  "idx_core (m\<lparr>newest_index_valid := b\<rparr>) = idx_core m" "idx_core (m\<lparr>kmem := k\<rparr>) = idx_core m"
  "idx_core (upd_newest key f m) = idx_core m"
  by (simp_all add: idx_core_def acct_core_def upd_newest_def)

lemmas idx_core_simps [simp] = idx_core_acct [OF supersede_core(2)] idx_core_acct [OF recalculate_core]
  idx_core_acct [OF selection_core] idx_core_acct [OF acct_core_stat(1)] idx_core_acct [OF acct_core_stat(4)]
  idx_core_acct [OF raise_max_core] idx_core_acct [OF reevaluate_core] idx_core_acct [OF unaccount_core]
  idx_core_acct [OF refresh_max_core]

lemma newest_update_core [simp]: "idx_core (snd (imr_lsm_newest_index_update_locked key ts v m)) = idx_core m"
  by (simp add: imr_lsm_newest_index_update_locked_def split: option.split prod.split bool.split)

lemma account_repair_core [simp]: "idx_core (snd (account_repair es m)) = idx_core m"
proof (induction es arbitrary: m)
  case (Cons e es)
  obtain ret m' where u: "imr_lsm_newest_index_update_locked (be_key e) (be_timestamp e) (be_valid e) m = (ret, m')"
    by (cases "imr_lsm_newest_index_update_locked (be_key e) (be_timestamp e) (be_valid e) m")
  then have "idx_core m' = idx_core m" using newest_update_core [of "be_key e" "be_timestamp e" "be_valid e" m] by simp
  then show ?case by (simp add: u Cons split: option.splits)
qed simp

lemma account_new_core [simp]: "idx_core (snd (imr_lsm_account_new_segment_invalid_stats_locked zs i m)) = idx_core m"
proof -
  obtain ret m1 where r: "account_repair (seg_block_table (segments m ! i)) m = (ret, m1)"
    by (cases "account_repair (seg_block_table (segments m ! i)) m")
  have m1: "idx_core m1 = idx_core m" using account_repair_core [of "seg_block_table (segments m ! i)" m] by (simp add: r)
  have f: "acct_core (fold (account_entry zs i) js (upd_seg i zero_counts m1)) = acct_core m1" for js
    using fold_invariant [of acct_core "account_entry zs i" js "upd_seg i zero_counts m1"]
    by (simp add: acct_core_seg zero_counts_def seg_core_def)
  have "acct_core (upd_seg i (\<lambda>s. imr_lsm_refresh_segment_invalid_ratio_locked (s\<lparr>invalid_stats_accounted := True\<rparr>))
      (fold (account_entry zs i) js (upd_seg i zero_counts m1))) = acct_core m1" for js
    by (subst acct_core_seg) (simp_all add: f seg_core_def imr_lsm_refresh_segment_invalid_ratio_locked_def Let_def)
  note g = idx_core_acct [OF this]
  show ?thesis by (simp add: imr_lsm_account_new_segment_invalid_stats_locked_def r m1 g Let_def)
qed

lemma idx_coreD:
  assumes "idx_core m' = idx_core m"
  shows "levels m' = levels m" "map seg_core (segments m') = map seg_core (segments m)" "lsm_timestamp m' = lsm_timestamp m"
    "read_lru m' = read_lru m" "read_tree_size m' = read_tree_size m" "read_tree_limit m' = read_tree_limit m"
    "initialized m' = initialized m" "metadata_epoch m' = metadata_epoch m" "active_write_level m' = active_write_level m"
    "next_segment_id m' = next_segment_id m" "length (segments m') = length (segments m)"
proof -
  show a: "levels m' = levels m" "map seg_core (segments m') = map seg_core (segments m)" "lsm_timestamp m' = lsm_timestamp m"
    "read_lru m' = read_lru m" "read_tree_size m' = read_tree_size m" "read_tree_limit m' = read_tree_limit m"
    "initialized m' = initialized m" "metadata_epoch m' = metadata_epoch m" "active_write_level m' = active_write_level m"
    "next_segment_id m' = next_segment_id m"
    using arg_cong [OF assms, of levels] arg_cong [OF assms, of segments] arg_cong [OF assms, of lsm_timestamp]
      arg_cong [OF assms, of read_lru] arg_cong [OF assms, of read_tree_size] arg_cong [OF assms, of read_tree_limit]
      arg_cong [OF assms, of initialized] arg_cong [OF assms, of metadata_epoch] arg_cong [OF assms, of active_write_level]
      arg_cong [OF assms, of next_segment_id] by (simp_all add: idx_core_def acct_core_def)
  show "length (segments m') = length (segments m)" using a(2) by (metis length_map)
qed

end
