(* ===== verification/Imr_Placement.thy ===== *)
theory Imr_Placement
  imports Imr_Accounting
begin

text \<open>
  Placement of a new segment and the reservation of its output range on top tracks, from
  \<open>dm-imrsim.c\<close> (\<open>imr_lsm_apply_segment_placement_locked\<close>, \<open>imr_lsm_allocate_segment_output_locked\<close>,
  \<open>imr_lsm_map_segment_output_entries_locked\<close>), and the publication of a prepared segment.  A segment
  is placed before it is linked, so these functions take it as a value and the list of published
  segments never contains it.  The main result is that the output ranges of published segments that
  are not retired never overlap.
\<close>

definition imr_lsm_reset_segment_output_locked :: "imr_lsm_segment \<Rightarrow> imr_lsm_segment" where
  "imr_lsm_reset_segment_output_locked s = s\<lparr>output_allocated := False, output_track_type := 0,
     output_block_count := 0, output_pba_start := 0, output_pba_end := 0\<rparr>"

definition imr_lsm_segment_output_sector_count :: "imr_lsm_segment \<Rightarrow> nat" where
  "imr_lsm_segment_output_sector_count s =
     (let block_count = (if seg_block_table s = [] then seg_node_count s else length (seg_block_table s))
      in if block_count = 0 then 0 else block_count * 2 ^ IMR_BLOCK_SIZE_SHIFT)"

definition imr_lsm_find_output_overlap_locked ::
  "nat \<Rightarrow> nat \<Rightarrow> imr_lsm_segment list \<Rightarrow> imr_lsm_segment option" where
  "imr_lsm_find_output_overlap_locked pba_start pba_end segs =
     find (\<lambda>other. \<not> retired other \<and> output_allocated other \<and>
             imr_lsm_pba_ranges_overlap pba_start pba_end (output_pba_start other) (output_pba_end other)) segs"

definition imr_lsm_record_last_placement_output_locked :: "imr_lsm_segment \<Rightarrow> imr_lsm_metadata \<Rightarrow> imr_lsm_metadata" where
  "imr_lsm_record_last_placement_output_locked s =
     stat_sets [(''last_placement_output_segment_id'', int (seg_id s)),
       (''last_placement_output_allocated'', bool_int (output_allocated s)),
       (''last_placement_output_track_type'', int (output_track_type s)),
       (''last_placement_output_block_count'', int (output_block_count s)),
       (''last_placement_output_pba_start'', int (output_pba_start s)),
       (''last_placement_output_pba_end'', int (output_pba_end s))]"

definition imr_lsm_note_segment_output_no_target_locked ::
  "imr_lsm_segment \<Rightarrow> imr_lsm_metadata \<Rightarrow> imr_lsm_segment \<times> imr_lsm_metadata" where
  "imr_lsm_note_segment_output_no_target_locked s m =
     (let s1 = imr_lsm_reset_segment_output_locked s
      in (s1, imr_lsm_record_last_placement_output_locked s1 (stat_inc ''placement_output_no_target_count'' m)))"

text \<open>The search for a gap: \<open>None\<close> is the break with no space.  \<open>candidate_end < cursor\<close> is the wrap of a
  64-bit sum.\<close>

function output_loop :: "imr_lsm_segment list \<Rightarrow> nat \<Rightarrow> nat \<Rightarrow> nat \<Rightarrow> (nat \<times> nat) option" where
  "output_loop segs sectors top_end cursor =
     (if cursor \<le> top_end
      then
        let candidate_end = (cursor + sectors - 1) mod 2 ^ 64
        in if candidate_end < cursor \<or> candidate_end > top_end then None
           else case imr_lsm_find_output_overlap_locked cursor candidate_end segs of
                  None \<Rightarrow> Some (cursor, candidate_end)
                | Some overlap \<Rightarrow>
                    if output_pba_end overlap \<ge> top_end then None
                    else output_loop segs sectors top_end (output_pba_end overlap + 1)
      else None)"
  by pat_completeness auto

lemma overlap_end_ge:
  "imr_lsm_find_output_overlap_locked a b segs = Some s \<Longrightarrow> a \<le> output_pba_end s"
  by (auto simp: imr_lsm_find_output_overlap_locked_def find_Some_iff imr_lsm_pba_ranges_overlap_def split: if_splits)

termination output_loop
  by (relation "measure (\<lambda>(segs, sectors, top_end, cursor). Suc top_end - cursor)") (auto dest: overlap_end_ge)

declare output_loop.simps [simp del]

definition imr_lsm_allocate_segment_output_locked ::
  "imr_lsm_segment \<Rightarrow> imr_lsm_metadata \<Rightarrow> imr_lsm_segment \<times> imr_lsm_metadata" where
  "imr_lsm_allocate_segment_output_locked segment m =
     (let s = imr_lsm_reset_segment_output_locked segment;
          no_target = (s, imr_lsm_record_last_placement_output_locked s (stat_inc ''placement_output_no_target_count'' m));
          no_space = (s, imr_lsm_record_last_placement_output_locked s (stat_inc ''placement_output_no_space_count'' m))
      in if placement_policy s \<noteq> IMR_LSM_PLACEMENT_BOTTOM_TO_TOP \<or> placement_target_track_type s \<noteq> IMR_LSM_TRACK_TOP \<or>
            placement_top_pba_start s > placement_top_pba_end s then no_target
         else
           let output_sector_count = imr_lsm_segment_output_sector_count s;
               target_sector_count = placement_top_pba_end s - placement_top_pba_start s + 1
           in if output_sector_count = 0 then no_target
              else if output_sector_count > target_sector_count then no_space
              else case output_loop (segments m) output_sector_count (placement_top_pba_end s) (placement_top_pba_start s) of
                     None \<Rightarrow> no_space
                   | Some (cursor, candidate_end) \<Rightarrow>
                       let s1 = s\<lparr>output_allocated := True, output_track_type := placement_target_track_type s,
                             output_block_count := (if seg_block_table s \<noteq> [] then length (seg_block_table s) else seg_node_count s),
                             output_pba_start := cursor, output_pba_end := candidate_end\<rparr>
                       in (s1, imr_lsm_record_last_placement_output_locked s1 (stat_inc ''placement_output_alloc_count'' m)))"

definition imr_lsm_record_last_placement_locked :: "imr_lsm_segment \<Rightarrow> imr_lsm_metadata \<Rightarrow> imr_lsm_metadata" where
  "imr_lsm_record_last_placement_locked s m =
     imr_lsm_record_last_placement_output_locked s
       (stat_sets [(''last_placement_segment_id'', int (seg_id s)), (''last_placement_policy'', int (placement_policy s)),
          (''last_placement_bottom_track_start'', int (placement_bottom_track_start s)),
          (''last_placement_bottom_track_end'', int (placement_bottom_track_end s)),
          (''last_placement_top_track_start'', int (placement_top_track_start s)),
          (''last_placement_top_track_end'', int (placement_top_track_end s)),
          (''last_placement_top_pba_start'', int (placement_top_pba_start s)),
          (''last_placement_top_pba_end'', int (placement_top_pba_end s))] m)"

definition no_placement :: "imr_lsm_segment \<Rightarrow> imr_lsm_metadata \<Rightarrow> imr_lsm_segment \<times> imr_lsm_metadata" where
  "no_placement s m =
     (case imr_lsm_note_segment_output_no_target_locked s (stat_inc ''placement_no_target_count'' m) of (s1, m1) \<Rightarrow>
        (s1, imr_lsm_record_last_placement_locked s1 m1))"

definition clamp_track :: "nat \<Rightarrow> nat" where
  "clamp_track zone_key =
     (if zone_key div IMR_BOTTOM_TRACK_SIZE \<ge> TOP_TRACK_NUM_TOTAL then TOP_TRACK_NUM_TOTAL - 1
      else zone_key div IMR_BOTTOM_TRACK_SIZE)"

text \<open>The target on the top tracks next to the bottom tracks that hold the keys from \<open>zone_min_key\<close> to
  \<open>zone_max_key\<close> of the zone.\<close>

definition place_on_top :: "nat \<Rightarrow> nat \<Rightarrow> imr_lsm_segment \<Rightarrow> imr_lsm_segment" where
  "place_on_top zone_min_key zone_max_key s =
     (let zone_key_start = imr_lsm_zone_key_start (seg_zone_idx s);
          track_start = clamp_track zone_min_key;
          track_end = clamp_track zone_max_key;
          top_block_start = track_start * imr_lsm_track_group_blocks;
          top_block_end = track_end * imr_lsm_track_group_blocks + IMR_TOP_TRACK_SIZE - 1
      in s\<lparr>placement_policy := IMR_LSM_PLACEMENT_BOTTOM_TO_TOP,
           placement_target_track_type := IMR_LSM_TRACK_TOP,
           placement_bottom_key_start := zone_key_start + zone_min_key,
           placement_bottom_key_end := zone_key_start + zone_max_key,
           placement_bottom_track_start := track_start, placement_bottom_track_end := track_end,
           placement_top_track_start := track_start, placement_top_track_end := track_end,
           placement_top_pba_start := zone_idx_lba (seg_zone_idx s) + top_block_start * 2 ^ IMR_BLOCK_SIZE_SHIFT,
           placement_top_pba_end := zone_idx_lba (seg_zone_idx s) + top_block_end * 2 ^ IMR_BLOCK_SIZE_SHIFT +
             (2 ^ IMR_BLOCK_SIZE_SHIFT - 1)\<rparr>)"

definition imr_lsm_apply_segment_placement_locked ::
  "imr_lsm_segment \<Rightarrow> imr_lsm_metadata \<Rightarrow> imr_lsm_segment \<times> imr_lsm_metadata" where
  "imr_lsm_apply_segment_placement_locked segment m0 =
     (let m = stat_inc ''placement_policy_count'' m0;
          s = imr_lsm_reset_segment_output_locked
                (segment\<lparr>placement_policy := IMR_LSM_PLACEMENT_NONE, placement_target_track_type := 0\<rparr>)
      in if seg_zone_idx s = IMR_LSM_SEGMENT_ZONE_MIXED
         then no_placement s (stat_inc ''placement_mixed_zone_count'' m)
         else
           let zone_key_start = imr_lsm_zone_key_start (seg_zone_idx s);
               zone_key_end = zone_key_start + 2 ^ IMR_ZONE_SIZE_SHIFT - 1;
               zone_min_key = (if seg_min_key s > zone_key_start then seg_min_key s - zone_key_start else 0);
               zone_max_key0 = (if seg_max_key s < zone_key_end then seg_max_key s - zone_key_start
                                else zone_key_end - zone_key_start);
               zone_max_key = (if zone_max_key0 \<ge> imr_lsm_bottom_range_blocks
                               then imr_lsm_bottom_range_blocks - 1 else zone_max_key0)
           in if seg_max_key s < zone_key_start \<or> seg_min_key s > zone_key_end then no_placement s m
              else if zone_min_key \<ge> imr_lsm_bottom_range_blocks then no_placement s m
              else case imr_lsm_allocate_segment_output_locked (place_on_top zone_min_key zone_max_key s)
                          (stat_inc ''placement_bottom_to_top_count'' m) of
                     (s2, m2) \<Rightarrow> (s2, imr_lsm_record_last_placement_locked s2 m2))"

text \<open>The loop over the block table; a break leaves the remaining entries as they are.\<close>

fun map_entries_loop :: "nat \<Rightarrow> imr_lsm_block_entry list \<Rightarrow> nat \<Rightarrow> imr_lsm_block_entry list \<times> nat \<times> nat" where
  "map_entries_loop pba_end [] cursor = ([], 0, cursor)"
| "map_entries_loop pba_end (e # es) cursor =
     (let e1 = e\<lparr>output_pba := 0, source_pba := 0, source_pba_valid := False, output_mapped := False,
                output_copy_planned := False, output_copied := False, output_committed := False\<rparr>
      in if \<not> be_valid e1
         then case map_entries_loop pba_end es cursor of (es', n, c) \<Rightarrow> (e1 # es', n, c)
         else if cursor > pba_end then (e1 # es, 0, cursor)
         else case map_entries_loop pba_end es (cursor + 2 ^ IMR_BLOCK_SIZE_SHIFT) of (es', n, c) \<Rightarrow>
                (e1\<lparr>output_pba := cursor, output_mapped := True\<rparr> # es', n + 1, c))"

definition imr_lsm_map_segment_output_entries_locked ::
  "imr_lsm_segment \<Rightarrow> imr_lsm_metadata \<Rightarrow> imr_lsm_segment \<times> imr_lsm_metadata" where
  "imr_lsm_map_segment_output_entries_locked s m0 =
     (let m = stat_sets [(''last_segment_output_mapping_segment_id'', int (seg_id s)),
                (''last_segment_output_mapping_entry_count'', 0), (''last_segment_output_mapping_pba_start'', 0),
                (''last_segment_output_mapping_pba_end'', 0)] m0
      in if \<not> output_allocated s \<or> seg_block_table s = []
         then (s, stat_inc ''segment_output_mapping_no_output_count'' m)
         else case map_entries_loop (output_pba_end s) (seg_block_table s) (output_pba_start s) of (table, n, cursor) \<Rightarrow>
           (s\<lparr>seg_block_table := table\<rparr>,
            stat_sets ((''last_segment_output_mapping_entry_count'', int n) #
                (if n \<noteq> 0 then [(''last_segment_output_mapping_pba_start'', int (output_pba_start s)),
                   (''last_segment_output_mapping_pba_end'', int (cursor - 1))] else []))
              (stat_adds [(''segment_output_mapping_count'', 1), (''segment_output_mapping_entry_count'', int n)] m)))"

section \<open>Publication\<close>

definition imr_lsm_publish_prepared_segment_locked ::
  "imrsim_zone_status list option \<Rightarrow> imr_lsm_segment \<Rightarrow> bool \<Rightarrow> imr_lsm_metadata \<Rightarrow> imr_lsm_metadata" where
  "imr_lsm_publish_prepared_segment_locked zs segment account_invalid_stats m =
     (let s0 = segment\<lparr>seg_id := next_segment_id m\<rparr>;
          m0 = m\<lparr>next_segment_id := (next_segment_id m + 1) mod 2 ^ 32\<rparr>
      in case imr_lsm_apply_segment_placement_locked s0 m0 of (s1, m1) \<Rightarrow>
           case imr_lsm_map_segment_output_entries_locked s1 m1 of (s2, m2) \<Rightarrow>
             let m3 = m2\<lparr>segments := segments m2 @ [s2], segment_count := segment_count m2 + 1\<rparr>
             in if account_invalid_stats
                then case imr_lsm_account_new_segment_invalid_stats_locked zs (length (segments m2)) m3 of (ok, m4) \<Rightarrow>
                       if ok then imr_lsm_update_segment_compaction_selection_locked zs m4 else m4
                else m3)"

definition imr_lsm_append_segment_with_accounting_locked ::
  "imr_lsm_config \<Rightarrow> imrsim_zone_status list option \<Rightarrow> nat \<Rightarrow> nat \<Rightarrow> imr_lsm_segment_builder \<Rightarrow> bool \<Rightarrow> imr_lsm_metadata
    \<Rightarrow> kret \<times> imr_lsm_segment_builder \<times> imr_lsm_metadata" where
  "imr_lsm_append_segment_with_accounting_locked c zs level track_type builder account_invalid_stats m =
     (case imr_lsm_prepare_segment level track_type builder (imr_lsm_bloom_bits_per_key_locked c) (kmem m) of
        (ret, segment, builder', mem) \<Rightarrow>
          if ret \<noteq> 0 then (ret, builder', m\<lparr>kmem := mem\<rparr>)
          else case segment of
                 None \<Rightarrow> (0, builder', m\<lparr>kmem := mem\<rparr>)
               | Some s \<Rightarrow> (0, builder', imr_lsm_publish_prepared_segment_locked zs s account_invalid_stats (m\<lparr>kmem := mem\<rparr>)))"

definition imr_lsm_append_segment_locked ::
  "imr_lsm_config \<Rightarrow> imrsim_zone_status list option \<Rightarrow> nat \<Rightarrow> nat \<Rightarrow> imr_lsm_segment_builder \<Rightarrow> imr_lsm_metadata
    \<Rightarrow> kret \<times> imr_lsm_segment_builder \<times> imr_lsm_metadata" where
  "imr_lsm_append_segment_locked c zs level track_type builder m =
     imr_lsm_append_segment_with_accounting_locked c zs level track_type builder True m"

section \<open>First fit\<close>

definition range_free :: "imr_lsm_segment list \<Rightarrow> nat \<Rightarrow> nat \<Rightarrow> bool" where
  "range_free segs a b \<longleftrightarrow> (\<forall>s \<in> set segs. \<not> retired s \<and> output_allocated s \<longrightarrow>
     \<not> imr_lsm_pba_ranges_overlap a b (output_pba_start s) (output_pba_end s))"

lemma find_overlap_None: "imr_lsm_find_output_overlap_locked a b segs = None \<longleftrightarrow> range_free segs a b"
  by (auto simp: imr_lsm_find_output_overlap_locked_def find_None_iff range_free_def)

lemma find_overlap_Some:
  assumes "imr_lsm_find_output_overlap_locked a b segs = Some s"
  shows "s \<in> set segs" "\<not> retired s" "output_allocated s" "a \<le> b" "a \<le> output_pba_end s"
    "output_pba_start s \<le> output_pba_end s" "output_pba_start s \<le> b"
  using assms by (auto simp: imr_lsm_find_output_overlap_locked_def find_Some_iff imr_lsm_pba_ranges_overlap_def split: if_splits)

text \<open>A window that starts before the end of an overlapping range overlaps it too.\<close>

lemma skipped_window_busy:
  assumes "imr_lsm_find_output_overlap_locked c (c + n - 1) segs = Some s" "c \<le> p" "p \<le> output_pba_end s" "0 < n"
  shows "\<not> range_free segs p (p + n - 1)"
proof -
  note s = find_overlap_Some [OF assms(1)]
  have "p \<le> p + n - 1" "output_pba_start s \<le> p + n - 1" using s assms(2,4) by linarith+
  then have "imr_lsm_pba_ranges_overlap p (p + n - 1) (output_pba_start s) (output_pba_end s)"
    using s assms(3) by (simp add: imr_lsm_pba_ranges_overlap_def)
  then show ?thesis using s by (auto simp: range_free_def)
qed

lemma output_loop_first_fit:
  assumes "0 < n" "e + n < 2 ^ 64"
  shows "case output_loop segs n e c of
      Some (a, b) \<Rightarrow> c \<le> a \<and> b = a + n - 1 \<and> b \<le> e \<and> range_free segs a b \<and>
        (\<forall>p. c \<le> p \<and> p < a \<longrightarrow> \<not> range_free segs p (p + n - 1))
    | None \<Rightarrow> \<forall>p. c \<le> p \<and> p + n - 1 \<le> e \<longrightarrow> \<not> range_free segs p (p + n - 1)"
  using assms
proof (induction segs n e c rule: output_loop.induct)
  case (1 segs n e c)
  note step = output_loop.simps [of segs n e c]
  show ?case
  proof (cases "c \<le> e \<and> c + n - 1 \<le> e")
    case False
    then show ?thesis using 1(2,3) by (auto simp: step Let_def)
  next
    case True
    then have w: "(c + n - 1) mod 2 ^ 64 = c + n - 1" using 1(3) by simp
    have lt: "\<not> c + n - 1 < c" using 1(2) by linarith
    show ?thesis
    proof (cases "imr_lsm_find_output_overlap_locked c (c + n - 1) segs")
      case None
      then have "output_loop segs n e c = Some (c, c + n - 1)" using True w 1(2) by (simp add: step Let_def)
      then show ?thesis using True None by (auto simp: find_overlap_None)
    next
      case (Some s)
      note busy = skipped_window_busy [OF Some _ _ 1(2)]
      show ?thesis
      proof (cases "e \<le> output_pba_end s")
        case fin: True
        then have "output_loop segs n e c = None" using True w Some 1(2) by (simp add: step Let_def)
        then show ?thesis using busy fin 1(2) by auto
      next
        case more: False
        then have eq: "output_loop segs n e c = output_loop segs n e (output_pba_end s + 1)"
          using True w Some lt by (simp add: step Let_def)
        have ge: "c \<le> output_pba_end s" using find_overlap_Some(5) [OF Some] .
        have part: "p \<le> output_pba_end s \<or> output_pba_end s + 1 \<le> p" for p by linarith
        have wn: "\<not> ((c + n - 1) mod 2 ^ 64 < c \<or> e < (c + n - 1) mod 2 ^ 64)" using True w lt by auto
        have so: "imr_lsm_find_output_overlap_locked c ((c + n - 1) mod 2 ^ 64) segs = Some s" using Some w by simp
        note ih = 1(1) [OF conjunct1 [OF True] refl wn so more 1(2,3)]
        show ?thesis
        proof (cases "output_loop segs n e (output_pba_end s + 1)")
          case None
          then show ?thesis unfolding eq using ih busy part by (simp add: None) (metis Suc_eq_plus1)
        next
          case (Some r)
          then show ?thesis unfolding eq using ih busy ge part by (cases r) (simp, metis Suc_eq_plus1 Suc_leD le_trans)
        qed
      qed
    qed
  qed
qed

section \<open>What placement changes\<close>

definition no_stats :: "imr_lsm_metadata \<Rightarrow> imr_lsm_metadata" where
  "no_stats m = m\<lparr>stats := (\<lambda>_. 0)\<rparr>"

lemma no_stats_stat [simp]: "no_stats (stat_add f i m) = no_stats m" "no_stats (stat_set f i m) = no_stats m"
  "no_stats (stat_sets xs m) = no_stats m" "no_stats (stat_adds xs m) = no_stats m"
  using stat_sets_only [of xs m] stat_adds_only [of xs m] by (auto simp: no_stats_def stat_add_def stat_set_def)

lemma no_stats_fields [simp]: "segments (no_stats m) = segments m" "acct_core (no_stats m) = acct_core m"
  by (simp_all add: no_stats_def acct_core_def)

lemma no_statsD:
  assumes "no_stats m' = no_stats m"
  shows "segments m' = segments m" "acct_core m' = acct_core m"
  using assms no_stats_fields by metis+

text \<open>The data of an entry and of a segment: what remains without accounting, placement, output
  mapping and identifier.\<close>

definition entry_data :: "imr_lsm_block_entry \<Rightarrow> imr_lsm_block_entry" where
  "entry_data e = (clear_accounting e)\<lparr>source_pba := 0, output_pba := 0, source_pba_valid := False,
     output_mapped := False, output_copy_planned := False, output_copied := False, output_committed := False\<rparr>"

definition seg_data :: "imr_lsm_segment \<Rightarrow> imr_lsm_segment" where
  "seg_data s = (seg_core s)\<lparr>seg_id := 0, seg_block_table := map entry_data (seg_block_table s),
     placement_policy := 0, placement_target_track_type := 0, placement_bottom_track_start := 0,
     placement_bottom_track_end := 0, placement_bottom_key_start := 0, placement_bottom_key_end := 0,
     placement_top_track_start := 0, placement_top_track_end := 0, placement_top_pba_start := 0,
     placement_top_pba_end := 0, output_allocated := False, output_track_type := 0, output_block_count := 0,
     output_pba_start := 0, output_pba_end := 0\<rparr>"

lemma allocate_frame:
  assumes "imr_lsm_allocate_segment_output_locked s m = (s', m')"
  shows "no_stats m' = no_stats m" "seg_data s' = seg_data s" "seg_block_table s' = seg_block_table s"
    "retired s' = retired s"
  using assms by (auto simp: imr_lsm_allocate_segment_output_locked_def Let_def imr_lsm_reset_segment_output_locked_def
      imr_lsm_record_last_placement_output_locked_def seg_data_def seg_core_def split: if_splits option.splits)

lemma allocate_output:
  assumes "imr_lsm_allocate_segment_output_locked s m = (s', m')" "output_allocated s'"
    "placement_top_pba_end s * 2 + 1 < 2 ^ 64"
  shows "placement_top_pba_start s \<le> output_pba_start s'" "output_pba_start s' \<le> output_pba_end s'"
    "output_pba_end s' \<le> placement_top_pba_end s"
    "output_pba_end s' - output_pba_start s' + 1 = imr_lsm_segment_output_sector_count s"
    "range_free (segments m) (output_pba_start s') (output_pba_end s')"
proof -
  define n where "n = imr_lsm_segment_output_sector_count s"
  have n': "imr_lsm_segment_output_sector_count (imr_lsm_reset_segment_output_locked s) = n"
    by (simp add: n_def imr_lsm_segment_output_sector_count_def imr_lsm_reset_segment_output_locked_def)
  obtain a b where ab: "output_loop (segments m) n (placement_top_pba_end s) (placement_top_pba_start s) = Some (a, b)"
    "output_pba_start s' = a" "output_pba_end s' = b" "0 < n" "placement_top_pba_start s \<le> placement_top_pba_end s"
    "n \<le> placement_top_pba_end s - placement_top_pba_start s + 1"
    using assms(1,2) n' by (auto simp: imr_lsm_allocate_segment_output_locked_def Let_def
        imr_lsm_reset_segment_output_locked_def split: if_splits option.splits)
  have "placement_top_pba_end s + n < 2 ^ 64" using ab(5,6) assms(3) by linarith
  from output_loop_first_fit [where segs = "segments m" and c = "placement_top_pba_start s", OF ab(4) this] ab
  show "placement_top_pba_start s \<le> output_pba_start s'" "output_pba_start s' \<le> output_pba_end s'"
    "output_pba_end s' \<le> placement_top_pba_end s"
    "output_pba_end s' - output_pba_start s' + 1 = imr_lsm_segment_output_sector_count s"
    "range_free (segments m) (output_pba_start s') (output_pba_end s')"
    by (auto simp: n_def)
qed

lemma no_placement_frame:
  assumes "no_placement s m = (s', m')"
  shows "no_stats m' = no_stats m" "seg_data s' = seg_data s" "seg_block_table s' = seg_block_table s"
    "retired s' = retired s" "\<not> output_allocated s'"
  using assms by (auto simp: no_placement_def imr_lsm_note_segment_output_no_target_locked_def Let_def
      imr_lsm_reset_segment_output_locked_def imr_lsm_record_last_placement_output_locked_def
      imr_lsm_record_last_placement_locked_def seg_data_def seg_core_def)

lemma clamp_track_le: "clamp_track k \<le> 63"
  by (simp add: clamp_track_def TOP_TRACK_NUM_TOTAL_def)

lemma place_on_top_frame:
  "seg_data (place_on_top a b s) = seg_data s" "seg_block_table (place_on_top a b s) = seg_block_table s"
  "retired (place_on_top a b s) = retired s" "seg_node_count (place_on_top a b s) = seg_node_count s"
  by (simp_all add: place_on_top_def Let_def seg_data_def seg_core_def)

lemma place_on_top_range:
  "placement_top_pba_start (place_on_top a b s) = zone_idx_lba (seg_zone_idx s) + clamp_track a * 1024 * 8"
  "placement_top_pba_end (place_on_top a b s) = zone_idx_lba (seg_zone_idx s) + (clamp_track b * 1024 + 455) * 8 + 7"
  by (simp_all add: place_on_top_def Let_def imr_lsm_track_group_blocks_def IMR_TOP_TRACK_SIZE_def
      IMR_BOTTOM_TRACK_SIZE_def IMR_BLOCK_SIZE_SHIFT_def)

text \<open>A placement either has no target, or reserves in the range of \<open>place_on_top\<close>.\<close>

lemma placement_cases:
  assumes "imr_lsm_apply_segment_placement_locked s m = (s', m')"
  shows "(\<exists>s1 m1. no_placement s1 m1 = (s', m') \<and> no_stats m1 = no_stats m \<and> seg_data s1 = seg_data s \<and>
        seg_block_table s1 = seg_block_table s \<and> retired s1 = retired s) \<or>
    (\<exists>s1 a b m1 m2. imr_lsm_allocate_segment_output_locked (place_on_top a b s1) m1 = (s', m2) \<and>
        no_stats m1 = no_stats m \<and> no_stats m' = no_stats m2 \<and> seg_data s1 = seg_data s \<and>
        seg_block_table s1 = seg_block_table s \<and> retired s1 = retired s \<and> seg_zone_idx s1 = seg_zone_idx s \<and>
        seg_node_count s1 = seg_node_count s)"
proof -
  define t where "t = imr_lsm_reset_segment_output_locked
      (s\<lparr>placement_policy := 0, placement_target_track_type := 0\<rparr>)"
  have t: "seg_data t = seg_data s" "seg_block_table t = seg_block_table s" "retired t = retired s"
    "seg_node_count t = seg_node_count s" "seg_zone_idx t = seg_zone_idx s"
    by (simp_all add: t_def imr_lsm_reset_segment_output_locked_def seg_data_def seg_core_def)
  obtain p q r a b where eq: "imr_lsm_apply_segment_placement_locked s m =
      (if p then no_placement t (stat_inc ''placement_mixed_zone_count'' (stat_inc ''placement_policy_count'' m))
       else if q then no_placement t (stat_inc ''placement_policy_count'' m)
       else if r then no_placement t (stat_inc ''placement_policy_count'' m)
       else case imr_lsm_allocate_segment_output_locked (place_on_top a b t)
                   (stat_inc ''placement_bottom_to_top_count'' (stat_inc ''placement_policy_count'' m)) of
              (s2, m2) \<Rightarrow> (s2, imr_lsm_record_last_placement_locked s2 m2))"
    by (rule that) (unfold imr_lsm_apply_segment_placement_locked_def Let_def t_def [symmetric], rule refl)
  have "(\<exists>m1. no_placement t m1 = (s', m') \<and> no_stats m1 = no_stats m) \<or>
    (\<exists>a b m1 m2. imr_lsm_allocate_segment_output_locked (place_on_top a b t) m1 = (s', m2) \<and>
        no_stats m1 = no_stats m \<and> m' = imr_lsm_record_last_placement_locked s' m2)"
  proof (cases "p \<or> q \<or> r")
    case True
    then show ?thesis using assms unfolding eq by (auto split: if_splits)
  next
    case False
    then obtain m2 where "imr_lsm_allocate_segment_output_locked (place_on_top a b t)
        (stat_inc ''placement_bottom_to_top_count'' (stat_inc ''placement_policy_count'' m)) = (s', m2)"
      "m' = imr_lsm_record_last_placement_locked s' m2" using assms unfolding eq by (auto split: prod.splits)
    moreover have "no_stats (stat_inc ''placement_bottom_to_top_count'' (stat_inc ''placement_policy_count'' m)) = no_stats m"
      by simp
    ultimately show ?thesis by blast
  qed
  moreover have "no_stats (imr_lsm_record_last_placement_locked s' m2) = no_stats m2" for m2
    by (simp add: imr_lsm_record_last_placement_locked_def imr_lsm_record_last_placement_output_locked_def)
  ultimately show ?thesis using t by metis
qed

lemma placement_frame:
  assumes "imr_lsm_apply_segment_placement_locked s m = (s', m')"
  shows "no_stats m' = no_stats m" "seg_data s' = seg_data s" "seg_block_table s' = seg_block_table s" "retired s' = retired s"
  using placement_cases [OF assms] no_placement_frame allocate_frame place_on_top_frame by metis+

lemma zone_lba_bound: "z \<le> u32_max \<Longrightarrow> b \<le> 63 \<Longrightarrow> (zone_idx_lba z + (b * 1024 + 455) * 8 + 7) * 2 + 1 < 2 ^ 64"
  by (simp add: zone_idx_lba_def u32_max_def IMR_ZONE_SIZE_SHIFT_def IMR_BLOCK_SIZE_SHIFT_def)

lemma placement_output:
  assumes "imr_lsm_apply_segment_placement_locked s m = (s', m')" "output_allocated s'" "seg_zone_idx s \<le> u32_max"
  shows "output_pba_start s' \<le> output_pba_end s'"
    "zone_idx_lba (seg_zone_idx s) \<le> output_pba_start s'" "output_pba_end s' < zone_idx_lba (seg_zone_idx s + 1)"
    "output_pba_end s' - output_pba_start s' + 1 = imr_lsm_segment_output_sector_count s"
    "range_free (segments m) (output_pba_start s') (output_pba_end s')"
proof -
  obtain s1 a b m1 m2 where al: "imr_lsm_allocate_segment_output_locked (place_on_top a b s1) m1 = (s', m2)"
    and f: "no_stats m1 = no_stats m" "seg_zone_idx s1 = seg_zone_idx s" "seg_block_table s1 = seg_block_table s"
      "seg_node_count s1 = seg_node_count s"
    using placement_cases [OF assms(1)] no_placement_frame(5) assms(2) by blast
  have sc: "imr_lsm_segment_output_sector_count (place_on_top a b s1) = imr_lsm_segment_output_sector_count s"
    by (simp add: imr_lsm_segment_output_sector_count_def place_on_top_frame f)
  have "placement_top_pba_end (place_on_top a b s1) * 2 + 1 < 2 ^ 64"
    unfolding place_on_top_range f(2) by (rule zone_lba_bound [OF assms(3) clamp_track_le])
  note o = allocate_output [OF al assms(2) this]
  show "output_pba_start s' \<le> output_pba_end s'" "range_free (segments m) (output_pba_start s') (output_pba_end s')"
    "output_pba_end s' - output_pba_start s' + 1 = imr_lsm_segment_output_sector_count s"
    "zone_idx_lba (seg_zone_idx s) \<le> output_pba_start s'"
    using o sc f(2) no_statsD(1) [OF f(1)] by (simp_all add: place_on_top_range)
  have "clamp_track b * 1024 \<le> 63 * 1024" using clamp_track_le [of b] by simp
  then have "(clamp_track b * 1024 + 455) * 8 + 7 < 524288" by simp
  then have "placement_top_pba_end (place_on_top a b s1) < zone_idx_lba (seg_zone_idx s + 1)"
    by (simp add: place_on_top_range f(2) zone_idx_lba_def IMR_ZONE_SIZE_SHIFT_def IMR_BLOCK_SIZE_SHIFT_def)
  then show "output_pba_end s' < zone_idx_lba (seg_zone_idx s + 1)" using o(3) by linarith
qed

lemma map_entries_data: "map_entries_loop e t c = (t', n, c') \<Longrightarrow> map entry_data t' = map entry_data t"
  by (induction e t c arbitrary: t' n c' rule: map_entries_loop.induct)
    (auto simp: Let_def entry_data_def clear_accounting_def split: if_splits prod.splits)

lemma map_output_frame:
  assumes "imr_lsm_map_segment_output_entries_locked s m = (s', m')"
  shows "no_stats m' = no_stats m" "seg_data s' = seg_data s" "retired s' = retired s"
    "output_allocated s' = output_allocated s" "output_pba_start s' = output_pba_start s" "output_pba_end s' = output_pba_end s"
proof -
  have "no_stats m' = no_stats m \<and> (\<exists>t. s' = s\<lparr>seg_block_table := t\<rparr> \<and> map entry_data t = map entry_data (seg_block_table s))"
  proof (cases "\<not> output_allocated s \<or> seg_block_table s = []")
    case True
    then have "s' = s" "no_stats m' = no_stats m"
      using assms by (auto simp: imr_lsm_map_segment_output_entries_locked_def Let_def)
    then show ?thesis by (intro conjI exI [of _ "seg_block_table s"]) simp_all
  next
    case False
    obtain t n c where t: "map_entries_loop (output_pba_end s) (seg_block_table s) (output_pba_start s) = (t, n, c)"
      by (cases "map_entries_loop (output_pba_end s) (seg_block_table s) (output_pba_start s)")
    then have "s' = s\<lparr>seg_block_table := t\<rparr>" "no_stats m' = no_stats m"
      using assms False by (auto simp: imr_lsm_map_segment_output_entries_locked_def Let_def)
    then show ?thesis using map_entries_data [OF t] by blast
  qed
  then show "no_stats m' = no_stats m" "seg_data s' = seg_data s" "retired s' = retired s"
    "output_allocated s' = output_allocated s" "output_pba_start s' = output_pba_start s" "output_pba_end s' = output_pba_end s"
    by (auto simp: seg_data_def seg_core_def)
qed

section \<open>Published segments\<close>

lemma no_stats_eq:
  assumes "no_stats m' = no_stats m"
  shows "m' = m\<lparr>stats := stats m'\<rparr>"
proof -
  have "m' = (no_stats m')\<lparr>stats := stats m'\<rparr>" by (simp add: no_stats_def)
  then show ?thesis unfolding assms by (simp add: no_stats_def)
qed

lemma ranges_overlap_sym: "imr_lsm_pba_ranges_overlap a b c d = imr_lsm_pba_ranges_overlap c d a b"
  by (auto simp: imr_lsm_pba_ranges_overlap_def)

abbreviation linked :: "imr_lsm_segment \<Rightarrow> imr_lsm_metadata \<Rightarrow> imr_lsm_metadata" where
  "linked s m \<equiv> m\<lparr>segments := segments m @ [s], segment_count := segment_count m + 1,
     next_segment_id := (next_segment_id m + 1) mod 2 ^ 32\<rparr>"

lemma publish_core:
  obtains s' where "seg_data s' = seg_data s" "retired s' = retired s"
    "idx_core (imr_lsm_publish_prepared_segment_locked zs s flag m) = idx_core (linked s' m)"
    "\<not> flag \<Longrightarrow> acct_core (imr_lsm_publish_prepared_segment_locked zs s flag m) = acct_core (linked s' m)"
    "output_allocated s' \<Longrightarrow> seg_zone_idx s \<le> u32_max \<Longrightarrow>
       output_pba_start s' \<le> output_pba_end s' \<and> zone_idx_lba (seg_zone_idx s) \<le> output_pba_start s' \<and>
       output_pba_end s' < zone_idx_lba (seg_zone_idx s + 1) \<and>
       output_pba_end s' - output_pba_start s' + 1 = imr_lsm_segment_output_sector_count s \<and>
       range_free (segments m) (output_pba_start s') (output_pba_end s')"
proof -
  define m0 where "m0 = m\<lparr>next_segment_id := (next_segment_id m + 1) mod 2 ^ 32\<rparr>"
  obtain s1 m1 where p: "imr_lsm_apply_segment_placement_locked (s\<lparr>seg_id := next_segment_id m\<rparr>) m0 = (s1, m1)" by fastforce
  obtain s2 m2 where q: "imr_lsm_map_segment_output_entries_locked s1 m1 = (s2, m2)" by fastforce
  define m3 where "m3 = m2\<lparr>segments := segments m2 @ [s2], segment_count := segment_count m2 + 1\<rparr>"
  note pf = placement_frame [OF p] and mf = map_output_frame [OF q]
  have "m2 = m0\<lparr>stats := stats m2\<rparr>" using pf(1) mf(1) by (intro no_stats_eq) simp
  then obtain st where "m2 = m0\<lparr>stats := st\<rparr>" by blast
  then have m3: "m3 = (linked s2 m)\<lparr>stats := st\<rparr>" by (simp add: m3_def m0_def)
  then have c: "acct_core m3 = acct_core (linked s2 m)" by (simp add: acct_core_def)
  obtain ok m4 where a: "imr_lsm_account_new_segment_invalid_stats_locked zs (length (segments m2)) m3 = (ok, m4)" by fastforce
  then have i4: "idx_core m4 = idx_core m3" using account_new_core [of zs "length (segments m2)" m3] by simp
  have pub: "imr_lsm_publish_prepared_segment_locked zs s flag m =
      (if flag then (if ok then imr_lsm_update_segment_compaction_selection_locked zs m4 else m4) else m3)"
    using p q a by (simp add: imr_lsm_publish_prepared_segment_locked_def Let_def m0_def m3_def)
  have d: "seg_data s2 = seg_data s" "retired s2 = retired s" using pf mf by (simp_all add: seg_data_def seg_core_def)
  have seg0: "segments m0 = segments m" "seg_zone_idx (s\<lparr>seg_id := next_segment_id m\<rparr>) = seg_zone_idx s"
    "imr_lsm_segment_output_sector_count (s\<lparr>seg_id := next_segment_id m\<rparr>) = imr_lsm_segment_output_sector_count s"
    by (simp_all add: m0_def imr_lsm_segment_output_sector_count_def)
  show thesis
  proof (rule that [of s2])
    show "idx_core (imr_lsm_publish_prepared_segment_locked zs s flag m) = idx_core (linked s2 m)"
      unfolding pub using i4 idx_core_acct [OF c] by simp
    show "acct_core (imr_lsm_publish_prepared_segment_locked zs s flag m) = acct_core (linked s2 m)" if "\<not> flag"
      unfolding pub using that c by simp
    show "output_pba_start s2 \<le> output_pba_end s2 \<and> zone_idx_lba (seg_zone_idx s) \<le> output_pba_start s2 \<and>
       output_pba_end s2 < zone_idx_lba (seg_zone_idx s + 1) \<and>
       output_pba_end s2 - output_pba_start s2 + 1 = imr_lsm_segment_output_sector_count s \<and>
       range_free (segments m) (output_pba_start s2) (output_pba_end s2)"
      if "output_allocated s2" "seg_zone_idx s \<le> u32_max"
      using placement_output [OF p] that mf(4-6) seg0 by simp
  qed (use d in simp_all)
qed

definition output_clash :: "imr_lsm_segment \<Rightarrow> imr_lsm_segment \<Rightarrow> bool" where
  "output_clash s t \<longleftrightarrow> \<not> retired s \<and> output_allocated s \<and> \<not> retired t \<and> output_allocated t \<and>
     imr_lsm_pba_ranges_overlap (output_pba_start s) (output_pba_end s) (output_pba_start t) (output_pba_end t)"

definition outputs_disjoint :: "imr_lsm_segment list \<Rightarrow> bool" where
  "outputs_disjoint segs \<longleftrightarrow> sorted_wrt (\<lambda>s t. \<not> output_clash s t) segs"

lemma outputs_disjoint_nth:
  "outputs_disjoint segs \<longleftrightarrow> (\<forall>i j. i < j \<longrightarrow> j < length segs \<longrightarrow> \<not> output_clash (segs ! i) (segs ! j))"
  by (simp add: outputs_disjoint_def sorted_wrt_iff_nth_less)

lemma outputs_disjoint_core: "outputs_disjoint (map seg_core segs) = outputs_disjoint segs"
  by (simp add: outputs_disjoint_def sorted_wrt_map output_clash_def seg_core_def)

text \<open>C18.  Reservation of output ranges: publishing a segment keeps the ranges of all published segments
  that are not retired pairwise disjoint, whichever accounting is asked for.\<close>

theorem publish_keeps_outputs_disjoint:
  assumes "outputs_disjoint (segments m)" "seg_zone_idx s \<le> u32_max"
  shows "outputs_disjoint (segments (imr_lsm_publish_prepared_segment_locked zs s flag m))"
proof -
  obtain s' where s': "idx_core (imr_lsm_publish_prepared_segment_locked zs s flag m) = idx_core (linked s' m)"
    "output_allocated s' \<Longrightarrow> seg_zone_idx s \<le> u32_max \<Longrightarrow> range_free (segments m) (output_pba_start s') (output_pba_end s')"
    by (rule publish_core [of s zs flag m]) blast
  have "\<not> output_clash t s'" if "t \<in> set (segments m)" for t
    using s'(2) that assms(2) ranges_overlap_sym [of "output_pba_start t"] by (auto simp: output_clash_def range_free_def)
  then have "outputs_disjoint (segments m @ [s'])" using assms(1) by (auto simp: outputs_disjoint_def sorted_wrt_append)
  then have "outputs_disjoint (map seg_core (segments (imr_lsm_publish_prepared_segment_locked zs s flag m)))"
    unfolding idx_coreD(2) [OF s'(1)] by (simp add: outputs_disjoint_core del: map_append)
  then show ?thesis by (simp add: outputs_disjoint_core)
qed

definition demo_segment :: imr_lsm_segment where
  "demo_segment = zero_segment\<lparr>seg_node_count := 2, seg_max_key := 600\<rparr>"

theorem publish_keeps_outputs_disjoint_witness:
  "outputs_disjoint (segments (imr_lsm_publish_prepared_segment_locked None demo_segment False
     (imr_lsm_publish_prepared_segment_locked None demo_segment False (zero_metadata [] 0))))"
proof -
  have z: "outputs_disjoint (segments (zero_metadata [] 0))" "seg_zone_idx demo_segment \<le> u32_max"
    by (simp_all add: outputs_disjoint_def zero_metadata_def demo_segment_def zero_segment_def)
  show ?thesis
    by (rule publish_keeps_outputs_disjoint [OF publish_keeps_outputs_disjoint [OF z] z(2)])
qed

text \<open>C24.  First fit: when the placement has a target, an output range is reserved exactly if some window of
  the needed size in the target is free of other reservations, and it is the lowest such window.\<close>

theorem output_allocation_first_fit:
  assumes "imr_lsm_allocate_segment_output_locked s m = (s', m')"
    "placement_policy s = 1" "placement_target_track_type s = IMR_LSM_TRACK_TOP"
    "n = imr_lsm_segment_output_sector_count s" "0 < n" "placement_top_pba_end s * 2 + 1 < 2 ^ 64"
  shows "(output_allocated s' \<longleftrightarrow>
      (\<exists>a. placement_top_pba_start s \<le> a \<and> a + n - 1 \<le> placement_top_pba_end s \<and> range_free (segments m) a (a + n - 1))) \<and>
    (output_allocated s' \<longrightarrow> output_pba_start s' =
      (LEAST a. placement_top_pba_start s \<le> a \<and> a + n - 1 \<le> placement_top_pba_end s \<and> range_free (segments m) a (a + n - 1)))"
proof -
  let ?P = "\<lambda>a. placement_top_pba_start s \<le> a \<and> a + n - 1 \<le> placement_top_pba_end s \<and> range_free (segments m) a (a + n - 1)"
  let ?t = "imr_lsm_reset_segment_output_locked s"
  have n: "imr_lsm_segment_output_sector_count ?t = n"
    by (simp add: assms(4) imr_lsm_segment_output_sector_count_def imr_lsm_reset_segment_output_locked_def)
  show ?thesis
  proof (cases "placement_top_pba_start s \<le> placement_top_pba_end s \<and>
      n \<le> placement_top_pba_end s - placement_top_pba_start s + 1")
    case False
    then have "\<not> output_allocated s'" using assms(1) n
      by (auto simp: imr_lsm_allocate_segment_output_locked_def Let_def imr_lsm_reset_segment_output_locked_def split: if_splits)
    moreover have "\<not> ?P a" for a using False assms(5) by auto
    ultimately show ?thesis by blast
  next
    case True
    then have lim: "placement_top_pba_end s + n < 2 ^ 64" using assms(6) by linarith
    note ff = output_loop_first_fit [where segs = "segments m" and c = "placement_top_pba_start s", OF assms(5) lim]
    show ?thesis
    proof (cases "output_loop (segments m) n (placement_top_pba_end s) (placement_top_pba_start s)")
      case None
      then have "\<not> output_allocated s'" using assms(1-3,5) n True
        by (auto simp: imr_lsm_allocate_segment_output_locked_def Let_def imr_lsm_reset_segment_output_locked_def split: if_splits)
      moreover have "\<not> ?P a" for a using ff None by auto
      ultimately show ?thesis by blast
    next
      case (Some ab)
      obtain a b where ab: "ab = (a, b)" by (cases ab)
      have al: "output_allocated s'" "output_pba_start s' = a" using assms(1-3,5) n True Some ab
        by (auto simp: imr_lsm_allocate_segment_output_locked_def Let_def imr_lsm_reset_segment_output_locked_def split: if_splits)
      have f: "placement_top_pba_start s \<le> a" "b = a + n - 1" "b \<le> placement_top_pba_end s" "range_free (segments m) a b"
        "\<forall>p. placement_top_pba_start s \<le> p \<and> p < a \<longrightarrow> \<not> range_free (segments m) p (p + n - 1)"
        using ff Some ab by auto
      have pa: "?P a" using f(1,3,4) unfolding f(2) by blast
      have "Least ?P = a"
      proof (rule Least_equality)
        show "a \<le> p" if "?P p" for p using f(5) that by (meson leI)
      qed (rule pa)
      then show ?thesis using al pa by (intro conjI iffI impI exI [of _ a]) (simp_all only:)
    qed
  qed
qed

theorem output_allocation_first_fit_witness:
  "output_allocated (fst (imr_lsm_allocate_segment_output_locked (place_on_top 0 600 demo_segment) (zero_metadata [] 0)))"
proof -
  let ?s = "place_on_top 0 600 demo_segment"
  obtain s' m' where al: "imr_lsm_allocate_segment_output_locked ?s (zero_metadata [] 0) = (s', m')" by fastforce
  have f: "placement_policy ?s = 1" "placement_target_track_type ?s = IMR_LSM_TRACK_TOP"
    by (simp_all add: place_on_top_def Let_def)
  have n: "16 = imr_lsm_segment_output_sector_count ?s"
    by (simp add: imr_lsm_segment_output_sector_count_def place_on_top_frame demo_segment_def zero_segment_def IMR_BLOCK_SIZE_SHIFT_def)
  have r: "placement_top_pba_start ?s = 0" "placement_top_pba_end ?s = 11839"
    by (simp_all add: place_on_top_range zone_idx_lba_def demo_segment_def zero_segment_def clamp_track_def
        IMR_BOTTOM_TRACK_SIZE_def TOP_TRACK_NUM_TOTAL_def)
  have ex: "placement_top_pba_start ?s \<le> 0 \<and> 0 + 16 - 1 \<le> placement_top_pba_end ?s \<and>
      range_free (segments (zero_metadata [] 0)) 0 (0 + 16 - 1)"
    by (simp add: r range_free_def zero_metadata_def)
  have lim: "0 < (16 :: nat)" "placement_top_pba_end ?s * 2 + 1 < 2 ^ 64" by (simp_all add: r)
  note ff = conjunct1 [OF output_allocation_first_fit [OF al f n lim]]
  have "output_allocated s'" by (rule iffD2 [OF ff], rule exI, rule ex)
  then show ?thesis by (simp add: al)
qed


end
