(* ===== verification/Imr_Lsm.thy ===== *)
theory Imr_Lsm
  imports Imr_Placement
begin

text \<open>
  The foreground operations of the in-kernel LSM, from \<open>dm-imrsim.c\<close>: appending a record
  (\<open>imr_lsm_append_unsorted_node_locked\<close> up to \<open>imr_lsm_record_insert\<close>), deleting
  (\<open>imr_lsm_delete_locked\<close>) and reading (\<open>imr_lsm_segment_lookup_level_locked\<close>, \<open>imr_lsm_read\<close>).  Queueing
  the background worker shows as \<open>level_compaction_pending\<close>.  The abstract specification of the LSM is
  the function from keys to their newest version; the theorems show that reading returns it, that
  appending and deleting update it at one key, and that nothing else in the state matters.
\<close>

section \<open>Appending\<close>

definition imr_lsm_append_unsorted_node_locked ::
  "imr_lsm_config \<Rightarrow> nat \<Rightarrow> nat \<Rightarrow> nat \<Rightarrow> nat \<Rightarrow> bool \<Rightarrow> imr_lsm_metadata \<Rightarrow> kret \<times> imr_lsm_metadata" where
  "imr_lsm_append_unsorted_node_locked c level key pba zone_idx valid m =
     (case kalloc (kmem m) of
        (False, mem) \<Rightarrow> (K_ENOMEM, m\<lparr>kmem := mem\<rparr>)
      | (True, mem) \<Rightarrow>
          let timestamp = lsm_timestamp m + 1;
              l = levels m ! level;
              node = \<lparr>n_key = key, n_pba = pba, n_zone_idx = zone_idx, n_valid = valid, n_timestamp = timestamp\<rparr>;
              m1 = m\<lparr>kmem := mem, lsm_timestamp := timestamp,
                     levels := (levels m)[level := l\<lparr>unsorted_nodes := node # unsorted_nodes l,
                                                    unsorted_count := unsorted_count l + 1\<rparr>]\<rparr>;
              m2 = snd (imr_lsm_newest_index_update_locked key timestamp valid m1);
              m3 = imr_lsm_tree_update_locked key pba valid timestamp m2
          in (0, imr_lsm_mark_level_compaction_pending_locked c m3))"

definition imr_lsm_append_unsorting_node ::
  "imr_lsm_config \<Rightarrow> nat \<Rightarrow> nat \<Rightarrow> nat \<Rightarrow> nat \<Rightarrow> imr_lsm_metadata \<Rightarrow> kret \<times> imr_lsm_metadata" where
  "imr_lsm_append_unsorting_node c level key pba zone_idx m =
     (if level \<ge> IMR_LSM_LEVELS then (K_EINVAL, m)
      else
        let m1 = imr_lsm_calculate_dynamic_levels_locked c
                   (if initialized m then m else imr_lsm_initialize_metadata_locked m);
            target_level = (if level = IMR_LSM_DEFAULT_UNSORTED_LEVEL then active_write_level m1 else level)
        in case imr_lsm_append_unsorted_node_locked c target_level key pba zone_idx True m1 of (ret, m2) \<Rightarrow>
             (ret, if ret = 0 then stat_inc ''lsm_write_count'' m2 else m2))"

definition imr_lsm_unsorted_write ::
  "imr_lsm_config \<Rightarrow> nat \<Rightarrow> nat \<Rightarrow> nat \<Rightarrow> nat \<Rightarrow> imr_lsm_metadata \<Rightarrow> kret \<times> imr_lsm_metadata" where
  "imr_lsm_unsorted_write c level key pba zone_idx m = imr_lsm_append_unsorting_node c level key pba zone_idx m"

definition imr_lsm_insert ::
  "imr_lsm_config \<Rightarrow> nat \<Rightarrow> nat \<Rightarrow> nat \<Rightarrow> nat \<Rightarrow> imr_lsm_metadata \<Rightarrow> kret \<times> imr_lsm_metadata" where
  "imr_lsm_insert c level key pba zone_idx m = imr_lsm_unsorted_write c level key pba zone_idx m"

definition imr_lsm_record_insert ::
  "imr_lsm_config \<Rightarrow> nat \<Rightarrow> nat \<Rightarrow> nat \<Rightarrow> imr_lsm_metadata \<Rightarrow> kret \<times> imr_lsm_metadata" where
  "imr_lsm_record_insert c zone_idx logical_lba physical_lba m =
     (let key = logical_lba div 2 ^ IMR_BLOCK_SIZE_SHIFT;
          m1 = stat_inc ''lsm_record_insert_count'' (if initialized m then m else imr_lsm_initialize_metadata_locked m)
      in imr_lsm_insert c IMR_LSM_DEFAULT_UNSORTED_LEVEL key physical_lba zone_idx m1)"

definition imr_lsm_record_insert_and_check_zone_full ::
  "imr_lsm_config \<Rightarrow> nat \<Rightarrow> nat \<Rightarrow> nat \<Rightarrow> imr_lsm_metadata \<Rightarrow> kret \<times> imr_lsm_metadata" where
  "imr_lsm_record_insert_and_check_zone_full c zone_idx logical_lba physical_lba m =
     imr_lsm_record_insert c zone_idx logical_lba physical_lba m"

definition imr_lsm_record_logical_write :: "imr_lsm_metadata \<Rightarrow> imr_lsm_metadata" where
  "imr_lsm_record_logical_write m =
     stat_inc ''logical_write_count'' (if initialized m then m else imr_lsm_initialize_metadata_locked m)"

definition imr_lsm_record_fallback :: "imr_lsm_metadata \<Rightarrow> imr_lsm_metadata" where
  "imr_lsm_record_fallback m = (if initialized m then stat_inc ''fallback_count'' m else m)"

definition imr_lsm_delete_locked :: "imr_lsm_config \<Rightarrow> nat \<Rightarrow> imr_lsm_metadata \<Rightarrow> kret \<times> imr_lsm_metadata" where
  "imr_lsm_delete_locked c key m =
     (let m1 = imr_lsm_tree_remove_locked key (imr_lsm_calculate_dynamic_levels_locked c
                 (if initialized m then m else imr_lsm_initialize_metadata_locked m))
      in case imr_lsm_append_unsorted_node_locked c (active_write_level m1) key 0 0 False m1 of (ret, m2) \<Rightarrow>
           (ret, if ret = 0 then stat_inc ''delete_count'' m2 else m2))"

section \<open>Reading\<close>

record imr_lsm_read_filter_stats =
  f_segment_lookup_count :: nat
  f_segment_skip_count :: nat
  f_segment_candidate_count :: nat
  f_bloom_lookup_count :: nat
  f_bloom_negative_count :: nat
  f_bloom_maybe_count :: nat
  f_block_table_lookup_count :: nat
  f_block_table_hit_count :: nat
  f_block_table_miss_count :: nat
  f_block_table_entry :: "imr_lsm_block_entry option"

definition zero_filter :: imr_lsm_read_filter_stats where
  "zero_filter = \<lparr>f_segment_lookup_count = 0, f_segment_skip_count = 0, f_segment_candidate_count = 0,
     f_bloom_lookup_count = 0, f_bloom_negative_count = 0, f_bloom_maybe_count = 0, f_block_table_lookup_count = 0,
     f_block_table_hit_count = 0, f_block_table_miss_count = 0, f_block_table_entry = None\<rparr>"

text \<open>The locals of the lookup loop: \<open>has_level_segment\<close>, \<open>needs_sorted_fallback\<close>, \<open>*level_entry\<close> once
  \<open>*level_hit\<close>, and the filter statistics.\<close>

type_synonym level_lookup = "bool \<times> bool \<times> imr_lsm_block_entry option \<times> imr_lsm_read_filter_stats"

definition newer_entry :: "imr_lsm_block_entry option \<Rightarrow> imr_lsm_block_entry \<Rightarrow> imr_lsm_block_entry option" where
  "newer_entry old e =
     (case old of None \<Rightarrow> Some e | Some o' \<Rightarrow> if be_timestamp e > be_timestamp o' then Some e else old)"

definition lookup_segment ::
  "nat \<Rightarrow> nat \<Rightarrow> nat \<Rightarrow> imr_lsm_segment \<Rightarrow> level_lookup \<Rightarrow> imr_lsm_segment \<times> level_lookup" where
  "lookup_segment now level key s st =
     (case st of (has, fallback, hit, f) \<Rightarrow>
        if seg_level s \<noteq> level then (s, st)
        else if retired s then (s, True, fallback, hit, f)
        else
          let f1 = f\<lparr>f_segment_lookup_count := f_segment_lookup_count f + 1\<rparr>
          in if key < seg_min_key s \<or> key > seg_max_key s
             then (s, True, fallback, hit, f1\<lparr>f_segment_skip_count := f_segment_skip_count f1 + 1\<rparr>)
             else
               let f2 = f1\<lparr>f_segment_candidate_count := f_segment_candidate_count f1 + 1,
                          f_bloom_lookup_count := f_bloom_lookup_count f1 + 1\<rparr>
               in if \<not> (bloom_key_count s = 0 \<or> imr_lsm_bloom_may_contain s key)
                  then (s, True, fallback, hit, f2\<lparr>f_bloom_negative_count := f_bloom_negative_count f2 + 1\<rparr>)
                  else
                    let f3 = f2\<lparr>f_bloom_maybe_count := f_bloom_maybe_count f2 + 1\<rparr>
                    in if seg_block_table s = [] then (s, True, True, hit, f3)
                       else
                         let f4 = f3\<lparr>f_block_table_lookup_count := f_block_table_lookup_count f3 + 1\<rparr>
                         in case imr_lsm_segment_block_table_find s key of
                              None \<Rightarrow> (s, True, fallback, hit, f4\<lparr>f_block_table_miss_count := f_block_table_miss_count f4 + 1\<rparr>)
                            | Some e \<Rightarrow>
                                (s\<lparr>read_hit_count := read_hit_count s + 1, last_read_timestamp := now\<rparr>, True, fallback,
                                 newer_entry hit e,
                                 f4\<lparr>f_block_table_hit_count := f_block_table_hit_count f4 + 1,
                                    f_block_table_entry := newer_entry (f_block_table_entry f4) e\<rparr>))"

fun lookup_segments ::
  "nat \<Rightarrow> nat \<Rightarrow> nat \<Rightarrow> imr_lsm_segment list \<Rightarrow> level_lookup \<Rightarrow> imr_lsm_segment list \<times> level_lookup" where
  "lookup_segments now level key [] st = ([], st)"
| "lookup_segments now level key (s # ss) st =
     (case lookup_segment now level key s st of (s', st') \<Rightarrow>
        case lookup_segments now level key ss st' of (ss', st'') \<Rightarrow> (s' # ss', st''))"

text \<open>The result: whether to scan the sorted list, the entry if hit, the statistics and the state.\<close>

definition imr_lsm_segment_lookup_level_locked ::
  "nat \<Rightarrow> nat \<Rightarrow> imr_lsm_read_filter_stats \<Rightarrow> imr_lsm_metadata
    \<Rightarrow> bool \<times> imr_lsm_block_entry option \<times> imr_lsm_read_filter_stats \<times> imr_lsm_metadata" where
  "imr_lsm_segment_lookup_level_locked level key f m =
     (case lookup_segments (lsm_timestamp m) level key (segments m) (False, False, None, f) of
        (segs, has_level_segment, needs_sorted_fallback, hit, f') \<Rightarrow>
          (if \<not> has_level_segment then True else needs_sorted_fallback, hit, f', m\<lparr>segments := segs\<rparr>))"

datatype imr_lsm_read_source =
  IMR_LSM_READ_SOURCE_NONE | IMR_LSM_READ_SOURCE_UNSORTED | IMR_LSM_READ_SOURCE_SEGMENT | IMR_LSM_READ_SOURCE_SORTED

text \<open>The locals of \<open>imr_lsm_read\<close> for the newest record so far: \<open>result\<close>, \<open>newest_timestamp\<close>,
  \<open>newest_valid\<close>, \<open>newest_source\<close>, \<open>newest_pba\<close>.\<close>

type_synonym read_newest = "imr_lsm_lookup_result \<times> nat \<times> bool \<times> imr_lsm_read_source \<times> nat"

definition note_record :: "imr_lsm_read_source \<Rightarrow> version \<Rightarrow> read_newest \<Rightarrow> read_newest" where
  "note_record source v st =
     (case v of (timestamp, pba, valid) \<Rightarrow> case st of (result, newest_timestamp, newest_valid, newest_source, newest_pba) \<Rightarrow>
        if timestamp > newest_timestamp
        then (if valid then IMR_LSM_LOOKUP_VALID else IMR_LSM_LOOKUP_DELETED, timestamp, valid, source, pba)
        else st)"

definition read_unsorted :: "nat \<Rightarrow> imr_lsm_metadata \<Rightarrow> read_newest \<Rightarrow> read_newest" where
  "read_unsorted key m =
     fold (\<lambda>level. fold (\<lambda>n. if n_key n = key then note_record IMR_LSM_READ_SOURCE_UNSORTED (node_version n) else id)
                        (unsorted_nodes (levels m ! level))) [0..<IMR_LSM_LEVELS]"

definition read_level ::
  "nat \<Rightarrow> nat \<Rightarrow> read_newest \<times> imr_lsm_read_filter_stats \<times> imr_lsm_metadata
    \<Rightarrow> read_newest \<times> imr_lsm_read_filter_stats \<times> imr_lsm_metadata" where
  "read_level key level st =
     (case st of (newest, f, m) \<Rightarrow>
        case imr_lsm_segment_lookup_level_locked level key f m of (scan_sorted_fallback, hit, f', m') \<Rightarrow>
          let newest1 = (case hit of None \<Rightarrow> newest
                         | Some e \<Rightarrow> note_record IMR_LSM_READ_SOURCE_SEGMENT (entry_version e) newest)
          in if \<not> scan_sorted_fallback \<or> sorted_count (levels m' ! level) = 0 then (newest1, f', m')
             else (case sorted_find key (sorted_nodes (levels m' ! level)) of
                     None \<Rightarrow> newest1
                   | Some n \<Rightarrow> note_record IMR_LSM_READ_SOURCE_SORTED (node_version n) newest1, f', m'))"

definition record_filter_stats :: "nat \<Rightarrow> imr_lsm_read_filter_stats \<Rightarrow> imr_lsm_metadata \<Rightarrow> imr_lsm_metadata" where
  "record_filter_stats key f m =
     stat_sets
       ([(''last_segment_read_key'', int key),
         (''last_segment_lookup_count'', int (f_segment_lookup_count f)),
         (''last_segment_skip_count'', int (f_segment_skip_count f)),
         (''last_segment_candidate_count'', int (f_segment_candidate_count f)),
         (''last_bloom_lookup_count'', int (f_bloom_lookup_count f)),
         (''last_bloom_negative_count'', int (f_bloom_negative_count f)),
         (''last_bloom_maybe_count'', int (f_bloom_maybe_count f)),
         (''last_block_table_lookup_count'', int (f_block_table_lookup_count f)),
         (''last_block_table_hit_count'', int (f_block_table_hit_count f)),
         (''last_block_table_miss_count'', int (f_block_table_miss_count f))] @
        (case f_block_table_entry f of
           Some e \<Rightarrow> [(''last_block_table_hit_key'', int (be_key e)), (''last_block_table_hit_pba'', int (be_pba e)),
              (''last_block_table_hit_timestamp'', int (be_timestamp e)),
              (''last_block_table_hit_valid'', bool_int (be_valid e))]
         | None \<Rightarrow> [(''last_block_table_hit_key'', 0), (''last_block_table_hit_pba'', 0),
              (''last_block_table_hit_timestamp'', 0), (''last_block_table_hit_valid'', 0)]))
       (stat_adds
         [(''segment_lookup_count'', int (f_segment_lookup_count f)), (''segment_skip_count'', int (f_segment_skip_count f)),
          (''segment_candidate_count'', int (f_segment_candidate_count f)),
          (''bloom_lookup_count'', int (f_bloom_lookup_count f)),
          (''bloom_negative_count'', int (f_bloom_negative_count f)), (''bloom_maybe_count'', int (f_bloom_maybe_count f)),
          (''block_table_lookup_count'', int (f_block_table_lookup_count f)),
          (''block_table_hit_count'', int (f_block_table_hit_count f)),
          (''block_table_miss_count'', int (f_block_table_miss_count f))] m)"

text \<open>The tail of \<open>imr_lsm_read\<close> after the scan; the second result is what \<open>*pba\<close> receives.\<close>

definition read_finish ::
  "nat \<Rightarrow> read_newest \<times> imr_lsm_read_filter_stats \<times> imr_lsm_metadata \<Rightarrow> imr_lsm_lookup_result \<times> nat option \<times> imr_lsm_metadata" where
  "read_finish key x =
     (case x of ((result, newest_timestamp, newest_valid, newest_source, newest_pba), f, m2) \<Rightarrow>
        let m3 = record_filter_stats key f m2
        in case result of
             IMR_LSM_LOOKUP_VALID \<Rightarrow>
               let m4 = imr_lsm_tree_update_locked key newest_pba newest_valid newest_timestamp m3
               in (IMR_LSM_LOOKUP_VALID, Some newest_pba,
                   if newest_valid
                   then stat_inc (case newest_source of
                          IMR_LSM_READ_SOURCE_UNSORTED \<Rightarrow> ''unsorted_hit_count''
                        | IMR_LSM_READ_SOURCE_SEGMENT \<Rightarrow> ''segment_hit_count''
                        | _ \<Rightarrow> ''sorted_hit_count'') m4
                   else m4)
           | IMR_LSM_LOOKUP_DELETED \<Rightarrow>
               (IMR_LSM_LOOKUP_DELETED, None, stat_inc ''tombstone_hit_count''
                  (imr_lsm_tree_update_locked key newest_pba newest_valid newest_timestamp m3))
           | IMR_LSM_LOOKUP_MISS \<Rightarrow> (IMR_LSM_LOOKUP_MISS, None, stat_inc ''read_miss_count'' m3))"

definition imr_lsm_read :: "nat \<Rightarrow> imr_lsm_metadata \<Rightarrow> imr_lsm_lookup_result \<times> nat option \<times> imr_lsm_metadata" where
  "imr_lsm_read key m0 =
     (let m = stat_inc ''read_lookup_count'' m0
      in if \<not> initialized m then (IMR_LSM_LOOKUP_MISS, None, stat_inc ''read_miss_count'' m)
         else case imr_lsm_tree_lookup_locked key m of (result, tree_pba, tree_timestamp, m1) \<Rightarrow>
           case result of
             IMR_LSM_LOOKUP_VALID \<Rightarrow> (IMR_LSM_LOOKUP_VALID, tree_pba, stat_inc ''tree_hit_count'' m1)
           | IMR_LSM_LOOKUP_DELETED \<Rightarrow> (IMR_LSM_LOOKUP_DELETED, None, stat_inc ''tombstone_hit_count'' m1)
           | IMR_LSM_LOOKUP_MISS \<Rightarrow>
               read_finish key (fold (read_level key) [0..<IMR_LSM_LEVELS]
                 (read_unsorted key m1 (IMR_LSM_LOOKUP_MISS, 0, False, IMR_LSM_READ_SOURCE_NONE, 0), zero_filter, m1)))"

section \<open>Records depend only on the data of segments\<close>

lemma entry_data_version [simp]: "entry_version (entry_data e) = entry_version e" "be_key (entry_data e) = be_key e"
  "be_key (clear_accounting e) = be_key e"
  by (simp_all add: entry_version_def entry_data_def clear_accounting_def)

lemma block_table_search_map:
  assumes "\<And>e. be_key (f e) = be_key e" "right \<le> length t"
  shows "block_table_search (map f t) key left right = map_option f (block_table_search t key left right)"
  using assms(2)
proof (induction t key left right rule: block_table_search.induct)
  case (1 t key left right)
  note s = block_table_search.simps [of "map f t" key left right] block_table_search.simps [of t key left right]
  show ?case
  proof (cases "left < right")
    case True
    define mid where "mid = left + (right - left) div 2"
    have mid: "mid < right" "mid < length t" using True 1(3) by (auto simp: mid_def)
    show ?thesis using True 1(1,2) [OF True mid_def refl] 1(3) mid assms(1)
      by (simp add: s Let_def mid_def [symmetric])
  qed (simp add: s)
qed

lemma table_find_data:
  "map_option entry_version (imr_lsm_segment_block_table_find (seg_data s) key) =
   map_option entry_version (imr_lsm_segment_block_table_find s key)"
  by (simp add: imr_lsm_segment_block_table_find_def seg_data_def seg_core_def block_table_search_map option.map_comp comp_def)

lemma case_option_list_map:
  "(case x of None \<Rightarrow> [] | Some e \<Rightarrow> [f e]) = (case map_option f x of None \<Rightarrow> [] | Some v \<Rightarrow> [v])"
  by (cases x) simp_all

lemma segment_records_data: "segment_records key (seg_data s) = segment_records key s"
  by (simp add: segment_records_def case_option_list_map [where f = entry_version] table_find_data)
    (simp add: seg_data_def seg_core_def)

lemma seg_data_core: "seg_core s = seg_core t \<Longrightarrow> seg_data s = seg_data t"
proof -
  have e: "entry_data (clear_accounting e) = entry_data e" for e by (simp add: entry_data_def clear_accounting_def)
  have "seg_data s = (seg_core s)\<lparr>seg_id := 0, seg_block_table := map entry_data (seg_block_table (seg_core s)),
     placement_policy := 0, placement_target_track_type := 0, placement_bottom_track_start := 0,
     placement_bottom_track_end := 0, placement_bottom_key_start := 0, placement_bottom_key_end := 0,
     placement_top_track_start := 0, placement_top_track_end := 0, placement_top_pba_start := 0,
     placement_top_pba_end := 0, output_allocated := False, output_track_type := 0, output_block_count := 0,
     output_pba_start := 0, output_pba_end := 0\<rparr>" for s
    by (simp add: seg_data_def e) (simp add: seg_core_def e)
  then show "seg_core s = seg_core t \<Longrightarrow> seg_data s = seg_data t" by metis
qed

text \<open>What lookups need of a segment is a property of its data.\<close>

lemma may_contain_data: "imr_lsm_bloom_may_contain (seg_data s) k = imr_lsm_bloom_may_contain s k"
  by (simp add: imr_lsm_bloom_may_contain_def seg_data_def seg_core_def)

lemma table_ok_map: "(\<And>e. be_key (f e) = be_key e) \<Longrightarrow> table_ok (map f t) = table_ok t"
  by (simp add: table_ok_def sorted_wrt_map)

lemma seg_ok_data: "seg_ok (seg_data s) = seg_ok s"
proof -
  have "seg_block_table (seg_data s) = map entry_data (seg_block_table s)" "seg_min_key (seg_data s) = seg_min_key s"
    "seg_max_key (seg_data s) = seg_max_key s" by (simp_all add: seg_data_def seg_core_def)
  then show ?thesis by (simp add: seg_ok_def table_ok_map may_contain_data)
qed

text \<open>A segment that is fit for lookups, and whose level exists, unless it is retired.\<close>

definition live_seg_ok :: "imr_lsm_segment \<Rightarrow> bool" where
  "live_seg_ok s \<longleftrightarrow> retired s \<or> (seg_ok s \<and> seg_level s < IMR_LSM_LEVELS)"

lemma seg_data_cong:
  assumes "seg_data s' = seg_data s"
  shows "live_seg_ok s' = live_seg_ok s" "segment_records key s' = segment_records key s" "retired s' = retired s"
    "seg_level s' = seg_level s"
proof -
  have r: "retired (seg_data s) = retired s" "seg_level (seg_data s) = seg_level s" for s
    by (simp_all add: seg_data_def seg_core_def)
  show "retired s' = retired s" "seg_level s' = seg_level s" using assms r by metis+
  then show "live_seg_ok s' = live_seg_ok s" using assms seg_ok_data by (metis live_seg_ok_def)
  show "segment_records key s' = segment_records key s" using assms segment_records_data by metis
qed

section \<open>The abstract store\<close>

text \<open>The newest version of every key, over all records the state holds.\<close>

definition newest :: "imr_lsm_metadata \<Rightarrow> nat \<Rightarrow> version option" where
  "newest m key = foldl best None (scan_records key m)"

definition is_newest :: "version set \<Rightarrow> version \<Rightarrow> bool" where
  "is_newest R v \<longleftrightarrow> v \<in> R \<and> (\<forall>w \<in> R. fst w \<le> fst v)"

lemma best_simps: "best None r = Some r" "best (Some v) r = (if fst v < fst r then Some r else Some v)"
  by (simp_all add: best_def)

lemma foldl_best:
  "(case foldl best a xs of
      None \<Rightarrow> a = None \<and> xs = []
    | Some v \<Rightarrow> is_newest (set_option a \<union> set xs) v)"
proof (induction xs rule: rev_induct)
  case Nil show ?case by (cases a) (auto simp: is_newest_def)
next
  case (snoc x xs)
  show ?case
  proof (cases "foldl best a xs")
    case None
    then show ?thesis using snoc by (simp add: best_simps is_newest_def)
  next
    case (Some v)
    then have v: "is_newest (set_option a \<union> set xs) v" using snoc by simp
    show ?thesis
    proof (cases "fst v < fst x")
      case True
      then have "\<forall>w \<in> set_option a \<union> set xs. fst w \<le> fst x" using v by (meson is_newest_def le_trans less_imp_le_nat)
      then show ?thesis using True Some by (auto simp: best_simps is_newest_def)
    next
      case False
      then show ?thesis using v Some by (auto simp: best_simps is_newest_def)
    qed
  qed
qed

text \<open>Two records of a key with the same timestamp are the same.\<close>

definition versions_unique :: "version set \<Rightarrow> bool" where
  "versions_unique R \<longleftrightarrow> (\<forall>v \<in> R. \<forall>w \<in> R. fst v = fst w \<longrightarrow> v = w)"

lemma newest_None: "newest m key = None \<longleftrightarrow> scan_records key m = []"
  using foldl_best [of None "scan_records key m"] by (auto simp: newest_def is_newest_def split: option.splits)

lemma newest_iff:
  assumes "versions_unique (set (scan_records key m))"
  shows "newest m key = Some v \<longleftrightarrow> is_newest (set (scan_records key m)) v"
proof
  assume "newest m key = Some v"
  then show "is_newest (set (scan_records key m)) v"
    using foldl_best [of None "scan_records key m"] by (simp add: newest_def)
next
  assume v: "is_newest (set (scan_records key m)) v"
  then have "scan_records key m \<noteq> []" by (auto simp: is_newest_def)
  then obtain w where w: "newest m key = Some w" using newest_None by blast
  then have "is_newest (set (scan_records key m)) w"
    using foldl_best [of None "scan_records key m"] by (simp add: newest_def)
  then have "fst v = fst w" "w \<in> set (scan_records key m)" "v \<in> set (scan_records key m)"
    using v by (auto simp: is_newest_def intro: order_antisym)
  then show "newest m key = Some v" using w assms by (auto simp: versions_unique_def)
qed

text \<open>Records of a level and the coverage of its sorted list by its segments.\<close>

definition sorted_ok :: "imr_lsm_node list \<Rightarrow> bool" where
  "sorted_ok l \<longleftrightarrow> sorted_wrt (\<lambda>a b. n_key a < n_key b) l"

definition level_ok :: "imr_lsm_level_state \<Rightarrow> bool" where
  "level_ok l \<longleftrightarrow> unsorted_count l = length (unsorted_nodes l) \<and> sorted_count l = length (sorted_nodes l) \<and>
     sorted_ok (sorted_nodes l)"

lemma sorted_find_iff:
  assumes "sorted_ok l"
  shows "sorted_find key l = Some n \<longleftrightarrow> n \<in> set l \<and> n_key n = key"
  using assms
proof (induction l)
  case (Cons a l)
  then have IH: "sorted_find key l = Some n \<longleftrightarrow> n \<in> set l \<and> n_key n = key" and a: "\<forall>b \<in> set l. n_key a < n_key b"
    by (simp_all add: sorted_ok_def)
  show ?case
  proof (cases "n_key a < key")
    case True
    then have "sorted_find key (a # l) = sorted_find key l" by (simp add: sorted_find_def)
    then show ?thesis using IH True by auto
  next
    case False
    then have "sorted_find key (a # l) = (if n_key a = key then Some a else None)" by (simp add: sorted_find_def)
    then show ?thesis using False a by auto
  qed
qed (simp add: sorted_find_def)

lemma level_records_set:
  assumes "level_ok l"
  shows "set (level_records key l) = node_version ` {n \<in> set (unsorted_nodes l) \<union> set (sorted_nodes l). n_key n = key}"
proof -
  have so: "sorted_ok (sorted_nodes l)" using assms by (simp add: level_ok_def)
  have "set (case sorted_find key (sorted_nodes l) of None \<Rightarrow> [] | Some n \<Rightarrow> [node_version n]) =
      node_version ` {n \<in> set (sorted_nodes l). n_key n = key}"
    using sorted_find_iff [OF so, of key] by (cases "sorted_find key (sorted_nodes l)") force+
  then show ?thesis by (auto simp: level_records_def)
qed

lemma segment_records_set:
  assumes "live_seg_ok s"
  shows "set (segment_records key s) =
    (if retired s then {} else entry_version ` {e \<in> set (seg_block_table s). be_key e = key})"
proof (cases "retired s")
  case False
  then have t: "table_ok (seg_block_table s)" using assms by (simp add: live_seg_ok_def seg_ok_def)
  have "set (case table_find (seg_block_table s) key of None \<Rightarrow> [] | Some e \<Rightarrow> [entry_version e]) =
      entry_version ` {e \<in> set (seg_block_table s). be_key e = key}"
    using table_find_Some [OF t, of key] table_find_None [of "seg_block_table s" key]
    by (cases "table_find (seg_block_table s) key") force+
  then show ?thesis using False by (simp add: segment_records_def block_table_find_correct [OF t])
qed (simp add: segment_records_def)

definition node_versions :: "nat \<Rightarrow> imr_lsm_node list \<Rightarrow> version set" where
  "node_versions key ns = node_version ` {n \<in> set ns. n_key n = key}"

text \<open>The records that reads consult without looking at the sorted lists.\<close>

definition consulted :: "nat \<Rightarrow> imr_lsm_metadata \<Rightarrow> version set" where
  "consulted key m = (\<Union>l < IMR_LSM_LEVELS. node_versions key (unsorted_nodes (levels m ! l))) \<union>
     (\<Union>s \<in> set (segments m). set (segment_records key s))"

text \<open>Every sorted node is dominated by an unsorted node or an entry of a segment; and, in the levels that
  can be retired as a whole, every entry of a segment is dominated by a sorted node of its level.\<close>

definition covered :: "imr_lsm_metadata \<Rightarrow> bool" where
  "covered m \<longleftrightarrow> (\<forall>l < IMR_LSM_LEVELS. \<forall>n \<in> set (sorted_nodes (levels m ! l)).
     \<exists>v \<in> consulted (n_key n) m. n_timestamp n \<le> fst v)"

definition backed_seg :: "imr_lsm_metadata \<Rightarrow> imr_lsm_segment \<Rightarrow> bool" where
  "backed_seg m s \<longleftrightarrow> seg_level s < IMR_LSM_MAX_LEVEL \<longrightarrow> (\<forall>key. \<forall>v \<in> set (segment_records key s).
     \<exists>n \<in> set (sorted_nodes (levels m ! seg_level s)). n_key n = key \<and> fst v \<le> n_timestamp n)"

definition backed :: "imr_lsm_metadata \<Rightarrow> bool" where
  "backed m \<longleftrightarrow> (\<forall>s \<in> set (segments m). backed_seg m s)"

definition store_ok :: "imr_lsm_metadata \<Rightarrow> bool" where
  "store_ok m \<longleftrightarrow> length (levels m) = IMR_LSM_LEVELS \<and> (\<forall>l < IMR_LSM_LEVELS. level_ok (levels m ! l)) \<and>
     (\<forall>s \<in> set (segments m). live_seg_ok s) \<and> covered m \<and> backed m \<and>
     (\<forall>key. versions_unique (set (scan_records key m)) \<and>
        (\<forall>v \<in> set (scan_records key m). 0 < fst v \<and> fst v \<le> lsm_timestamp m))"

text \<open>The whole invariant: the cache only holds newest versions.\<close>

definition lsm_ok :: "imr_lsm_metadata \<Rightarrow> bool" where
  "lsm_ok m \<longleftrightarrow> store_ok m \<and> cache_ok m \<and> (\<forall>k v. cached m k = Some v \<longrightarrow> newest m k = Some v)"

section \<open>States with the same records\<close>

definition store_eq :: "imr_lsm_metadata \<Rightarrow> imr_lsm_metadata \<Rightarrow> bool" where
  "store_eq m' m \<longleftrightarrow> levels m' = levels m \<and> map seg_data (segments m') = map seg_data (segments m) \<and>
     lsm_timestamp m' = lsm_timestamp m"

lemma ball_seg_cong:
  assumes "map seg_data xs = map seg_data ys" "\<And>s t. seg_data s = seg_data t \<Longrightarrow> P s = P t"
  shows "(\<forall>s \<in> set xs. P s) = (\<forall>s \<in> set ys. P s)" "(\<exists>s \<in> set xs. P s) = (\<exists>s \<in> set ys. P s)"
proof -
  have "length xs = length ys" using assms(1) by (rule map_eq_imp_length_eq)
  then have "(\<forall>s \<in> set xs. P s) = (\<forall>s \<in> set ys. P s) \<and> (\<exists>s \<in> set xs. P s) = (\<exists>s \<in> set ys. P s)"
    using assms(1)
  proof (induction xs ys rule: list_induct2)
    case (Cons x xs y ys)
    then show ?case using assms(2) [of x y] by simp
  qed simp
  then show "(\<forall>s \<in> set xs. P s) = (\<forall>s \<in> set ys. P s)" "(\<exists>s \<in> set xs. P s) = (\<exists>s \<in> set ys. P s)"
    by simp_all
qed

lemma segment_records_map:
  "map seg_data xs = map seg_data ys \<Longrightarrow> map (segment_records key) xs = map (segment_records key) ys"
proof -
  assume "map seg_data xs = map seg_data ys"
  then have "map (segment_records key) (map seg_data xs) = map (segment_records key) (map seg_data ys)" by simp
  then show ?thesis by (simp add: comp_def segment_records_data)
qed

lemma store_eq_records: "store_eq m' m \<Longrightarrow> scan_records key m' = scan_records key m"
  using segment_records_map [of "segments m'" "segments m" key] by (simp add: store_eq_def scan_records_def)

lemma store_eq_newest: "store_eq m' m \<Longrightarrow> newest m' = newest m"
  by (rule ext) (simp add: newest_def store_eq_records)

lemma backed_seg_cong:
  assumes "seg_data s = seg_data t" "levels m' = levels m"
  shows "backed_seg m' s = backed_seg m t"
proof -
  have "segment_records k s = segment_records k t" for k by (rule seg_data_cong(2) [OF assms(1)])
  then show ?thesis unfolding backed_seg_def assms(2) seg_data_cong(4) [OF assms(1)] by simp
qed

lemma store_eq_ok: "store_eq m' m \<Longrightarrow> store_ok m' = store_ok m"
proof -
  assume e: "store_eq m' m"
  then have d: "map seg_data (segments m') = map seg_data (segments m)" "levels m' = levels m" "lsm_timestamp m' = lsm_timestamp m"
    by (simp_all add: store_eq_def)
  have "(\<forall>s \<in> set (segments m'). live_seg_ok s) = (\<forall>s \<in> set (segments m). live_seg_ok s)"
    by (rule ball_seg_cong(1) [OF d(1)]) (rule seg_data_cong(1))
  moreover have "(\<exists>s \<in> set (segments m'). v \<in> set (segment_records k s)) = (\<exists>s \<in> set (segments m). v \<in> set (segment_records k s))"
    for k v by (rule ball_seg_cong(2) [OF d(1)]) (metis seg_data_cong(2))
  then have "consulted k m' = consulted k m" for k unfolding consulted_def d(2) by (intro arg_cong2 [of _ _ _ _ "(\<union>)"] refl set_eqI) simp
  then have "covered m' = covered m" unfolding covered_def d(2) by simp
  moreover have "backed_seg m' = backed_seg m" by (rule ext) (rule backed_seg_cong [OF refl d(2)])
  then have "backed m' = backed m" unfolding backed_def
    using ball_seg_cong(1) [OF d(1), of "backed_seg m", OF backed_seg_cong [OF _ refl]] by simp
  ultimately show ?thesis unfolding store_ok_def d(2,3) store_eq_records [OF e] by simp
qed

lemma map_seg_data_core:
  assumes "map seg_core xs = map seg_core ys"
  shows "map seg_data xs = map seg_data ys"
proof -
  have "length xs = length ys" using assms by (rule map_eq_imp_length_eq)
  then show ?thesis using assms
  proof (induction xs ys rule: list_induct2)
    case (Cons x xs y ys)
    then show ?case using seg_data_core [of x y] by simp
  qed simp
qed

lemma store_eq_idx: "idx_core m' = idx_core m \<Longrightarrow> store_eq m' m"
  unfolding store_eq_def by (intro conjI idx_coreD(1,3) map_seg_data_core idx_coreD(2))

lemma store_eq_acct: "acct_core m' = acct_core m \<Longrightarrow> store_eq m' m"
  by (rule store_eq_idx [OF idx_core_acct])

lemma store_eq_cache: "cache_core m' = cache_core m \<Longrightarrow> store_eq m' m"
  unfolding store_eq_def using cache_coreD(1-3) [of m' m] by simp

lemma store_eq_trans: "store_eq a b \<Longrightarrow> store_eq b c \<Longrightarrow> store_eq a c"
  by (simp add: store_eq_def)

lemma store_eq_refl [simp]: "store_eq m m"
  by (simp add: store_eq_def)

lemma scan_records_set:
  "v \<in> set (scan_records key m) \<longleftrightarrow>
    (\<exists>l < IMR_LSM_LEVELS. v \<in> set (level_records key (levels m ! l))) \<or> (\<exists>s \<in> set (segments m). v \<in> set (segment_records key s))"
  by (auto simp: scan_records_def)

section \<open>Reading returns the newest version\<close>

text \<open>The locals of a read after the versions in \<open>X\<close>.\<close>

definition read_inv :: "version set \<Rightarrow> read_newest \<Rightarrow> bool" where
  "read_inv X st = (case st of (result, ts, valid, source, pba) \<Rightarrow>
     if X = {} then result = IMR_LSM_LOOKUP_MISS \<and> ts = 0
     else is_newest X (ts, pba, valid) \<and> 0 < ts \<and>
       result = (if valid then IMR_LSM_LOOKUP_VALID else IMR_LSM_LOOKUP_DELETED))"

lemma note_record_inv:
  assumes "read_inv X st" "0 < fst v"
  shows "read_inv (insert v X) (note_record source v st)"
proof -
  obtain r t w src p where st: "st = (r, t, w, src, p)" by (cases st) auto
  obtain ts pba valid where v: "v = (ts, pba, valid)" by (cases v) auto
  show ?thesis
  proof (cases "t < ts")
    case True
    have "\<forall>x \<in> X. fst x \<le> ts" using assms(1) True by (fastforce simp: read_inv_def st is_newest_def split: if_splits)
    then show ?thesis using True by (simp add: note_record_def st v read_inv_def is_newest_def)
  next
    case False
    then have "X \<noteq> {}" using assms by (auto simp: read_inv_def st v)
    then show ?thesis using False assms(1) by (auto simp: note_record_def st v read_inv_def is_newest_def)
  qed
qed

text \<open>The lookup of one level: the hit so far after the versions in \<open>X\<close>.\<close>

definition hit_inv :: "version set \<Rightarrow> imr_lsm_block_entry option \<Rightarrow> bool" where
  "hit_inv X hit = (case hit of None \<Rightarrow> X = {} | Some e \<Rightarrow> is_newest X (entry_version e))"

lemma newer_entry_inv: "hit_inv X hit \<Longrightarrow> hit_inv (insert (entry_version e) X) (newer_entry hit e)"
  by (cases hit) (fastforce simp: hit_inv_def newer_entry_def is_newest_def entry_version_def)+

definition level_versions :: "nat \<Rightarrow> nat \<Rightarrow> imr_lsm_segment list \<Rightarrow> version set" where
  "level_versions level key ss = (\<Union>s \<in> {s \<in> set ss. seg_level s = level}. set (segment_records key s))"

lemma level_versions_Cons:
  "level_versions level key (s # ss) =
     (if seg_level s = level then set (segment_records key s) else {}) \<union> level_versions level key ss"
  by (auto simp: level_versions_def)

lemma segment_records_hit:
  assumes "live_seg_ok s" "\<not> retired s"
  shows "segment_records key s =
    (case imr_lsm_segment_block_table_find s key of None \<Rightarrow> [] | Some e \<Rightarrow> [entry_version e])"
    and "imr_lsm_segment_block_table_find s key = Some e \<Longrightarrow>
      seg_min_key s \<le> key \<and> key \<le> seg_max_key s \<and> imr_lsm_bloom_may_contain s key"
proof -
  have s: "seg_ok s" "table_ok (seg_block_table s)" using assms by (simp_all add: live_seg_ok_def seg_ok_def)
  show "segment_records key s =
    (case imr_lsm_segment_block_table_find s key of None \<Rightarrow> [] | Some e \<Rightarrow> [entry_version e])"
    using assms(2) by (simp add: segment_records_def)
  assume "imr_lsm_segment_block_table_find s key = Some e"
  then have "table_find (seg_block_table s) key = Some e" by (simp add: block_table_find_correct [OF s(2)])
  then have "e \<in> set (seg_block_table s) \<and> be_key e = key" by (simp add: table_find_Some [OF s(2)])
  then show "seg_min_key s \<le> key \<and> key \<le> seg_max_key s \<and> imr_lsm_bloom_may_contain s key"
    using s(1) by (auto simp: seg_ok_def)
qed

lemma lookup_segment_ok:
  assumes "live_seg_ok s" "hit_inv X hit" "lookup_segment now level key s (has, fb, hit, f) = (s', has', fb', hit', f')"
  shows "seg_core s' = seg_core s \<and> has' = (has \<or> seg_level s = level) \<and> fb' = fb \<and>
    hit_inv ((if seg_level s = level then set (segment_records key s) else {}) \<union> X) hit'"
proof (cases "seg_level s = level \<and> \<not> retired s")
  case False
  then have "(s', has', fb', hit') = (s, has \<or> seg_level s = level, fb, hit)"
    using assms(3) by (auto simp: lookup_segment_def split: if_splits)
  moreover have "(if seg_level s = level then set (segment_records key s) else {}) = {}"
    using False by (simp add: segment_records_def)
  ultimately show ?thesis using assms(2) by simp
next
  case True
  note r = segment_records_hit [OF assms(1) conjunct2 [OF True]]
  have ne: "seg_block_table s \<noteq> []" using assms(1) True by (simp add: live_seg_ok_def seg_ok_def)
  show ?thesis
  proof (cases "imr_lsm_segment_block_table_find s key")
    case None
    then have "s' = s \<and> has' \<and> fb' = fb \<and> hit' = hit"
      using assms(3) True ne by (auto simp: lookup_segment_def Let_def split: if_splits)
    then show ?thesis using r(1) [of key] None True assms(2) by simp
  next
    case (Some e)
    have "s' = s\<lparr>read_hit_count := read_hit_count s + 1, last_read_timestamp := now\<rparr> \<and> has' \<and> fb' = fb \<and> hit' = newer_entry hit e"
      using assms(3) True ne Some r(2) [OF Some] by (auto simp: lookup_segment_def Let_def)
    then show ?thesis using r(1) [of key] Some True newer_entry_inv [OF assms(2), of e] by (simp add: seg_core_def)
  qed
qed

lemma lookup_segments_ok:
  assumes "\<forall>s \<in> set ss. live_seg_ok s" "hit_inv X hit"
    "lookup_segments now level key ss (has, fb, hit, f) = (ss', has', fb', hit', f')"
  shows "map seg_core ss' = map seg_core ss \<and> has' = (has \<or> (\<exists>s \<in> set ss. seg_level s = level)) \<and> fb' = fb \<and>
    hit_inv (level_versions level key ss \<union> X) hit'"
  using assms
proof (induction ss arbitrary: has fb hit f X ss' has' fb' hit' f')
  case Nil
  then show ?case by (simp add: level_versions_def)
next
  case (Cons s ss)
  obtain s1 has1 fb1 hit1 f1 where 1: "lookup_segment now level key s (has, fb, hit, f) = (s1, has1, fb1, hit1, f1)"
    by (metis prod_cases5)
  obtain ss2 has2 fb2 hit2 f2 where 2: "lookup_segments now level key ss (has1, fb1, hit1, f1) = (ss2, has2, fb2, hit2, f2)"
    by (metis prod_cases5)
  have r: "ss' = s1 # ss2" "has' = has2" "fb' = fb2" "hit' = hit2" using Cons.prems(3) by (simp_all add: 1 2)
  have s: "seg_core s1 = seg_core s \<and> has1 = (has \<or> seg_level s = level) \<and> fb1 = fb \<and>
    hit_inv ((if seg_level s = level then set (segment_records key s) else {}) \<union> X) hit1"
    using Cons.prems(1) by (intro lookup_segment_ok [OF _ Cons.prems(2) 1]) simp
  then have "map seg_core ss2 = map seg_core ss \<and> has2 = (has1 \<or> (\<exists>s \<in> set ss. seg_level s = level)) \<and> fb2 = fb1 \<and>
    hit_inv (level_versions level key ss \<union> ((if seg_level s = level then set (segment_records key s) else {}) \<union> X)) hit2"
    using Cons.prems(1) by (intro Cons.IH [OF _ _ 2]) simp_all
  then show ?case using s by (simp add: r level_versions_Cons Un_ac disj_ac)
qed

lemma read_inv_dominated:
  assumes "read_inv X st" "X \<subseteq> Y" "\<forall>y \<in> Y. \<exists>x \<in> X. fst y \<le> fst x"
  shows "read_inv Y st"
proof (cases "X = {}")
  case True
  then have "Y = X" using assms(3) by blast
  then show ?thesis using assms(1) by simp
next
  case False
  then have "is_newest Y v" if "is_newest X v" for v
    using that assms(2,3) by (meson is_newest_def le_trans subsetD)
  moreover have "Y \<noteq> {}" using False assms(2) by auto
  ultimately show ?thesis using assms(1) False by (auto simp: read_inv_def split: prod.splits)
qed

lemma note_hit_inv:
  assumes "read_inv X st" "hit_inv V hit" "\<forall>v \<in> V. 0 < fst v"
  shows "read_inv (X \<union> V) (case hit of None \<Rightarrow> st | Some e \<Rightarrow> note_record source (entry_version e) st)"
proof (cases hit)
  case None
  then show ?thesis using assms(1,2) by (simp add: hit_inv_def)
next
  case (Some e)
  then have e: "is_newest V (entry_version e)" using assms(2) by (simp add: hit_inv_def)
  then have "read_inv (insert (entry_version e) X) (note_record source (entry_version e) st)"
    using assms(1,3) by (intro note_record_inv) (auto simp: is_newest_def)
  then have "read_inv (X \<union> V) (note_record source (entry_version e) st)"
    by (rule read_inv_dominated) (use e in \<open>auto simp: is_newest_def\<close>)
  then show ?thesis using Some by simp
qed

lemma level_versions_cong:
  assumes "map seg_core xs = map seg_core ys"
  shows "level_versions level key xs = level_versions level key ys"
proof (rule set_eqI)
  fix v
  have "(\<exists>s \<in> set xs. seg_level s = level \<and> v \<in> set (segment_records key s)) =
      (\<exists>s \<in> set ys. seg_level s = level \<and> v \<in> set (segment_records key s))"
    by (rule ball_seg_cong(2) [OF map_seg_data_core [OF assms]]) (metis seg_data_cong(2,4))
  then show "v \<in> level_versions level key xs \<longleftrightarrow> v \<in> level_versions level key ys"
    by (auto simp: level_versions_def)
qed

lemma segment_versions_levels:
  assumes "\<forall>s \<in> set ss. live_seg_ok s"
  shows "(\<Union>s \<in> set ss. set (segment_records key s)) = (\<Union>l < IMR_LSM_LEVELS. level_versions l key ss)"
proof -
  have "seg_level s < IMR_LSM_LEVELS" if "s \<in> set ss" "v \<in> set (segment_records key s)" for s v
    using assms that by (auto simp: live_seg_ok_def segment_records_def split: if_splits)
  then show ?thesis unfolding level_versions_def by blast
qed

lemma consulted_set:
  assumes "store_ok m"
  shows "consulted key m = (\<Union>l < IMR_LSM_LEVELS. node_versions key (unsorted_nodes (levels m ! l))) \<union>
    (\<Union>l < IMR_LSM_LEVELS. level_versions l key (segments m))"
  using assms by (simp add: consulted_def store_ok_def segment_versions_levels)

lemma scan_set:
  assumes "store_ok m"
  shows "set (scan_records key m) =
    (\<Union>l < IMR_LSM_LEVELS. node_versions key (unsorted_nodes (levels m ! l)) \<union> node_versions key (sorted_nodes (levels m ! l)) \<union>
      level_versions l key (segments m))"
proof -
  have "\<forall>l < IMR_LSM_LEVELS. set (level_records key (levels m ! l)) =
      node_versions key (unsorted_nodes (levels m ! l)) \<union> node_versions key (sorted_nodes (levels m ! l))"
    using assms by (auto simp: store_ok_def level_records_set node_versions_def)
  moreover have "(\<exists>s \<in> set (segments m). v \<in> set (segment_records key s)) \<longleftrightarrow>
      (\<exists>l < IMR_LSM_LEVELS. v \<in> level_versions l key (segments m))" for v
    using segment_versions_levels [of "segments m" key] assms by (auto simp: store_ok_def)
  ultimately show ?thesis by (intro set_eqI) (auto simp: scan_records_set)
qed

lemma scan_bounds:
  assumes "store_ok m"
  shows "v \<in> set (scan_records key m) \<Longrightarrow> 0 < fst v" "v \<in> set (scan_records key m) \<Longrightarrow> fst v \<le> lsm_timestamp m"
    "versions_unique (set (scan_records key m))"
  using assms by (simp_all add: store_ok_def)

lemma note_nodes_inv:
  assumes "read_inv X st" "\<forall>v \<in> node_versions key ns. 0 < fst v"
  shows "read_inv (X \<union> node_versions key ns)
    (fold (\<lambda>n. if n_key n = key then note_record source (node_version n) else id) ns st)"
  using assms
proof (induction ns arbitrary: X st)
  case (Cons n ns)
  have split: "node_versions key (n # ns) = (if n_key n = key then {node_version n} else {}) \<union> node_versions key ns"
    by (auto simp: node_versions_def)
  show ?case
  proof (cases "n_key n = key")
    case True
    then have "read_inv (insert (node_version n) X) (note_record source (node_version n) st)"
      using Cons.prems by (intro note_record_inv) (auto simp: split)
    from Cons.IH [OF this] show ?thesis using True Cons.prems(2) by (simp add: split)
  next
    case False
    then show ?thesis using Cons.IH [OF Cons.prems(1)] Cons.prems(2) by (simp add: split)
  qed
qed (simp add: node_versions_def)

lemma read_unsorted_inv:
  assumes "store_ok m" "read_inv {} st"
  shows "read_inv (\<Union>l < IMR_LSM_LEVELS. node_versions key (unsorted_nodes (levels m ! l))) (read_unsorted key m st)"
proof -
  have pos: "\<forall>v \<in> node_versions key (unsorted_nodes (levels m ! l)). 0 < fst v" if "l < IMR_LSM_LEVELS" for l
    using that by (intro ballI scan_bounds(1) [OF assms(1)]) (auto simp: scan_set [OF assms(1)])
  have "read_inv (X \<union> (\<Union>l \<in> set ls. node_versions key (unsorted_nodes (levels m ! l))))
      (fold (\<lambda>level. fold (\<lambda>n. if n_key n = key then note_record IMR_LSM_READ_SOURCE_UNSORTED (node_version n) else id)
                        (unsorted_nodes (levels m ! level))) ls st)"
    if "read_inv X st" "set ls \<subseteq> {..<IMR_LSM_LEVELS}" for X st ls
    using that
  proof (induction ls arbitrary: X st)
    case (Cons l ls)
    note note_nodes_inv [OF Cons.prems(1) pos, of l IMR_LSM_READ_SOURCE_UNSORTED]
    from Cons.IH [OF this] show ?case using Cons.prems(2) by (simp add: Un_ac)
  qed simp
  from this [OF assms(2), of "[0..<IMR_LSM_LEVELS]"] show ?thesis
    by (simp add: read_unsorted_def atLeast0LessThan)
qed

lemma read_level_ok:
  assumes "store_ok m" "level < IMR_LSM_LEVELS" "read_inv X st" "read_level key level (st, f, m) = (st', f', m')"
  shows "\<exists>segs Y. m' = m\<lparr>segments := segs\<rparr> \<and> map seg_core segs = map seg_core (segments m) \<and> read_inv Y st' \<and>
    X \<union> level_versions level key (segments m) \<subseteq> Y \<and> Y \<subseteq> X \<union> set (scan_records key m)"
proof -
  obtain segs has fb hit f1 where
    l: "lookup_segments (lsm_timestamp m) level key (segments m) (False, False, None, f) = (segs, has, fb, hit, f1)"
    by (metis prod_cases5)
  have live: "\<forall>s \<in> set (segments m). live_seg_ok s" using assms(1) by (simp add: store_ok_def)
  note lk = lookup_segments_ok [OF live _ l, of "{}"]
  then have sg: "map seg_core segs = map seg_core (segments m)" and
    hit: "hit_inv (level_versions level key (segments m)) hit" by (simp_all add: hit_inv_def)
  let ?V = "level_versions level key (segments m)" and ?N = "node_versions key (sorted_nodes (levels m ! level))"
  have sub: "?V \<subseteq> set (scan_records key m)" "?N \<subseteq> set (scan_records key m)"
    using assms(2) by (auto simp: scan_set [OF assms(1)])
  define st1 where "st1 = (case hit of None \<Rightarrow> st | Some e \<Rightarrow> note_record IMR_LSM_READ_SOURCE_SEGMENT (entry_version e) st)"
  have st1: "read_inv (X \<union> ?V) st1"
    unfolding st1_def using sub(1) scan_bounds(1) [OF assms(1)] by (intro note_hit_inv [OF assms(3) hit]) blast
  have m': "m' = m\<lparr>segments := segs\<rparr>" and
    st': "st' = st1 \<or> (\<exists>n. sorted_find key (sorted_nodes (levels m ! level)) = Some n \<and> st' = note_record IMR_LSM_READ_SOURCE_SORTED (node_version n) st1)"
    using assms(4) by (auto simp: read_level_def imr_lsm_segment_lookup_level_locked_def l Let_def st1_def [symmetric]
        split: if_splits option.splits)
  have so: "sorted_ok (sorted_nodes (levels m ! level))" using assms(1,2) by (simp add: store_ok_def level_ok_def)
  have "\<exists>Y. read_inv Y st' \<and> X \<union> ?V \<subseteq> Y \<and> Y \<subseteq> X \<union> set (scan_records key m)"
    using st'
  proof
    assume "st' = st1"
    then show ?thesis using st1 sub(1) by blast
  next
    assume "\<exists>n. sorted_find key (sorted_nodes (levels m ! level)) = Some n \<and> st' = note_record IMR_LSM_READ_SOURCE_SORTED (node_version n) st1"
    then obtain n where n: "sorted_find key (sorted_nodes (levels m ! level)) = Some n"
      "st' = note_record IMR_LSM_READ_SOURCE_SORTED (node_version n) st1" by blast
    then have "node_version n \<in> ?N" using sorted_find_iff [OF so, of key n] by (simp add: node_versions_def)
    then have v: "node_version n \<in> set (scan_records key m)" using sub(2) by blast
    have "read_inv (insert (node_version n) (X \<union> ?V)) st'"
      unfolding n(2) by (rule note_record_inv [OF st1 scan_bounds(1) [OF assms(1) v]])
    then show ?thesis using v sub(1) by blast
  qed
  then show ?thesis using m' sg by blast
qed

lemma store_eq_segs:
  "map seg_core segs = map seg_core (segments m) \<Longrightarrow> store_eq (m\<lparr>segments := segs\<rparr>) m"
  using map_seg_data_core [of segs "segments m"] by (simp add: store_eq_def)

lemma read_levels_ok:
  assumes "store_ok m" "set ls \<subseteq> {..<IMR_LSM_LEVELS}" "read_inv X st" "fold (read_level key) ls (st, f, m) = (st', f', m')"
  shows "\<exists>segs Y. m' = m\<lparr>segments := segs\<rparr> \<and> map seg_core segs = map seg_core (segments m) \<and> read_inv Y st' \<and>
    X \<union> (\<Union>l \<in> set ls. level_versions l key (segments m)) \<subseteq> Y \<and> Y \<subseteq> X \<union> set (scan_records key m)"
  using assms
proof (induction ls arbitrary: m X st f)
  case Nil
  then have "m' = m\<lparr>segments := segments m\<rparr>" "st' = st" by simp_all
  then show ?case using Nil.prems(3) by (intro exI [of _ "segments m"] exI [of _ X]) simp
next
  case (Cons l ls)
  obtain st1 f1 m1 where 1: "read_level key l (st, f, m) = (st1, f1, m1)" by (metis prod_cases3)
  obtain segs1 Y1 where Y1: "m1 = m\<lparr>segments := segs1\<rparr>" "map seg_core segs1 = map seg_core (segments m)" "read_inv Y1 st1"
    "X \<union> level_versions l key (segments m) \<subseteq> Y1" "Y1 \<subseteq> X \<union> set (scan_records key m)"
    using read_level_ok [OF Cons.prems(1) _ Cons.prems(3) 1] Cons.prems(2) by auto
  have e: "store_eq m1 m" unfolding Y1(1) by (rule store_eq_segs [OF Y1(2)])
  have "store_ok m1" using Cons.prems(1) by (simp add: store_eq_ok [OF e])
  moreover have "fold (read_level key) ls (st1, f1, m1) = (st', f', m')" using Cons.prems(4) by (simp add: 1)
  moreover have "set ls \<subseteq> {..<IMR_LSM_LEVELS}" using Cons.prems(2) by simp
  ultimately obtain segs Y where Y: "m' = m1\<lparr>segments := segs\<rparr>" "map seg_core segs = map seg_core (segments m1)" "read_inv Y st'"
    "Y1 \<union> (\<Union>l \<in> set ls. level_versions l key (segments m1)) \<subseteq> Y" "Y \<subseteq> Y1 \<union> set (scan_records key m1)"
    using Cons.IH [OF _ _ Y1(3), of m1 f1] by blast
  have "m' = m\<lparr>segments := segs\<rparr>" "map seg_core segs = map seg_core (segments m)" using Y(1,2) Y1(1,2) by simp_all
  moreover have "level_versions l key (segments m1) = level_versions l key (segments m)" for l
    using Y1(1,2) by (intro level_versions_cong) simp
  then have "X \<union> (\<Union>l \<in> set (l # ls). level_versions l key (segments m)) \<subseteq> Y" using Y(4) Y1(4) by auto
  moreover have "Y \<subseteq> X \<union> set (scan_records key m)" using Y(5) Y1(5) store_eq_records [OF e, of key] by auto
  ultimately show ?case using Y(3) by blast
qed

text \<open>All records have been accounted for once every level has been looked up: what the sorted lists
  hold is covered by the segments.\<close>

lemma read_scan_ok:
  assumes "store_ok m" "fold (read_level key) [0..<IMR_LSM_LEVELS]
      (read_unsorted key m (IMR_LSM_LOOKUP_MISS, 0, False, IMR_LSM_READ_SOURCE_NONE, 0), f, m) = (st', f', m')"
  shows "\<exists>segs. m' = m\<lparr>segments := segs\<rparr> \<and> map seg_core segs = map seg_core (segments m) \<and>
    read_inv (set (scan_records key m)) st'"
proof -
  let ?U = "\<Union>l < IMR_LSM_LEVELS. node_versions key (unsorted_nodes (levels m ! l))"
  let ?V = "\<Union>l < IMR_LSM_LEVELS. level_versions l key (segments m)"
  have "read_inv {} (IMR_LSM_LOOKUP_MISS, 0, False, IMR_LSM_READ_SOURCE_NONE, 0)" by (simp add: read_inv_def)
  note read_levels_ok [OF assms(1) _ read_unsorted_inv [OF assms(1) this] assms(2)]
  then obtain segs Y where Y: "m' = m\<lparr>segments := segs\<rparr>" "map seg_core segs = map seg_core (segments m)" "read_inv Y st'"
    "?U \<union> ?V \<subseteq> Y" "Y \<subseteq> ?U \<union> set (scan_records key m)" by (auto simp: atLeast0LessThan)
  have "\<exists>x \<in> Y. fst y \<le> fst x" if y: "y \<in> set (scan_records key m)" for y
  proof (cases "y \<in> ?U \<union> ?V")
    case True
    then show ?thesis using Y(4) by blast
  next
    case False
    then obtain l n where n: "l < IMR_LSM_LEVELS" "n \<in> set (sorted_nodes (levels m ! l))" "n_key n = key" "y = node_version n"
      using y by (auto simp: scan_set [OF assms(1)] node_versions_def)
    then obtain v where v: "v \<in> consulted key m" "n_timestamp n \<le> fst v"
      using assms(1) unfolding store_ok_def covered_def by blast
    then have "v \<in> ?U \<union> ?V" using consulted_set [OF assms(1)] by simp
    moreover have "fst y \<le> fst v" using n(4) v(2) by (simp add: node_version_def)
    ultimately have "\<exists>v \<in> ?U \<union> ?V. fst y \<le> fst v" by blast
    then show ?thesis using Y(4) by blast
  qed
  moreover have "Y \<subseteq> set (scan_records key m)" using Y(5) by (auto simp: scan_set [OF assms(1)])
  ultimately show ?thesis using Y(1-3) read_inv_dominated by blast
qed

lemma read_inv_newest:
  assumes "store_ok m" "read_inv (set (scan_records key m)) (r, t, v, src, p)"
  shows "case newest m key of None \<Rightarrow> r = IMR_LSM_LOOKUP_MISS
    | Some w \<Rightarrow> w = (t, p, v) \<and> r = (if v then IMR_LSM_LOOKUP_VALID else IMR_LSM_LOOKUP_DELETED)"
proof (cases "scan_records key m = []")
  case True
  then show ?thesis using assms(2) newest_None [of m key] by (simp add: read_inv_def)
next
  case False
  then have "is_newest (set (scan_records key m)) (t, p, v)" and r: "r = (if v then IMR_LSM_LOOKUP_VALID else IMR_LSM_LOOKUP_DELETED)"
    using assms(2) by (simp_all add: read_inv_def)
  then have "newest m key = Some (t, p, v)" using newest_iff [OF scan_bounds(3) [OF assms(1)]] by simp
  then show ?thesis using r by simp
qed

text \<open>States that agree on everything reads depend on.\<close>

definition lsm_same :: "imr_lsm_metadata \<Rightarrow> imr_lsm_metadata \<Rightarrow> bool" where
  "lsm_same m' m \<longleftrightarrow> store_eq m' m \<and> read_lru m' = read_lru m \<and> read_tree_size m' = read_tree_size m \<and>
     read_tree_limit m' = read_tree_limit m \<and> initialized m' = initialized m"

lemma lsm_same_newest: "lsm_same m' m \<Longrightarrow> newest m' = newest m"
  by (simp add: lsm_same_def store_eq_newest)

lemma lsm_same_ok: "lsm_same m' m \<Longrightarrow> lsm_ok m' = lsm_ok m"
  unfolding lsm_ok_def using store_eq_ok [of m' m] store_eq_newest [of m' m] cache_ok_cong [of m' m] cached_cong [of m' m]
  by (simp add: lsm_same_def)

lemma lsm_same_init: "lsm_same m' m \<Longrightarrow> initialized m' = initialized m"
  by (simp add: lsm_same_def)

lemma lsm_same_trans [trans]: "lsm_same a b \<Longrightarrow> lsm_same b c \<Longrightarrow> lsm_same a c"
  by (auto simp: lsm_same_def intro: store_eq_trans)

lemma lsm_same_refl [simp]: "lsm_same m m"
  by (simp add: lsm_same_def)

lemma lsm_same_idx: "idx_core m' = idx_core m \<Longrightarrow> lsm_same m' m"
  unfolding lsm_same_def by (intro conjI store_eq_idx idx_coreD(4-7))

lemma lsm_same_fields:
  "levels m' = levels m \<Longrightarrow> segments m' = segments m \<Longrightarrow> lsm_timestamp m' = lsm_timestamp m \<Longrightarrow>
   read_lru m' = read_lru m \<Longrightarrow> read_tree_size m' = read_tree_size m \<Longrightarrow> read_tree_limit m' = read_tree_limit m \<Longrightarrow>
   initialized m' = initialized m \<Longrightarrow> lsm_same m' m"
  by (simp add: lsm_same_def store_eq_def)

lemma lsm_same_stat [simp]:
  "lsm_same (stat_add f i m) m" "lsm_same (stat_sets xs m) m" "lsm_same (stat_adds xs m) m" "lsm_same (m\<lparr>kmem := mem\<rparr>) m"
  using stat_sets_only [of xs m] stat_adds_only [of xs m] by (auto simp: lsm_same_def store_eq_def stat_add_def)

lemma lsm_same_filter [simp]: "lsm_same (record_filter_stats key f m) m"
  unfolding record_filter_stats_def by (rule lsm_same_trans [OF lsm_same_stat(2) lsm_same_stat(3)])

lemma lsm_ok_cacheI:
  assumes "lsm_ok m" "store_eq m' m" "cache_ok m'" "\<And>k v. cached m' k = Some v \<Longrightarrow> newest m k = Some v"
  shows "lsm_ok m' \<and> newest m' = newest m"
  using assms by (auto simp: lsm_ok_def store_eq_ok store_eq_newest)

text \<open>The outcome a client sees of a newest version, and of a key.\<close>

definition answer :: "version option \<Rightarrow> imr_lsm_lookup_result \<times> nat option" where
  "answer v = (case v of None \<Rightarrow> (IMR_LSM_LOOKUP_MISS, None)
     | Some (timestamp, pba, valid) \<Rightarrow> if valid then (IMR_LSM_LOOKUP_VALID, Some pba) else (IMR_LSM_LOOKUP_DELETED, None))"

lemma read_update_ok:
  assumes "lsm_ok m" "newest m key = Some (t, p, v)"
  shows "lsm_ok (imr_lsm_tree_update_locked key p v t m) \<and> newest (imr_lsm_tree_update_locked key p v t m) = newest m"
proof -
  have c: "cache_ok m" and n: "\<And>k w. cached m k = Some w \<Longrightarrow> newest m k = Some w" using assms(1) by (auto simp: lsm_ok_def)
  note u = tree_update_ok [OF c refl, of key p v t]
  show ?thesis by (intro lsm_ok_cacheI [OF assms(1) store_eq_cache u(1)] cache_ops_core) (use u(2) n assms(2) in blast)
qed

definition read_result_ok :: "nat \<Rightarrow> imr_lsm_metadata \<Rightarrow> imr_lsm_lookup_result \<times> nat option \<times> imr_lsm_metadata \<Rightarrow> bool" where
  "read_result_ok key m x = (case x of (r, p, m') \<Rightarrow>
     (r, p) = answer (newest m key) \<and> newest m' = newest m \<and> lsm_ok m' \<and> initialized m' = initialized m)"

lemma read_hit_ok:
  assumes "lsm_ok m" "cached m key = Some (t, p, v)" "imr_lsm_tree_lookup_locked key m = (r, p', t', m1)" "lsm_same m' m1"
  shows "read_result_ok key m (r, p', m')"
proof -
  have c: "cache_ok m" and n: "\<And>k w. cached m k = Some w \<Longrightarrow> newest m k = Some w" using assms(1) by (auto simp: lsm_ok_def)
  have m1: "m1 = snd (snd (snd (imr_lsm_tree_lookup_locked key m)))" using assms(3) by simp
  then have core: "cache_core m1 = cache_core m" by simp
  have "lsm_ok m1 \<and> newest m1 = newest m"
    using tree_lookup_ok [OF c m1] n by (intro lsm_ok_cacheI [OF assms(1) store_eq_cache [OF core]]) simp_all
  moreover have "(r, p') = answer (newest m key)" using tree_lookup_result [OF assms(3)] n [OF assms(2)] assms(2)
    by (simp add: answer_def)
  ultimately show ?thesis
    using lsm_same_ok [OF assms(4)] lsm_same_newest [OF assms(4)] lsm_same_init [OF assms(4)] cache_coreD(7) [OF core]
    by (simp add: read_result_ok_def)
qed

lemma read_finish_ok:
  assumes "lsm_ok m" "lsm_same m2 m" "read_inv (set (scan_records key m)) st"
  shows "read_result_ok key m (read_finish key (st, f, m2))"
proof -
  obtain r t v src p where st: "st = (r, t, v, src, p)" by (cases st) auto
  have so: "store_ok m" using assms(1) by (simp add: lsm_ok_def)
  note n = read_inv_newest [OF so assms(3) [unfolded st]]
  define m3 where "m3 = record_filter_stats key f m2"
  have s3: "lsm_same m3 m" unfolding m3_def by (rule lsm_same_trans [OF lsm_same_filter assms(2)])
  have ok3: "lsm_ok m3" and n3: "newest m3 = newest m" and i3: "initialized m3 = initialized m"
    using lsm_same_ok [OF s3] lsm_same_newest [OF s3] lsm_same_init [OF s3] assms(1) by simp_all
  show ?thesis
  proof (cases "newest m key")
    case None
    then have "r = IMR_LSM_LOOKUP_MISS" using n by simp
    moreover have "lsm_same (stat_inc ''read_miss_count'' m3) m" by (rule lsm_same_trans [OF lsm_same_stat(1) s3])
    ultimately show ?thesis using None lsm_same_ok lsm_same_newest lsm_same_init assms(1)
      by (auto simp: read_finish_def st m3_def [symmetric] read_result_ok_def answer_def)
  next
    case (Some w)
    then have w: "newest m key = Some (t, p, v)" and r: "r = (if v then IMR_LSM_LOOKUP_VALID else IMR_LSM_LOOKUP_DELETED)"
      using n by simp_all
    define m4 where "m4 = imr_lsm_tree_update_locked key p v t m3"
    have u: "lsm_ok m4" "newest m4 = newest m" "initialized m4 = initialized m"
      using read_update_ok [OF ok3, of key t p v] w n3 i3 cache_coreD(7) [OF cache_ops_core(4)] by (simp_all add: m4_def)
    have "lsm_ok (stat_inc x m4)" "newest (stat_inc x m4) = newest m" "initialized (stat_inc x m4) = initialized m" for x
      using u lsm_same_ok [OF lsm_same_stat(1), of x 1 m4] lsm_same_newest [OF lsm_same_stat(1), of x 1 m4]
        lsm_same_init [OF lsm_same_stat(1), of x 1 m4] by simp_all
    moreover obtain x where "read_finish key (st, f, m2) = (r, if v then Some p else None, stat_inc x m4)"
      using r by (cases v) (auto simp: read_finish_def st m3_def m4_def Let_def)
    ultimately show ?thesis using w r by (simp add: read_result_ok_def answer_def)
  qed
qed

lemma read_alt:
  assumes "initialized m0" "m = stat_inc ''read_lookup_count'' m0" "imr_lsm_tree_lookup_locked key m = (r, p, t, m1)"
  shows "imr_lsm_read key m0 =
    (case r of IMR_LSM_LOOKUP_VALID \<Rightarrow> (IMR_LSM_LOOKUP_VALID, p, stat_inc ''tree_hit_count'' m1)
     | IMR_LSM_LOOKUP_DELETED \<Rightarrow> (IMR_LSM_LOOKUP_DELETED, None, stat_inc ''tombstone_hit_count'' m1)
     | IMR_LSM_LOOKUP_MISS \<Rightarrow> read_finish key (fold (read_level key) [0..<IMR_LSM_LEVELS]
          (read_unsorted key m1 (IMR_LSM_LOOKUP_MISS, 0, False, IMR_LSM_READ_SOURCE_NONE, 0), zero_filter, m1)))"
proof -
  have "initialized m" using assms(1,2) by (simp add: stat_add_def)
  then show ?thesis
    unfolding imr_lsm_read_def assms(2) [symmetric] Let_def assms(3) prod.case
    by (simp only: if_False not_True_eq_False simp_thms)
qed

lemma read_ok:
  assumes "lsm_ok m0" "initialized m0"
  shows "read_result_ok key m0 (imr_lsm_read key m0)"
proof -
  define m where "m = stat_inc ''read_lookup_count'' m0"
  have s: "lsm_same m m0" by (simp add: m_def)
  have ok: "lsm_ok m" and n: "newest m = newest m0" and i: "initialized m = initialized m0"
    using lsm_same_ok [OF s] lsm_same_newest [OF s] lsm_same_init [OF s] assms(1) by simp_all
  obtain r p t m1 where l: "imr_lsm_tree_lookup_locked key m = (r, p, t, m1)" by (metis prod_cases4)
  note alt = read_alt [OF assms(2) m_def l]
  have "read_result_ok key m (imr_lsm_read key m0)"
  proof (cases "cached m key")
    case (Some w)
    obtain tw pw vw where w: "w = (tw, pw, vw)" by (cases w)
    have r: "(r, p) = (if vw then (IMR_LSM_LOOKUP_VALID, Some pw) else (IMR_LSM_LOOKUP_DELETED, None))"
      using tree_lookup_result [OF l] Some by (simp add: w)
    have "imr_lsm_read key m0 = (r, p, stat_inc (if vw then ''tree_hit_count'' else ''tombstone_hit_count'') m1)"
      unfolding alt using r by (cases vw) simp_all
    then show ?thesis using read_hit_ok [OF ok Some [unfolded w] l lsm_same_stat(1)] by simp
  next
    case None
    then have r: "r = IMR_LSM_LOOKUP_MISS" using tree_lookup_result [OF l] by simp
    have m1: "m1 = snd (snd (snd (imr_lsm_tree_lookup_locked key m)))" using l by simp
    have f: "imr_lsm_tree_find_node_locked key m = None" using None by (simp add: cached_def)
    have c: "cache_core m1 = cache_core m" using m1 by simp
    have s1: "lsm_same m1 m"
      using cache_coreD(1,2,3,6,7) [OF c] f m1 by (intro lsm_same_fields) (simp_all add: tree_lookup_lru)
    have ok1: "store_ok m1" using lsm_same_ok [OF s1] ok by (simp add: lsm_ok_def)
    obtain st f m2 where fold: "fold (read_level key) [0..<IMR_LSM_LEVELS]
          (read_unsorted key m1 (IMR_LSM_LOOKUP_MISS, 0, False, IMR_LSM_READ_SOURCE_NONE, 0), zero_filter, m1) = (st, f, m2)"
      by (metis prod_cases3)
    obtain segs where segs: "m2 = m1\<lparr>segments := segs\<rparr>" "map seg_core segs = map seg_core (segments m1)"
      "read_inv (set (scan_records key m1)) st" using read_scan_ok [OF ok1 fold] by blast
    have "lsm_same m2 m1" unfolding segs(1) using store_eq_segs [OF segs(2)] by (simp add: lsm_same_def)
    then have "lsm_same m2 m" by (rule lsm_same_trans [OF _ s1])
    moreover have "scan_records key m1 = scan_records key m" using s1 by (simp add: lsm_same_def store_eq_records)
    ultimately have "read_result_ok key m (read_finish key (st, f, m2))" using segs(3) by (intro read_finish_ok [OF ok]) simp_all
    then show ?thesis unfolding alt r fold by simp
  qed
  then show ?thesis using n i by (simp add: read_result_ok_def)
qed

section \<open>Appending updates one key\<close>

lemma newest_set_eq:
  assumes "store_ok m" "store_ok m'" "set (scan_records k m') = set (scan_records k m)"
  shows "newest m' k = newest m k"
proof (cases "newest m k")
  case None
  then have "scan_records k m = []" "scan_records k m' = []" using assms(3) by (simp_all add: newest_None)
  then show ?thesis by (simp add: newest_def)
next
  case (Some v)
  then have "is_newest (set (scan_records k m')) v" using assms(3) newest_iff [OF scan_bounds(3) [OF assms(1)]] by simp
  then have "newest m' k = Some v" using newest_iff [OF scan_bounds(3) [OF assms(2)]] by simp
  then show ?thesis using Some by simp
qed

lemma newest_insert:
  assumes "store_ok m'" "set (scan_records k m') = insert v (set (scan_records k m))"
    "\<forall>w \<in> set (scan_records k m). fst w \<le> fst v"
  shows "newest m' k = Some v"
  using assms newest_iff [OF scan_bounds(3) [OF assms(1)], of k v] by (simp add: is_newest_def)

text \<open>The state in which a node heads the unsorted list of its level.\<close>

definition pushed :: "nat \<Rightarrow> imr_lsm_node \<Rightarrow> imr_lsm_metadata \<Rightarrow> imr_lsm_metadata" where
  "pushed level node m = m\<lparr>lsm_timestamp := n_timestamp node,
     levels := (levels m)[level := (levels m ! level)\<lparr>unsorted_nodes := node # unsorted_nodes (levels m ! level),
                                                     unsorted_count := unsorted_count (levels m ! level) + 1\<rparr>]\<rparr>"

lemma pushed_records:
  assumes "level < IMR_LSM_LEVELS" "length (levels m) = IMR_LSM_LEVELS"
  shows "set (scan_records k (pushed level node m)) =
    (if n_key node = k then insert (node_version node) else id) (set (scan_records k m))"
proof (rule set_eqI)
  fix v
  have lr: "set (level_records k (levels (pushed level node m) ! l)) =
     (if l = level \<and> n_key node = k then insert (node_version node) else id) (set (level_records k (levels m ! l)))" for l
    using assms by (cases "l = level") (auto simp: pushed_def level_records_def)
  have sg: "segments (pushed level node m) = segments m" by (simp add: pushed_def)
  show "v \<in> set (scan_records k (pushed level node m)) \<longleftrightarrow>
      v \<in> (if n_key node = k then insert (node_version node) else id) (set (scan_records k m))"
    unfolding scan_records_set lr sg using assms(1) by (auto simp: scan_records_set)
qed

lemma pushed_ok:
  assumes "store_ok m" "level < IMR_LSM_LEVELS" "n_timestamp node = lsm_timestamp m + 1"
  shows "store_ok (pushed level node m)"
    "newest (pushed level node m) = (newest m)(n_key node \<mapsto> node_version node)"
proof -
  let ?m = "pushed level node m"
  have len: "length (levels m) = IMR_LSM_LEVELS" using assms(1) by (simp add: store_ok_def)
  note rec = pushed_records [OF assms(2) len]
  have fields: "segments ?m = segments m" "lsm_timestamp ?m = lsm_timestamp m + 1" using assms(3) by (simp_all add: pushed_def)
  have ts: "fst w < fst (node_version node)" if "w \<in> set (scan_records k m)" for w k
    using scan_bounds(2) [OF assms(1) that] assms(3) by (simp add: node_version_def)
  have lv: "level_ok (levels ?m ! l)" if "l < IMR_LSM_LEVELS" for l
    using assms(1) that len by (cases "l = level") (auto simp: pushed_def store_ok_def level_ok_def)
  have so: "sorted_nodes (levels ?m ! l) = sorted_nodes (levels m ! l)" for l
    using assms(2) len by (cases "l = level") (simp_all add: pushed_def)
  have un: "set (unsorted_nodes (levels m ! l)) \<subseteq> set (unsorted_nodes (levels ?m ! l))" for l
    using assms(2) len by (cases "l = level") (auto simp: pushed_def)
  have "consulted k m \<subseteq> consulted k ?m" for k
    using un unfolding consulted_def node_versions_def fields(1) by blast
  then have cov: "covered ?m" using assms(1) unfolding store_ok_def covered_def so by blast
  have bak: "backed ?m" using assms(1) unfolding store_ok_def backed_def backed_seg_def so fields(1) by blast
  have uniq: "versions_unique (set (scan_records k ?m))" for k
  proof -
    have "versions_unique (insert (node_version node) (set (scan_records k m)))"
      using scan_bounds(3) [OF assms(1), of k] ts [of _ k] unfolding versions_unique_def by (metis insert_iff less_irrefl)
    then show ?thesis using scan_bounds(3) [OF assms(1), of k] by (simp add: rec)
  qed
  have bnd: "0 < fst v \<and> fst v \<le> lsm_timestamp m + 1" if "v \<in> set (scan_records k ?m)" for v k
    using that scan_bounds(1,2) [OF assms(1), of v k] assms(3) by (auto simp: rec node_version_def split: if_splits)
  show ok: "store_ok ?m" using lv cov bak uniq bnd assms(1) fields by (simp add: store_ok_def) (simp add: pushed_def)
  show "newest ?m = (newest m)(n_key node \<mapsto> node_version node)"
  proof
    fix k
    show "newest ?m k = ((newest m)(n_key node \<mapsto> node_version node)) k"
    proof (cases "n_key node = k")
      case True
      have "newest ?m k = Some (node_version node)"
        by (rule newest_insert [OF ok, of k _ m]) (use True ts [of _ k] in \<open>auto simp: rec intro: less_imp_le\<close>)
      then show ?thesis using True by simp
    next
      case False
      then show ?thesis using newest_set_eq [OF assms(1) ok, of k] rec [of k] by simp
    qed
  qed
qed

lemma lsm_same_calculate [simp]: "lsm_same (imr_lsm_calculate_dynamic_levels_locked c m) m"
  by (rule lsm_same_fields)
    (simp_all add: imr_lsm_calculate_dynamic_levels_locked_def Let_def split: prod.split)

lemma lsm_same_needed: "imr_lsm_level_compaction_needed_locked c m = (b, m') \<Longrightarrow> lsm_same m' m"
proof -
  let ?m1 = "imr_lsm_calculate_dynamic_levels_locked c m"
  assume "imr_lsm_level_compaction_needed_locked c m = (b, m')"
  then have "m' = ?m1 \<or> m' = imr_lsm_calculate_dynamic_levels_locked c ?m1"
    by (auto simp: imr_lsm_level_compaction_needed_locked_def imr_lsm_pick_compaction_level_locked_def Let_def
        split: if_splits prod.splits)
  then show ?thesis using lsm_same_trans [OF lsm_same_calculate lsm_same_calculate] lsm_same_calculate by blast
qed

lemma lsm_same_pending [simp]: "lsm_same (imr_lsm_mark_level_compaction_pending_locked c m) m"
proof -
  obtain b m1 where n: "imr_lsm_level_compaction_needed_locked c m = (b, m1)" by (cases "imr_lsm_level_compaction_needed_locked c m")
  have "lsm_same (m1\<lparr>level_compaction_pending := True\<rparr>) m1" by (rule lsm_same_fields) simp_all
  then have "lsm_same (stat_inc x (m1\<lparr>level_compaction_pending := True\<rparr>)) m1" for x
    by (rule lsm_same_trans [OF lsm_same_stat(1)])
  then have "lsm_same (imr_lsm_mark_level_compaction_pending_locked c m) m1"
    by (simp add: imr_lsm_mark_level_compaction_pending_locked_def n)
  then show ?thesis by (rule lsm_same_trans [OF _ lsm_same_needed [OF n]])
qed

lemma append_node_ok:
  assumes "lsm_ok m" "level < IMR_LSM_LEVELS"
    "imr_lsm_append_unsorted_node_locked c level key pba zone_idx valid m = (ret, m')"
  shows "lsm_ok m' \<and> initialized m' = initialized m \<and>
    (ret = 0 \<and> newest m' = (newest m)(key \<mapsto> (lsm_timestamp m + 1, pba, valid)) \<and> lsm_timestamp m' = lsm_timestamp m + 1 \<or>
     ret = K_ENOMEM \<and> newest m' = newest m \<and> lsm_timestamp m' = lsm_timestamp m)"
proof (cases "kalloc (kmem m)")
  case (Pair ok mem)
  let ?m0 = "m\<lparr>kmem := mem\<rparr>"
  have s0: "lsm_same ?m0 m" by simp
  show ?thesis
  proof (cases ok)
    case False
    then have "ret = K_ENOMEM" "m' = ?m0" using assms(3) Pair by (simp_all add: imr_lsm_append_unsorted_node_locked_def)
    then show ?thesis using lsm_same_ok [OF s0] lsm_same_newest [OF s0] assms(1) by simp
  next
    case True
    define node where "node = \<lparr>n_key = key, n_pba = pba, n_zone_idx = zone_idx, n_valid = valid, n_timestamp = lsm_timestamp m + 1\<rparr>"
    define m1 where "m1 = pushed level node ?m0"
    define m2 where "m2 = snd (imr_lsm_newest_index_update_locked key (lsm_timestamp m + 1) valid m1)"
    define m3 where "m3 = imr_lsm_tree_update_locked key pba valid (lsm_timestamp m + 1) m2"
    have r: "ret = 0" "m' = imr_lsm_mark_level_compaction_pending_locked c m3"
      using assms(3) Pair True
      by (simp_all add: imr_lsm_append_unsorted_node_locked_def Let_def m3_def m2_def m1_def pushed_def node_def)
    have so: "store_ok ?m0" and co: "cache_ok m" and cn: "\<And>k v. cached m k = Some v \<Longrightarrow> newest m k = Some v"
      using lsm_same_ok [OF s0] assms(1) by (auto simp: lsm_ok_def)
    have ts: "lsm_timestamp m1 = lsm_timestamp m + 1" by (simp add: m1_def pushed_def node_def)
    note pk = pushed_ok [OF so assms(2), of node, folded m1_def]
    have ok1: "store_ok m1" and n1: "newest m1 = (newest m)(key \<mapsto> (lsm_timestamp m + 1, pba, valid))"
      using pk lsm_same_newest [OF s0] by (simp_all add: node_def node_version_def)
    have s2: "lsm_same m2 m1" unfolding m2_def by (rule lsm_same_idx) simp
    have c2: "cache_ok m2" "cached m2 = cached m"
      using s2 co cache_ok_cong [of m2 m] cached_cong [of m2 m] by (simp_all add: lsm_same_def m1_def pushed_def)
    have e3: "store_eq m3 m1" using s2 store_eq_trans [OF store_eq_cache] unfolding m3_def by (simp add: lsm_same_def)
    have i3: "initialized m3 = initialized m" using cache_coreD(7) [OF cache_ops_core(4)] s2
      by (simp add: m3_def lsm_same_def m1_def pushed_def)
    have c3: "newest m1 k = Some v" if cv: "cached m3 k = Some v" for k v
    proof (cases "cached m key")
      case None
      then show ?thesis using tree_update_ok(2) [OF c2(1) m3_def cv] cn [of k v] c2(2) n1 by auto
    next
      case (Some w)
      then have "newest m key = Some w" by (rule cn)
      then have "w \<in> set (scan_records key m)" "store_ok m" using foldl_best [of None "scan_records key m"] assms(1)
        by (simp_all add: newest_def is_newest_def lsm_ok_def)
      then have "fst w \<le> lsm_timestamp m + 1" using scan_bounds(2) [of m w key] by simp
      then have "cached m3 key = Some (lsm_timestamp m + 1, pba, valid)"
        unfolding m3_def using Some c2 by (intro tree_update_hit) simp_all
      then show ?thesis using tree_update_ok(2) [OF c2(1) m3_def cv] cn [of k v] c2(2) n1 cv by auto
    qed
    have "lsm_ok m3 \<and> newest m3 = newest m1"
      using ok1 c3 tree_update_ok(1) [OF c2(1) m3_def] store_eq_ok [OF e3] store_eq_newest [OF e3] by (simp add: lsm_ok_def)
    moreover have s4: "lsm_same m' m3" unfolding r by simp
    moreover have "lsm_timestamp m' = lsm_timestamp m + 1" using s4 e3 ts by (simp add: lsm_same_def store_eq_def)
    ultimately show ?thesis using lsm_same_ok [OF s4] lsm_same_newest [OF s4] lsm_same_init [OF s4] r(1) n1 i3 by simp
  qed
qed

lemma initialize_ok:
  "lsm_ok (imr_lsm_initialize_metadata_locked m)" "newest (imr_lsm_initialize_metadata_locked m) = Map.empty"
  "initialized (imr_lsm_initialize_metadata_locked m)" "lsm_timestamp (imr_lsm_initialize_metadata_locked m) = 0"
proof -
  let ?m = "imr_lsm_initialize_metadata_locked m"
  obtain st where m: "?m = (imr_lsm_release_metadata_locked m)\<lparr>initialized := True, zone_compaction_auto_run := True,
          lsm_timestamp := 0, active_write_level := IMR_LSM_DEFAULT_UNSORTED_LEVEL,
          base_level := IMR_LSM_MAX_LEVEL, lowest_unnecessary_level := -1,
          zone_compaction_auto_pending_zone := IMR_LSM_ZONE_COMPACTION_NONE, stats := st\<rparr>"
    using stat_sets_only unfolding imr_lsm_initialize_metadata_locked_def by blast
  have f: "segments ?m = []" "levels ?m = replicate IMR_LSM_LEVELS zero_level" "read_lru ?m = []" "read_tree_size ?m = 0"
    unfolding m by (simp_all add: imr_lsm_release_metadata_locked_def Let_def imr_lsm_init_newest_index_locked_def
        imr_lsm_init_read_tree_locked_def zero_metadata_def)
  have rec: "scan_records k ?m = []" for k
    unfolding scan_records_def f(1,2) by (simp add: level_records_def zero_level_def sorted_find_def)
  show "newest ?m = Map.empty" by (rule ext) (simp add: newest_def rec)
  have "store_ok ?m" unfolding store_ok_def rec covered_def backed_def f(1,2)
    by (simp add: versions_unique_def level_ok_def zero_level_def sorted_ok_def)
  then show "lsm_ok ?m" by (simp add: lsm_ok_def cache_ok_def f cached_def imr_lsm_tree_find_node_locked_def)
  show "initialized ?m" "lsm_timestamp ?m = 0" unfolding m by simp_all
qed

section \<open>The operations refine a versioned map\<close>

text \<open>What a client knows of the state: the newest version of every key and the clock; an LSM that has
  not been initialised is empty, and is initialised by its first write.\<close>

definition contents :: "imr_lsm_metadata \<Rightarrow> nat \<Rightarrow> version option" where
  "contents m = (if initialized m then newest m else Map.empty)"

definition clock :: "imr_lsm_metadata \<Rightarrow> nat" where
  "clock m = (if initialized m then lsm_timestamp m else 0)"

definition lsm_inv :: "imr_lsm_metadata \<Rightarrow> bool" where
  "lsm_inv m \<longleftrightarrow> (initialized m \<longrightarrow> lsm_ok m)"

text \<open>The state an operation starts from, once it has ensured the initialisation.\<close>

lemma ensure_initialized:
  assumes "lsm_inv m" "m' = (if initialized m then m else imr_lsm_initialize_metadata_locked m)"
  shows "lsm_ok m'" "initialized m'" "newest m' = contents m" "lsm_timestamp m' = clock m"
  using assms initialize_ok [of m] by (auto simp: lsm_inv_def contents_def clock_def)

lemma lsm_same_timestamp: "lsm_same m' m \<Longrightarrow> lsm_timestamp m' = lsm_timestamp m"
  by (simp add: lsm_same_def store_eq_def)

lemmas lsm_same_simps = lsm_same_ok lsm_same_newest lsm_same_init lsm_same_timestamp

text \<open>The contract of an operation that writes one version of a key, or fails for want of memory.\<close>

definition writes :: "nat \<Rightarrow> nat \<Rightarrow> bool \<Rightarrow> imr_lsm_metadata \<Rightarrow> kret \<times> imr_lsm_metadata \<Rightarrow> bool" where
  "writes key pba valid m r = (case r of (ret, m') \<Rightarrow> lsm_ok m' \<and> initialized m' \<and>
     (ret = 0 \<and> contents m' = (contents m)(key \<mapsto> (clock m + 1, pba, valid)) \<and> clock m' = clock m + 1 \<or>
      ret = K_ENOMEM \<and> contents m' = contents m \<and> clock m' = clock m))"

lemma append_writes:
  assumes "lsm_ok m1" "initialized m1" "newest m1 = contents m" "lsm_timestamp m1 = clock m" "level < IMR_LSM_LEVELS"
  shows "writes key pba valid m
    (case imr_lsm_append_unsorted_node_locked c level key pba zone_idx valid m1 of (ret, m2) \<Rightarrow>
       (ret, if ret = 0 then stat_inc x m2 else m2))"
proof -
  obtain ret m2 where a: "imr_lsm_append_unsorted_node_locked c level key pba zone_idx valid m1 = (ret, m2)"
    by (cases "imr_lsm_append_unsorted_node_locked c level key pba zone_idx valid m1")
  show ?thesis
    using append_node_ok [OF assms(1,5) a] lsm_same_simps [OF lsm_same_stat(1), of x 1 m2] assms(2-4)
    by (auto simp: a writes_def contents_def clock_def)
qed

lemma unsorting_writes:
  assumes "lsm_inv m" "level < IMR_LSM_LEVELS"
  shows "writes key pba True m (imr_lsm_append_unsorting_node c level key pba zone_idx m)"
proof -
  define m0 where "m0 = (if initialized m then m else imr_lsm_initialize_metadata_locked m)"
  define m1 where "m1 = imr_lsm_calculate_dynamic_levels_locked c m0"
  have s: "lsm_same m1 m0" by (simp add: m1_def)
  note e = ensure_initialized [OF assms(1) m0_def]
  have "(if level = IMR_LSM_DEFAULT_UNSORTED_LEVEL then active_write_level m1 else level) < IMR_LSM_LEVELS"
    using assms(2) by (simp add: m1_def lsm_consts)
  then show ?thesis
    unfolding imr_lsm_append_unsorting_node_def m0_def [symmetric] m1_def [symmetric] Let_def
    using append_writes [of m1 m] e lsm_same_simps [OF s] assms(2) by simp
qed

lemma record_insert_writes:
  assumes "lsm_inv m"
  shows "writes (logical_lba div 2 ^ IMR_BLOCK_SIZE_SHIFT) physical_lba True m (imr_lsm_record_insert c zone_idx logical_lba physical_lba m)"
proof -
  define m0 where "m0 = (if initialized m then m else imr_lsm_initialize_metadata_locked m)"
  define m1 where "m1 = stat_inc ''lsm_record_insert_count'' m0"
  have s: "lsm_same m1 m0" by (simp add: m1_def)
  note e = ensure_initialized [OF assms m0_def]
  have "lsm_inv m1" "contents m1 = contents m" "clock m1 = clock m"
    using e lsm_same_simps [OF s] by (simp_all add: lsm_inv_def contents_def clock_def)
  then show ?thesis
    unfolding imr_lsm_record_insert_def imr_lsm_insert_def imr_lsm_unsorted_write_def m0_def [symmetric] m1_def [symmetric] Let_def
    using unsorting_writes [of m1 IMR_LSM_DEFAULT_UNSORTED_LEVEL] by (simp add: writes_def lsm_consts)
qed

lemma remove_ok:
  assumes "lsm_ok m"
  shows "lsm_ok (imr_lsm_tree_remove_locked key m) \<and> newest (imr_lsm_tree_remove_locked key m) = newest m"
proof -
  have c: "cache_ok m" and n: "\<And>k w. cached m k = Some w \<Longrightarrow> newest m k = Some w" using assms by (auto simp: lsm_ok_def)
  show ?thesis
    by (intro lsm_ok_cacheI [OF assms store_eq_cache] cache_ops_core tree_remove_ok(1) [OF c])
      (use n in \<open>auto simp: tree_remove_ok(2) [OF c] split: if_splits\<close>)
qed

lemma delete_writes:
  assumes "lsm_inv m"
  shows "writes key 0 False m (imr_lsm_delete_locked c key m)"
proof -
  define m0 where "m0 = (if initialized m then m else imr_lsm_initialize_metadata_locked m)"
  define m1 where "m1 = imr_lsm_calculate_dynamic_levels_locked c m0"
  define m2 where "m2 = imr_lsm_tree_remove_locked key m1"
  have s: "lsm_same m1 m0" by (simp add: m1_def)
  note e = ensure_initialized [OF assms m0_def]
  have ok1: "lsm_ok m1" using e lsm_same_simps [OF s] by simp
  have c: "cache_core m2 = cache_core m1" by (simp add: m2_def)
  have "lsm_ok m2" "newest m2 = contents m" "initialized m2" "lsm_timestamp m2 = clock m" "active_write_level m2 = 0"
    using remove_ok [OF ok1, of key] e lsm_same_simps [OF s] cache_coreD(3,7,8) [OF c] by (simp_all add: m2_def m1_def)
  then show ?thesis
    unfolding imr_lsm_delete_locked_def m0_def [symmetric] m1_def [symmetric] m2_def [symmetric] Let_def
    by (intro append_writes) (simp_all add: lsm_consts)
qed

text \<open>Writing fails only for want of memory.\<close>

lemma append_ret:
  "fst (imr_lsm_append_unsorted_node_locked c level key pba zone_idx valid m) = (if fst (kalloc (kmem m)) then 0 else K_ENOMEM)"
  by (simp add: imr_lsm_append_unsorted_node_locked_def Let_def split: prod.split bool.split)

lemma fst_case_pair: "fst (case x of (r, m) \<Rightarrow> (r, g r m)) = fst x"
  by (cases x) simp

lemma kmem_frame [simp]:
  "kmem (imr_lsm_initialize_metadata_locked m) = kmem m" "kmem (imr_lsm_calculate_dynamic_levels_locked c m) = kmem m"
proof -
  have st: "kmem (stat_sets xs m) = kmem m" for xs m using stat_sets_only [of xs m] by auto
  have "kmem (fold (\<lambda>level. imr_lsm_free_sorted_level_locked level \<circ> imr_lsm_free_unsorted_level_locked level) ls m) = kmem m" for ls
    by (rule fold_invariant) (simp add: imr_lsm_free_sorted_level_locked_def imr_lsm_free_unsorted_level_locked_def)
  then show "kmem (imr_lsm_initialize_metadata_locked m) = kmem m"
    by (simp add: imr_lsm_initialize_metadata_locked_def st imr_lsm_release_metadata_locked_def Let_def
        imr_lsm_init_newest_index_locked_def imr_lsm_init_read_tree_locked_def zero_metadata_def
        imr_lsm_free_newest_index_locked_def imr_lsm_clear_read_tree_locked_def imr_lsm_free_segments_locked_def)
  show "kmem (imr_lsm_calculate_dynamic_levels_locked c m) = kmem m"
    by (simp add: imr_lsm_calculate_dynamic_levels_locked_def Let_def split: prod.split)
qed

lemma record_insert_ret:
  "fst (imr_lsm_record_insert c zone_idx logical_lba physical_lba m) = (if fst (kalloc (kmem m)) then 0 else K_ENOMEM)"
  by (simp add: imr_lsm_record_insert_def imr_lsm_insert_def imr_lsm_unsorted_write_def imr_lsm_append_unsorting_node_def
      Let_def lsm_consts fst_case_pair append_ret)

lemma delete_ret:
  "fst (imr_lsm_delete_locked c key m) = (if fst (kalloc (kmem m)) then 0 else K_ENOMEM)"
proof -
  have k: "kmem (imr_lsm_tree_remove_locked key m) = kmem m" for m
    by (simp add: imr_lsm_tree_remove_locked_def imr_lsm_tree_remove_node_locked_def split: option.split)
  show ?thesis by (simp add: imr_lsm_delete_locked_def Let_def k fst_case_pair append_ret)
qed

text \<open>A concrete history: an LSM that records the write of one block.\<close>

definition demo_empty :: imr_lsm_metadata where
  "demo_empty = zero_metadata [] 0"

definition demo_lsm :: imr_lsm_metadata where
  "demo_lsm = snd (imr_lsm_record_insert imr_lsm_reset_validation_overrides_locked 0 80 4096 demo_empty)"

lemma demo_empty_inv: "lsm_inv demo_empty" "contents demo_empty = Map.empty" "clock demo_empty = 0"
  by (simp_all add: lsm_inv_def contents_def clock_def demo_empty_def zero_metadata_def)

lemma demo_memory: "fst (kalloc (kmem demo_empty))"
  by (simp add: demo_empty_def zero_metadata_def kalloc_def)

lemma demo_insert_ret: "fst (imr_lsm_record_insert imr_lsm_reset_validation_overrides_locked 0 80 4096 demo_empty) = 0"
  by (simp add: record_insert_ret demo_memory)

lemma demo_lsm_inv: "lsm_inv demo_lsm" "contents demo_lsm = [10 \<mapsto> (1, 4096, True)]" "clock demo_lsm = 1"
proof -
  obtain r m where i: "imr_lsm_record_insert imr_lsm_reset_validation_overrides_locked 0 80 4096 demo_empty = (r, m)"
    by (cases "imr_lsm_record_insert imr_lsm_reset_validation_overrides_locked 0 80 4096 demo_empty")
  have r: "r = 0" "m = demo_lsm" using demo_insert_ret i by (simp_all add: demo_lsm_def)
  show "lsm_inv demo_lsm" "contents demo_lsm = [10 \<mapsto> (1, 4096, True)]" "clock demo_lsm = 1"
    using record_insert_writes [OF demo_empty_inv(1), of 80 4096 imr_lsm_reset_validation_overrides_locked 0] i r demo_empty_inv(2,3)
    by (auto simp: writes_def lsm_inv_def IMR_BLOCK_SIZE_SHIFT_def)
qed

text \<open>C5. Read, after any history that keeps the invariant, returns exactly the newest version of the
  key over all levels, segments and the cache: its address when it is a value, \<open>DELETED\<close> for a
  tombstone, \<open>MISS\<close> when there is no record; and reading changes neither the contents nor the invariant.\<close>

theorem read_returns_newest:
  assumes "lsm_inv m" "imr_lsm_read key m = (result, pba, m')"
  shows "(result, pba) = answer (contents m key) \<and> contents m' = contents m \<and> lsm_inv m' \<and> initialized m' = initialized m"
proof (cases "initialized m")
  case True
  then show ?thesis using read_ok [of m key] assms by (simp add: lsm_inv_def contents_def read_result_ok_def)
next
  case False
  then have "result = IMR_LSM_LOOKUP_MISS" "pba = None" "initialized m' = initialized m"
    using assms(2) by (auto simp: imr_lsm_read_def stat_add_def)
  then show ?thesis using False by (simp add: contents_def answer_def lsm_inv_def)
qed

theorem read_returns_newest_witness:
  "lsm_inv demo_lsm \<and> (\<exists>m'. imr_lsm_read 10 demo_lsm = (IMR_LSM_LOOKUP_VALID, Some 4096, m')) \<and>
   (\<exists>m'. imr_lsm_read 11 demo_lsm = (IMR_LSM_LOOKUP_MISS, None, m'))"
proof -
  obtain r p m' where 1: "imr_lsm_read 10 demo_lsm = (r, p, m')" by (metis prod_cases3)
  obtain r2 p2 m2 where 2: "imr_lsm_read 11 demo_lsm = (r2, p2, m2)" by (metis prod_cases3)
  show ?thesis using read_returns_newest [OF demo_lsm_inv(1) 1] read_returns_newest [OF demo_lsm_inv(1) 2] 1 2
    by (simp add: demo_lsm_inv answer_def)
qed

text \<open>C6. Recording a write maps the key of the logical block to the physical address at a fresh
  timestamp, whatever the cache and the segments hold, or fails with \<open>-ENOMEM\<close> and changes nothing a
  reader sees; the invariant is kept either way.\<close>

theorem record_insert_refines:
  assumes "lsm_inv m" "imr_lsm_record_insert c zone_idx logical_lba physical_lba m = (ret, m')"
  shows "lsm_inv m' \<and>
    (ret = 0 \<and> contents m' = (contents m)(logical_lba div 8 \<mapsto> (clock m + 1, physical_lba, True)) \<and> clock m' = clock m + 1 \<or>
     ret = K_ENOMEM \<and> contents m' = contents m \<and> clock m' = clock m)"
  using record_insert_writes [OF assms(1), of logical_lba physical_lba c zone_idx] assms(2)
  by (auto simp: writes_def lsm_inv_def IMR_BLOCK_SIZE_SHIFT_def)

theorem record_insert_refines_witness:
  "lsm_inv demo_lsm \<and> contents (snd (imr_lsm_record_insert imr_lsm_reset_validation_overrides_locked 0 80 8192 demo_lsm)) 10 \<in>
     {Some (2, 8192, True), Some (1, 4096, True)}"
proof -
  obtain r m' where i: "imr_lsm_record_insert imr_lsm_reset_validation_overrides_locked 0 80 8192 demo_lsm = (r, m')"
    by (metis prod.exhaust)
  show ?thesis using record_insert_refines [OF demo_lsm_inv(1) i] by (auto simp: i demo_lsm_inv)
qed

text \<open>C16. Deleting a key makes a tombstone its newest version, also when the cache held the key, or
  fails with \<open>-ENOMEM\<close> and changes nothing a reader sees.\<close>

theorem delete_refines:
  assumes "lsm_inv m" "imr_lsm_delete_locked c key m = (ret, m')"
  shows "lsm_inv m' \<and>
    (ret = 0 \<and> contents m' = (contents m)(key \<mapsto> (clock m + 1, 0, False)) \<and> clock m' = clock m + 1 \<or>
     ret = K_ENOMEM \<and> contents m' = contents m \<and> clock m' = clock m)"
  using delete_writes [OF assms(1), of key c] assms(2) by (auto simp: writes_def lsm_inv_def)

theorem delete_refines_witness:
  "lsm_inv demo_empty \<and>
   contents (snd (imr_lsm_delete_locked imr_lsm_reset_validation_overrides_locked 10 demo_empty)) = [10 \<mapsto> (1, 0, False)]"
proof -
  obtain r m' where d: "imr_lsm_delete_locked imr_lsm_reset_validation_overrides_locked 10 demo_empty = (r, m')"
    by (metis prod.exhaust)
  have "r = 0" using delete_ret [of imr_lsm_reset_validation_overrides_locked 10 demo_empty]
    by (simp add: d demo_memory)
  then show ?thesis using delete_refines [OF demo_empty_inv(1) d] by (simp add: d demo_empty_inv)
qed

section \<open>The searches for the latest and for a newer record\<close>

lemma latest_fold:
  "\<forall>v \<in> set xs. 0 < fst v \<Longrightarrow>
   fold (\<lambda>(timestamp, pba, valid). imr_lsm_update_latest_record timestamp valid pba) xs (0, False, 0, False) =
     (case foldl best None xs of None \<Rightarrow> (0, False, 0, False) | Some (t, p, v) \<Rightarrow> (t, v, p, True))"
  by (induction xs rule: rev_induct)
    (auto simp: imr_lsm_update_latest_record_def best_simps split: option.splits)

lemma newer_fold:
  "fold (\<lambda>(ts, pba, valid) acc. if ts > timestamp then imr_lsm_update_newer_record ts valid acc else acc) xs (timestamp, False, False) =
     (case foldl best None xs of
        None \<Rightarrow> (timestamp, False, False)
      | Some (t, p, v) \<Rightarrow> if timestamp < t then (t, v, True) else (timestamp, False, False))"
  by (induction xs rule: rev_induct)
    (auto simp: imr_lsm_update_newer_record_def best_simps split: option.splits if_splits)

lemma find_newer_scan:
  "imr_lsm_find_newer_record_scan_locked key timestamp m =
     (case newest m key of
        None \<Rightarrow> (False, timestamp, False)
      | Some (t, p, v) \<Rightarrow> if timestamp < t then (True, t, v) else (False, timestamp, False))"
  unfolding imr_lsm_find_newer_record_scan_locked_def newer_fold newest_def by (auto split: option.splits)

text \<open>The newest index agrees with the records it indexes.\<close>

definition indexed :: "imr_lsm_metadata \<Rightarrow> nat \<Rightarrow> (nat \<times> bool) option" where
  "indexed m key = map_option (\<lambda>n. (nw_timestamp n, nw_valid n)) (imr_lsm_newest_index_find_locked key m)"

definition index_ok :: "imr_lsm_metadata \<Rightarrow> bool" where
  "index_ok m \<longleftrightarrow> (newest_index_valid m \<longrightarrow>
     (\<forall>key t v. indexed m key = Some (t, v) \<longrightarrow> (\<exists>pba. newest m key = Some (t, pba, v))))"

lemma index_okD: "index_ok m \<Longrightarrow> newest_index_valid m \<Longrightarrow> indexed m key = Some (t, v) \<Longrightarrow> \<exists>pba. newest m key = Some (t, pba, v)"
  unfolding index_ok_def by blast

lemma map_of_map_vals: "map_of (map (\<lambda>(k, n). (k, g k n)) t) key = map_option (g key) (map_of t key)"
  by (induction t) auto

lemma indexed_acct: "acct_core m' = acct_core m \<Longrightarrow> indexed m' = indexed m"
proof -
  assume a: "acct_core m' = acct_core m"
  have "indexed m key = map_of (map (\<lambda>(k, n). (k, nw_timestamp n, nw_valid n)) (newest_tree m)) key" for m key
    by (simp add: indexed_def imr_lsm_newest_index_find_locked_def map_of_map_vals)
  then show ?thesis using acct_coreD(12) [OF a] by (simp add: fun_eq_iff)
qed

lemma indexed_upd:
  "indexed (upd_newest key (\<lambda>n. n\<lparr>nw_timestamp := ts, nw_valid := valid\<rparr>) m) k =
     (if k = key then map_option (\<lambda>_. (ts, valid)) (indexed m k) else indexed m k)"
  by (simp add: indexed_def upd_newest_def imr_lsm_newest_index_find_locked_def map_of_map_vals option.map_comp comp_def)

lemma indexed_update:
  assumes "m' = snd (imr_lsm_newest_index_update_locked key ts valid m)"
    "\<forall>t v. newest_index_valid m \<longrightarrow> indexed m key = Some (t, v) \<longrightarrow> t \<le> ts"
  shows "newest_index_valid m' \<Longrightarrow> newest_index_valid m \<and> indexed m' = (indexed m)(key \<mapsto> (ts, valid))"
proof (cases "imr_lsm_newest_index_find_locked key m")
  case None
  then show "newest_index_valid m' \<Longrightarrow> ?thesis" using assms(1)
    by (auto simp: imr_lsm_newest_index_update_locked_def indexed_def imr_lsm_newest_index_find_locked_def fun_eq_iff
        split: prod.splits bool.splits)
next
  case (Some node)
  assume v': "newest_index_valid m'"
  let ?m1 = "if ts > nw_timestamp node \<and> newest_index_valid m then imr_lsm_incremental_supersede_locked key valid m else m"
  have c: "acct_core ?m1 = acct_core m" by simp
  have val: "newest_index_valid ?m1 = newest_index_valid m" by (rule acct_coreD(10) [OF c])
  have "newest_index_valid m"
    using v' assms(1) Some val by (simp add: imr_lsm_newest_index_update_locked_def upd_newest_def split: if_splits)
  moreover have "nw_timestamp node \<le> ts" using assms(2) Some calculation by (simp add: indexed_def)
  then have m': "m' = upd_newest key (\<lambda>n. n\<lparr>nw_timestamp := ts, nw_valid := valid\<rparr>) ?m1"
    using assms(1) Some by (simp add: imr_lsm_newest_index_update_locked_def)
  have "indexed ?m1 = indexed m" by (rule indexed_acct [OF c])
  moreover have "indexed m' k = (if k = key then map_option (\<lambda>_. (ts, valid)) (indexed ?m1 k) else indexed ?m1 k)" for k
    unfolding m' by (rule indexed_upd)
  moreover have "indexed m key \<noteq> None" using Some by (simp add: indexed_def)
  ultimately show ?thesis by (auto simp: fun_eq_iff)
qed

lemma pending_index [simp]:
  "newest_tree (imr_lsm_mark_level_compaction_pending_locked c m) = newest_tree m"
  "newest_index_valid (imr_lsm_mark_level_compaction_pending_locked c m) = newest_index_valid m"
proof -
  have c: "newest_tree (imr_lsm_calculate_dynamic_levels_locked c m) = newest_tree m"
    "newest_index_valid (imr_lsm_calculate_dynamic_levels_locked c m) = newest_index_valid m" for m
    by (simp_all add: imr_lsm_calculate_dynamic_levels_locked_def Let_def split: prod.split)
  obtain b m1 where n: "imr_lsm_level_compaction_needed_locked c m = (b, m1)" by (cases "imr_lsm_level_compaction_needed_locked c m")
  then have "newest_tree m1 = newest_tree m \<and> newest_index_valid m1 = newest_index_valid m"
    by (auto simp: imr_lsm_level_compaction_needed_locked_def imr_lsm_pick_compaction_level_locked_def Let_def c
        split: if_splits prod.splits)
  then show "newest_tree (imr_lsm_mark_level_compaction_pending_locked c m) = newest_tree m"
    "newest_index_valid (imr_lsm_mark_level_compaction_pending_locked c m) = newest_index_valid m"
    by (simp_all add: imr_lsm_mark_level_compaction_pending_locked_def n stat_add_def)
qed

lemma indexed_tree: "newest_tree m' = newest_tree m \<Longrightarrow> indexed m' = indexed m"
  by (rule ext) (simp add: indexed_def imr_lsm_newest_index_find_locked_def)

lemma append_index:
  assumes "imr_lsm_append_unsorted_node_locked c level key pba zone_idx valid m = (0, m')"
  obtains m1 where "indexed m1 = indexed m" "newest_index_valid m1 = newest_index_valid m"
    "indexed m' = indexed (snd (imr_lsm_newest_index_update_locked key (lsm_timestamp m + 1) valid m1))"
    "newest_index_valid m' = newest_index_valid (snd (imr_lsm_newest_index_update_locked key (lsm_timestamp m + 1) valid m1))"
proof -
  obtain ok mem where k: "kalloc (kmem m) = (ok, mem)" by (cases "kalloc (kmem m)")
  have ok: "ok" using assms k by (cases ok) (simp_all add: imr_lsm_append_unsorted_node_locked_def)
  define m1 where "m1 = pushed level \<lparr>n_key = key, n_pba = pba, n_zone_idx = zone_idx, n_valid = valid,
      n_timestamp = lsm_timestamp m + 1\<rparr> (m\<lparr>kmem := mem\<rparr>)"
  define m2 where "m2 = snd (imr_lsm_newest_index_update_locked key (lsm_timestamp m + 1) valid m1)"
  have m': "m' = imr_lsm_mark_level_compaction_pending_locked c (imr_lsm_tree_update_locked key pba valid (lsm_timestamp m + 1) m2)"
    using assms k ok by (simp add: imr_lsm_append_unsorted_node_locked_def Let_def m2_def m1_def pushed_def)
  have "newest_tree m1 = newest_tree m" "newest_index_valid m1 = newest_index_valid m" by (simp_all add: m1_def pushed_def)
  moreover have "newest_tree m' = newest_tree m2" "newest_index_valid m' = newest_index_valid m2"
    unfolding m' by (simp_all add: cache_coreD(4,5) [OF cache_ops_core(4)])
  ultimately show ?thesis
    using that [of m1] indexed_tree [of m1 m] indexed_tree [of m' m2] unfolding m2_def by blast
qed

lemma append_index_ok:
  assumes "lsm_ok m" "index_ok m" "level < IMR_LSM_LEVELS"
    "imr_lsm_append_unsorted_node_locked c level key pba zone_idx valid m = (0, m')"
  shows "index_ok m'"
proof -
  obtain m1 where m1: "indexed m1 = indexed m" "newest_index_valid m1 = newest_index_valid m"
    "indexed m' = indexed (snd (imr_lsm_newest_index_update_locked key (lsm_timestamp m + 1) valid m1))"
    "newest_index_valid m' = newest_index_valid (snd (imr_lsm_newest_index_update_locked key (lsm_timestamp m + 1) valid m1))"
    by (rule append_index [OF assms(4)])
  have n: "newest m' = (newest m)(key \<mapsto> (lsm_timestamp m + 1, pba, valid))"
    using append_node_ok [OF assms(1,3,4)] by simp
  have so: "store_ok m" using assms(1) by (simp add: lsm_ok_def)
  have "t \<le> lsm_timestamp m + 1" if ix: "newest_index_valid m1" "indexed m1 key = Some (t, v)" for t v
  proof -
    obtain p where "newest m key = Some (t, p, v)" using index_okD [OF assms(2)] ix m1(1,2) by metis
    then have "(t, p, v) \<in> set (scan_records key m)" using newest_iff [OF scan_bounds(3) [OF so]] by (simp add: is_newest_def)
    then show ?thesis using scan_bounds(2) [OF so] by fastforce
  qed
  then have "newest_index_valid m' \<longrightarrow> newest_index_valid m1 \<and> indexed m' = (indexed m1)(key \<mapsto> (lsm_timestamp m + 1, valid))"
    unfolding m1(3,4) by (intro impI indexed_update [OF refl]) blast+
  then show ?thesis using assms(2) n m1(1,2) by (auto simp: index_ok_def)
qed

lemma initialize_index: "newest_tree (imr_lsm_initialize_metadata_locked m) = []"
proof -
  have st: "newest_tree (stat_sets xs m) = newest_tree m" for xs m using stat_sets_only [of xs m] by auto
  show ?thesis
    by (simp add: imr_lsm_initialize_metadata_locked_def st imr_lsm_release_metadata_locked_def Let_def
        imr_lsm_init_newest_index_locked_def)
qed

text \<open>C23. The newest index stays exact when a version is written, so that the search for a newer
  record, which trusts it when it is valid and has the key, answers what a scan of every level and
  segment would: the newest version of the key, if that is newer than the given timestamp.\<close>

theorem find_newer_index_exact:
  assumes "lsm_ok m" "index_ok m" "level < IMR_LSM_LEVELS"
    "imr_lsm_append_unsorted_node_locked c level key pba zone_idx valid m = (0, m')"
  shows "index_ok m' \<and> imr_lsm_find_newer_record_locked k timestamp m' = imr_lsm_find_newer_record_scan_locked k timestamp m' \<and>
    imr_lsm_find_newer_record_locked k timestamp m' =
     (case newest m' k of
        None \<Rightarrow> (False, timestamp, False)
      | Some (t, p, v) \<Rightarrow> if timestamp < t then (True, t, v) else (False, timestamp, False))"
proof -
  have ok: "index_ok m'" by (rule append_index_ok [OF assms])
  have "imr_lsm_find_newer_record_locked k timestamp m' = imr_lsm_find_newer_record_scan_locked k timestamp m'"
  proof (cases "newest_index_valid m'")
    case True
    show ?thesis
    proof (cases "imr_lsm_newest_index_find_locked k m'")
      case (Some node)
      then obtain p where "newest m' k = Some (nw_timestamp node, p, nw_valid node)"
        using index_okD [OF ok True, of k] by (auto simp: indexed_def)
      then show ?thesis using Some True by (simp add: imr_lsm_find_newer_record_locked_def find_newer_scan)
    qed (simp add: imr_lsm_find_newer_record_locked_def)
  qed (simp add: imr_lsm_find_newer_record_locked_def)
  then show ?thesis using ok by (simp add: find_newer_scan)
qed

theorem find_newer_index_exact_witness:
  "let m = snd (imr_lsm_append_unsorted_node_locked imr_lsm_reset_validation_overrides_locked 0 10 4096 0 True
             (imr_lsm_initialize_metadata_locked demo_empty))
   in imr_lsm_find_newer_record_locked 10 0 m = (True, 1, True) \<and> imr_lsm_find_newer_record_locked 10 1 m = (False, 1, False)"
proof -
  let ?i = "imr_lsm_initialize_metadata_locked demo_empty"
  obtain r m where a: "imr_lsm_append_unsorted_node_locked imr_lsm_reset_validation_overrides_locked 0 10 4096 0 True ?i = (r, m)"
    by (metis prod.exhaust)
  have r: "r = 0" using append_ret [of imr_lsm_reset_validation_overrides_locked 0 10 4096 0 True ?i] a by (simp add: demo_memory)
  have ix: "index_ok ?i" unfolding index_ok_def indexed_def imr_lsm_newest_index_find_locked_def
    by (simp add: initialize_index)
  have lv: "0 < IMR_LSM_LEVELS" by (simp add: lsm_consts)
  have n: "newest m 10 = Some (1, 4096, True)"
    using append_node_ok [OF initialize_ok(1) lv a] r initialize_ok(2,4) [of demo_empty] by simp
  note f = conjunct2 [OF conjunct2 [OF find_newer_index_exact [OF initialize_ok(1) ix lv a [unfolded r]]]]
  show ?thesis using f [of 10 0] f [of 10 1] n by (simp add: a)
qed

end
