(* ===== verification/Imr_Compaction.thy ===== *)
theory Imr_Compaction
  imports Imr_Lsm
begin

text \<open>
  Level compaction, from \<open>dm-imrsim.c\<close>: the plan (\<open>imr_lsm_prepare_level_compaction_locked\<close>), its
  execution outside the locks (\<open>imr_lsm_build_level_compaction_plan\<close>), the validation and publication
  (\<open>imr_lsm_validate_level_compaction_plan_locked\<close>, \<open>imr_lsm_publish_level_compaction_locked\<close>), and the
  worker.  A pointer to a list node is the chain that starts there; a node is identified by its
  timestamp in an unsorted list, where every node has its own, and by its key in a sorted list.  The
  window between two critical sections is a function from states to states, for what the foreground
  does meanwhile.  The theorems show that a compaction that runs beside any sequence of foreground
  operations is never refused, and is invisible to readers.
\<close>

section \<open>The plan\<close>

record lsm_device =
  dev_active :: bool
  dev_zone_state :: bool
  dev_zone_status :: "imrsim_zone_status list option"
  dev_output_bdev :: "nat option"

definition imrsim_target_ready_locked :: "lsm_device \<Rightarrow> bool" where
  "imrsim_target_ready_locked d \<longleftrightarrow> dev_active d \<and> dev_zone_state d \<and> dev_zone_status d \<noteq> None"

record imr_lsm_level_compaction_plan =
  p_segment_builder :: imr_lsm_segment_builder
  p_source_unsorted_head :: "imr_lsm_node list"
  p_source_unsorted_tail :: "imr_lsm_node list"
  p_source_unsorted_after :: "imr_lsm_node list"
  p_source_sorted_head :: "imr_lsm_node list"
  p_destination_sorted_head :: "imr_lsm_node list"
  p_prepared_sorted_head :: "imr_lsm_node list"
  p_output_segment :: "imr_lsm_segment option"
  p_retired_unsorted_head :: "imr_lsm_node list"
  p_retired_source_sorted_head :: "imr_lsm_node list"
  p_discarded_prepared_sorted_head :: "imr_lsm_node list"
  p_source_level :: nat
  p_destination_level :: nat
  p_source_unsorted_count :: nat
  p_source_sorted_count :: nat
  p_destination_sorted_count :: nat
  p_prepared_sorted_count :: nat
  p_input_entries :: nat
  p_output_entries :: nat
  p_bloom_bits_per_key :: nat
  p_metadata_epoch :: nat
  p_output_bdev :: "nat option"
  p_move_sorted :: bool
  p_retire_source :: bool
  p_prepared :: bool
  p_published :: bool

definition zero_plan :: imr_lsm_level_compaction_plan where
  "zero_plan = \<lparr>p_segment_builder = zero_builder, p_source_unsorted_head = [], p_source_unsorted_tail = [],
     p_source_unsorted_after = [], p_source_sorted_head = [], p_destination_sorted_head = [],
     p_prepared_sorted_head = [], p_output_segment = None, p_retired_unsorted_head = [],
     p_retired_source_sorted_head = [], p_discarded_prepared_sorted_head = [], p_source_level = 0,
     p_destination_level = 0, p_source_unsorted_count = 0, p_source_sorted_count = 0,
     p_destination_sorted_count = 0, p_prepared_sorted_count = 0, p_input_entries = 0, p_output_entries = 0,
     p_bloom_bits_per_key = 0, p_metadata_epoch = 0, p_output_bdev = None, p_move_sorted = False,
     p_retire_source = False, p_prepared = False, p_published = False\<rparr>"

text \<open>The lists of the plan are freed; the plan is zeroed.\<close>

definition imr_lsm_level_compaction_plan_release :: "imr_lsm_level_compaction_plan \<Rightarrow> imr_lsm_level_compaction_plan" where
  "imr_lsm_level_compaction_plan_release plan = zero_plan"

definition imr_lsm_prepare_level_compaction_locked ::
  "imr_lsm_config \<Rightarrow> nat option \<Rightarrow> nat \<Rightarrow> nat \<Rightarrow> imr_lsm_metadata
    \<Rightarrow> kret \<times> imr_lsm_level_compaction_plan \<times> imr_lsm_metadata" where
  "imr_lsm_prepare_level_compaction_locked c bdev level max_unsorted m =
     (if level \<ge> IMR_LSM_LEVELS then (K_EINVAL, zero_plan, m)
      else
        let available_unsorted = unsorted_count (levels m ! level);
            (destination_level, m1) = imr_lsm_compaction_dst_level_locked c level m;
            source_unsorted_count = min available_unsorted max_unsorted;
            move_sorted = (source_unsorted_count = available_unsorted);
            retire_source = (destination_level \<noteq> level \<and> move_sorted);
            source_sorted_count = (if retire_source then sorted_count (levels m1 ! level) else 0);
            plan = zero_plan\<lparr>p_source_level := level, p_destination_level := destination_level,
                     p_source_unsorted_count := source_unsorted_count, p_move_sorted := move_sorted,
                     p_retire_source := retire_source, p_source_sorted_count := source_sorted_count\<rparr>
        in if source_unsorted_count = 0 \<and> source_sorted_count = 0 then (0, plan, m1)
           else
             let chain = unsorted_nodes (levels m1 ! level);
                 plan1 = plan\<lparr>p_source_unsorted_head := chain\<rparr>
             in if length chain < source_unsorted_count
                then (K_EUCLEAN, plan1\<lparr>p_source_unsorted_tail := drop (length chain - 1) chain\<rparr>, m1)
                else (0, plan1\<lparr>
                        p_source_unsorted_tail := (if source_unsorted_count = 0 then [] else drop (source_unsorted_count - 1) chain),
                        p_source_unsorted_after := drop source_unsorted_count chain,
                        p_source_sorted_head := (if retire_source then sorted_nodes (levels m1 ! level) else []),
                        p_destination_sorted_head := sorted_nodes (levels m1 ! destination_level),
                        p_destination_sorted_count := sorted_count (levels m1 ! destination_level),
                        p_input_entries := source_unsorted_count + source_sorted_count,
                        p_bloom_bits_per_key := imr_lsm_bloom_bits_per_key_locked c,
                        p_metadata_epoch := metadata_epoch m1, p_output_bdev := bdev, p_prepared := True\<rparr>, m1))"

section \<open>Building\<close>

definition entry_node :: "imr_lsm_block_entry \<Rightarrow> imr_lsm_node" where
  "entry_node e = \<lparr>n_key = be_key e, n_pba = be_pba e, n_zone_idx = be_zone_idx e, n_valid = be_valid e,
     n_timestamp = be_timestamp e\<rparr>"

fun build_nodes ::
  "imr_lsm_block_entry list \<Rightarrow> imr_lsm_level_compaction_plan \<Rightarrow> memory \<Rightarrow> kret \<times> imr_lsm_level_compaction_plan \<times> memory" where
  "build_nodes [] plan mem = (0, plan, mem)"
| "build_nodes (e # es) plan mem =
     (case kalloc mem of
        (False, mem') \<Rightarrow> (K_ENOMEM, plan, mem')
      | (True, mem') \<Rightarrow> build_nodes es (plan\<lparr>
          p_prepared_sorted_head := p_prepared_sorted_head plan @ [entry_node e],
          p_prepared_sorted_count := p_prepared_sorted_count plan + 1\<rparr>) mem')"

definition imr_lsm_build_prepared_sorted_nodes ::
  "imr_lsm_level_compaction_plan \<Rightarrow> memory \<Rightarrow> kret \<times> imr_lsm_level_compaction_plan \<times> memory" where
  "imr_lsm_build_prepared_sorted_nodes plan mem = build_nodes (bld_block_table (p_segment_builder plan)) plan mem"

text \<open>Adding the first nodes of a chain; the third result is where the walk stopped.\<close>

fun add_chain ::
  "nat \<Rightarrow> nat \<Rightarrow> imr_lsm_node list \<Rightarrow> imr_lsm_segment_builder \<Rightarrow> memory
    \<Rightarrow> kret \<times> imr_lsm_segment_builder \<times> imr_lsm_node list \<times> memory" where
  "add_chain threshold 0 chain builder mem = (0, builder, chain, mem)"
| "add_chain threshold (Suc n) [] builder mem = (K_EAGAIN, builder, [], mem)"
| "add_chain threshold (Suc n) (node # chain) builder mem =
     (case imr_lsm_segment_builder_add threshold node builder mem of (ret, builder', mem') \<Rightarrow>
        if ret \<noteq> 0 then (ret, builder', node # chain, mem') else add_chain threshold n chain builder' mem')"

text \<open>Pointer comparison of unsorted and of sorted nodes.\<close>

definition same_unsorted :: "imr_lsm_node list \<Rightarrow> imr_lsm_node list \<Rightarrow> bool" where
  "same_unsorted a b \<longleftrightarrow> map n_timestamp (take 1 a) = map n_timestamp (take 1 b)"

definition same_sorted :: "imr_lsm_node list \<Rightarrow> imr_lsm_node list \<Rightarrow> bool" where
  "same_sorted a b \<longleftrightarrow> map n_key (take 1 a) = map n_key (take 1 b)"

definition imr_lsm_build_level_compaction_plan ::
  "imr_lsm_config \<Rightarrow> imr_lsm_level_compaction_plan \<Rightarrow> memory \<Rightarrow> kret \<times> imr_lsm_level_compaction_plan \<times> memory" where
  "imr_lsm_build_level_compaction_plan c plan mem =
     (let threshold = imr_lsm_compaction_threshold_locked c
      in case add_chain threshold (p_source_unsorted_count plan) (p_source_unsorted_head plan) (p_segment_builder plan) mem of
           (ret, b1, unsorted_node, mem1) \<Rightarrow>
             if ret \<noteq> 0 then (ret, plan\<lparr>p_segment_builder := b1\<rparr>, mem1)
             else if \<not> same_unsorted unsorted_node (p_source_unsorted_after plan)
             then (K_EAGAIN, plan\<lparr>p_segment_builder := b1\<rparr>, mem1)
             else
               case add_chain threshold (p_source_sorted_count plan) (p_source_sorted_head plan) b1 mem1 of
                 (ret, b2, sorted_node, mem2) \<Rightarrow>
                   if ret \<noteq> 0 then (ret, plan\<lparr>p_segment_builder := b2\<rparr>, mem2)
                   else if sorted_node \<noteq> [] then (K_EAGAIN, plan\<lparr>p_segment_builder := b2\<rparr>, mem2)
                   else
                     case imr_lsm_build_prepared_sorted_nodes
                            (plan\<lparr>p_segment_builder := b2, p_output_entries := length (bld_block_table b2)\<rparr>) mem2 of
                       (ret, plan3, mem3) \<Rightarrow>
                         if ret \<noteq> 0 then (ret, plan3, mem3)
                         else
                           case imr_lsm_prepare_segment (p_destination_level plan3) IMR_LSM_TRACK_BOTTOM
                                  (p_segment_builder plan3) (p_bloom_bits_per_key plan3) mem3 of
                             (ret, segment, b4, mem4) \<Rightarrow>
                               (ret, plan3\<lparr>p_segment_builder := b4, p_output_segment := segment\<rparr>, mem4))"

section \<open>Validating\<close>

text \<open>On success the second result is the part of the list in front of \<open>*source_link\<close>.\<close>

definition imr_lsm_validate_level_compaction_plan_locked ::
  "lsm_device \<Rightarrow> imr_lsm_level_compaction_plan \<Rightarrow> imr_lsm_metadata \<Rightarrow> kret \<times> imr_lsm_node list" where
  "imr_lsm_validate_level_compaction_plan_locked d plan m =
     (if \<not> p_prepared plan \<or> p_published plan \<or> p_output_segment plan = None \<or> \<not> imrsim_target_ready_locked d \<or>
         \<not> initialized m \<or> metadata_epoch m \<noteq> p_metadata_epoch plan \<or> dev_output_bdev d \<noteq> p_output_bdev plan
      then (K_EAGAIN, [])
      else
        let source = levels m ! p_source_level plan;
            destination = levels m ! p_destination_level plan
        in if \<not> same_sorted (sorted_nodes destination) (p_destination_sorted_head plan) \<or>
              sorted_count destination \<noteq> p_destination_sorted_count plan
           then (K_EAGAIN, [])
           else if p_retire_source plan \<and>
              (\<not> same_sorted (sorted_nodes source) (p_source_sorted_head plan) \<or>
               sorted_count source \<noteq> p_source_sorted_count plan)
           then (K_EAGAIN, [])
           else if unsorted_count source < p_source_unsorted_count plan then (K_EAGAIN, [])
           else
             let before = takeWhile (\<lambda>n. \<not> same_unsorted [n] (p_source_unsorted_head plan)) (unsorted_nodes source);
                 link = drop (length before) (unsorted_nodes source);
                 count = p_source_unsorted_count plan
             in if count \<noteq> 0 \<and> link = [] then (K_EAGAIN, [])
                else if length link < count \<or>
                   (count \<noteq> 0 \<and> \<not> same_unsorted (drop (count - 1) link) (p_source_unsorted_tail plan))
                then (K_EAGAIN, [])
                else if \<not> same_unsorted (drop count link) (p_source_unsorted_after plan) then (K_EAGAIN, [])
                else (0, before))"

section \<open>Publishing\<close>

definition overwrite :: "imr_lsm_node \<Rightarrow> imr_lsm_node \<Rightarrow> imr_lsm_node" where
  "overwrite existing prepared =
     (if n_timestamp prepared > n_timestamp existing
      then existing\<lparr>n_pba := n_pba prepared, n_zone_idx := n_zone_idx prepared, n_valid := n_valid prepared,
             n_timestamp := n_timestamp prepared\<rparr>
      else existing)"

text \<open>The walk of \<open>link\<close> along the destination; the results are the list, the number of nodes linked in
  and the prepared nodes that were not, the last one first.\<close>

fun merge_prepared :: "imr_lsm_node list \<Rightarrow> imr_lsm_node list \<Rightarrow> imr_lsm_node list \<Rightarrow> imr_lsm_node list \<times> nat \<times> imr_lsm_node list" where
  "merge_prepared existing [] discarded = (existing, 0, discarded)"
| "merge_prepared [] (prepared # next) discarded =
     (case merge_prepared [] next discarded of (l, n, d) \<Rightarrow> (prepared # l, n + 1, d))"
| "merge_prepared (existing # rest) (prepared # next) discarded =
     (if n_key existing < n_key prepared
      then case merge_prepared rest (prepared # next) discarded of (l, n, d) \<Rightarrow> (existing # l, n, d)
      else if n_key existing = n_key prepared
      then case merge_prepared rest next (prepared # discarded) of (l, n, d) \<Rightarrow>
             (overwrite existing prepared # l, n, d)
      else case merge_prepared (existing # rest) next discarded of (l, n, d) \<Rightarrow> (prepared # l, n + 1, d))"

definition imr_lsm_merge_prepared_sorted_locked ::
  "imr_lsm_level_compaction_plan \<Rightarrow> imr_lsm_metadata \<Rightarrow> imr_lsm_level_compaction_plan \<times> imr_lsm_metadata" where
  "imr_lsm_merge_prepared_sorted_locked plan m =
     (let destination = levels m ! p_destination_level plan
      in case merge_prepared (sorted_nodes destination) (p_prepared_sorted_head plan) (p_discarded_prepared_sorted_head plan) of
           (l, n, d) \<Rightarrow>
             (plan\<lparr>p_prepared_sorted_head := [], p_discarded_prepared_sorted_head := d\<rparr>,
              m\<lparr>levels := (levels m)[p_destination_level plan :=
                  destination\<lparr>sorted_nodes := l, sorted_count := sorted_count destination + n\<rparr>]\<rparr>))"

text \<open>Unlinking the inputs from the source level.\<close>

definition unlink_inputs ::
  "imr_lsm_level_compaction_plan \<Rightarrow> imr_lsm_node list \<Rightarrow> imr_lsm_metadata \<Rightarrow> imr_lsm_level_compaction_plan \<times> imr_lsm_metadata" where
  "unlink_inputs plan before m =
     (let source = levels m ! p_source_level plan;
          count = p_source_unsorted_count plan;
          link = drop (length before) (unsorted_nodes source);
          (plan1, source1) = (if count \<noteq> 0
             then (plan\<lparr>p_retired_unsorted_head := take count link\<rparr>,
                   source\<lparr>unsorted_nodes := before @ drop count link, unsorted_count := unsorted_count source - count\<rparr>)
             else (plan, source));
          (plan2, source2) = (if p_retire_source plan
             then (plan1\<lparr>p_retired_source_sorted_head := sorted_nodes source1\<rparr>, source1\<lparr>sorted_nodes := [], sorted_count := 0\<rparr>)
             else (plan1, source1))
      in (plan2, m\<lparr>levels := (levels m)[p_source_level plan := source2]\<rparr>))"

definition level_compaction_stats :: "imr_lsm_level_compaction_plan \<Rightarrow> imr_lsm_metadata \<Rightarrow> imr_lsm_metadata" where
  "level_compaction_stats plan m =
     (let input_bytes = int (p_input_entries plan * IMR_LSM_RECORD_BYTES);
          output_bytes = int (p_output_entries plan * IMR_LSM_RECORD_BYTES)
      in stat_sets
           [(''last_compaction_from'', int (p_source_level plan)), (''last_compaction_to'', int (p_destination_level plan)),
            (''last_compaction_input'', int (p_input_entries plan)),
            (''last_compaction_output_total'', int (sorted_count (levels m ! p_destination_level plan)))]
           (stat_adds
             [(''metadata_compaction_input_bytes'', input_bytes), (''metadata_compaction_output_bytes'', output_bytes)]
             (stat_sets
               [(''last_compaction_input_bytes'', input_bytes), (''last_compaction_output_bytes'', output_bytes)]
               (stat_inc ''compaction_count'' m))))"

definition imr_lsm_publish_level_compaction_locked ::
  "imr_lsm_config \<Rightarrow> lsm_device \<Rightarrow> imr_lsm_level_compaction_plan \<Rightarrow> imr_lsm_metadata
    \<Rightarrow> kret \<times> imr_lsm_level_compaction_plan \<times> imr_lsm_metadata" where
  "imr_lsm_publish_level_compaction_locked c d plan m =
     (case imr_lsm_validate_level_compaction_plan_locked d plan m of (ret, before) \<Rightarrow>
        if ret \<noteq> 0 then (ret, plan, m)
        else
          let zs = dev_zone_status d;
              (plan1, m1) = unlink_inputs plan before m;
              (plan2, m2) = imr_lsm_merge_prepared_sorted_locked plan1 m1;
              m3 = imr_lsm_publish_prepared_segment_locked zs (the (p_output_segment plan2)) False m2;
              plan3 = plan2\<lparr>p_output_segment := None\<rparr>;
              m4 = (if p_retire_source plan3 then snd (imr_lsm_retire_level_segments_locked zs (p_source_level plan3) m3) else m3);
              (accounted, m5) = imr_lsm_account_new_segment_invalid_stats_locked zs (length (segments m2)) m4;
              m6 = (if accounted
                    then imr_lsm_update_segment_compaction_selection_locked zs (imr_lsm_refresh_max_obsolete_ratio_locked m5)
                    else m5);
              m7 = imr_lsm_calculate_dynamic_levels_locked c (level_compaction_stats plan3 m6)
          in (0, plan3\<lparr>p_published := True\<rparr>, m7))"

section \<open>Executing\<close>

text \<open>The first critical section of \<open>imr_lsm_execute_level_compaction\<close>; the second result is the level.\<close>

definition prepare_section ::
  "imr_lsm_config \<Rightarrow> lsm_device \<Rightarrow> bool \<Rightarrow> nat \<Rightarrow> imr_lsm_metadata
    \<Rightarrow> kret \<times> nat \<times> imr_lsm_level_compaction_plan \<times> imr_lsm_metadata" where
  "prepare_section c d automatic requested_level m =
     (if \<not> imrsim_target_ready_locked d \<or> dev_output_bdev d = None then (K_ENODEV, requested_level, zero_plan, m)
      else if \<not> initialized m \<and> automatic then (K_ENODEV, requested_level, zero_plan, m)
      else
        let m0 = (if initialized m then m else imr_lsm_initialize_metadata_locked m);
            prepare = (\<lambda>level max_unsorted m. case imr_lsm_prepare_level_compaction_locked c (dev_output_bdev d) level max_unsorted m of
                         (ret, plan, m') \<Rightarrow> (ret, level, plan, m'))
        in if automatic
           then
             let m1 = imr_lsm_calculate_dynamic_levels_locked c m0
             in if base_level m1 < IMR_LSM_MAX_LEVEL \<and> unsorted_count (levels m1 ! IMR_LSM_MAX_LEVEL) \<noteq> 0
                then prepare IMR_LSM_MAX_LEVEL u32_max m1
                else case imr_lsm_pick_compaction_level_locked c m1 of (level, m2) \<Rightarrow>
                       if level \<ge> IMR_LSM_LEVELS then (0, level, zero_plan, m2)
                       else prepare level
                              (if level = IMR_LSM_DEFAULT_UNSORTED_LEVEL then imr_lsm_compaction_threshold_locked c else u32_max) m2
           else if requested_level \<ge> IMR_LSM_LEVELS then (K_EINVAL, requested_level, zero_plan, m0)
           else prepare requested_level u32_max m0)"

record level_compaction_outcome =
  did_work :: bool
  compacted_level :: nat
  out_input_entries :: nat
  out_output_entries :: nat

text \<open>\<open>window\<close> is what others do to the state while the plan is built outside the locks.\<close>

definition imr_lsm_execute_level_compaction ::
  "imr_lsm_config \<Rightarrow> lsm_device \<Rightarrow> (imr_lsm_metadata \<Rightarrow> imr_lsm_metadata) \<Rightarrow> lsm_device \<Rightarrow> bool \<Rightarrow> nat \<Rightarrow> imr_lsm_metadata
    \<Rightarrow> kret \<times> level_compaction_outcome \<times> imr_lsm_metadata" where
  "imr_lsm_execute_level_compaction c d window d' automatic requested_level m =
     (let none = \<lparr>did_work = False, compacted_level = IMR_LSM_LEVELS, out_input_entries = 0, out_output_entries = 0\<rparr>
      in case prepare_section c d automatic requested_level m of (ret, level, plan, m1) \<Rightarrow>
           if ret \<noteq> 0 \<or> \<not> p_prepared plan then (ret, none, m1)
           else
             let out = none\<lparr>did_work := True, compacted_level := level, out_input_entries := p_input_entries plan\<rparr>
             in case imr_lsm_build_level_compaction_plan c plan (kmem m1) of (ret, plan1, mem) \<Rightarrow>
                  let m2 = window (m1\<lparr>kmem := mem\<rparr>)
                  in if ret \<noteq> 0 then (ret, out, m2)
                     else case imr_lsm_publish_level_compaction_locked c d' plan1 m2 of (ret, plan2, m3) \<Rightarrow>
                            (ret, out\<lparr>out_output_entries := p_output_entries plan1\<rparr>, m3))"

text \<open>The worker runs one round (\<open>IMR_LSM_LEVEL_COMPACTION_WORK_ROUNDS\<close> is 1).  The device is sampled in
  each of its four critical sections; there is a window between each two.  The result is whether the work is queued again.\<close>

definition imr_lsm_level_compaction_auto_work ::
  "imr_lsm_config \<Rightarrow> (nat \<Rightarrow> lsm_device) \<Rightarrow> (nat \<Rightarrow> imr_lsm_metadata \<Rightarrow> imr_lsm_metadata) \<Rightarrow> imr_lsm_metadata
    \<Rightarrow> bool \<times> imr_lsm_metadata" where
  "imr_lsm_level_compaction_auto_work c dev window m =
     (let m0 = m\<lparr>level_compaction_running := True\<rparr>
      in if \<not> dev_active (dev 0) \<or> \<not> initialized m0 \<or> dev_output_bdev (dev 0) = None
         then (False, m0\<lparr>level_compaction_pending := False, level_compaction_running := False\<rparr>)
         else
           let m1 = stat_inc ''level_compaction_work_run_count'' (m0\<lparr>level_compaction_pending := False, level_compaction_running := True\<rparr>)
           in case imr_lsm_execute_level_compaction c (dev 1) (window 1) (dev 2) True IMR_LSM_LEVELS (window 0 m1) of (ret, out, m2) \<Rightarrow>
                let successful_rounds = (if did_work out \<and> ret = 0 \<and> compacted_level out < IMR_LSM_LEVELS then 1 else 0);
                    m3 = stat_add ''level_compaction_work_round_count'' successful_rounds (window 2 m2)
                in if ret = 0 \<and> imrsim_target_ready_locked (dev 3) \<and> initialized m3 \<and> dev_output_bdev (dev 3) \<noteq> None
                   then case imr_lsm_level_compaction_needed_locked c m3 of (needed, m4) \<Rightarrow>
                     if needed
                     then (True, (stat_inc ''level_compaction_work_requeue_count''
                             (if level_compaction_pending m4 then m4
                              else stat_inc ''level_compaction_work_schedule_count'' (m4\<lparr>level_compaction_pending := True\<rparr>)))
                            \<lparr>level_compaction_running := False\<rparr>)
                     else (False, m4\<lparr>level_compaction_pending := False, level_compaction_running := False\<rparr>)
                   else
                     let m4 = m3\<lparr>level_compaction_pending := False\<rparr>
                     in (False, (if ret \<noteq> 0
                                 then stat_set ''last_level_compaction_work_error'' ret (stat_inc ''level_compaction_work_error_count'' m4)
                                 else m4)\<lparr>level_compaction_running := False\<rparr>))"

section \<open>Merging\<close>

lemma sorted_ok_Cons: "sorted_ok (n # ns) \<longleftrightarrow> (\<forall>x \<in> set ns. n_key n < n_key x) \<and> sorted_ok ns"
  by (simp add: sorted_ok_def)

lemma overwrite_key [simp]: "n_key (overwrite e p) = n_key e"
  by (simp add: overwrite_def)

lemma merge_keys:
  "merge_prepared ex pr d = (l, n, d') \<Longrightarrow> n_key ` set l = n_key ` set ex \<union> n_key ` set pr \<and> length l = length ex + n"
proof (induction ex pr d arbitrary: l n d' rule: merge_prepared.induct)
  case (2 p ps d)
  obtain l1 n1 d1 where r: "merge_prepared [] ps d = (l1, n1, d1)" by (metis prod_cases3)
  show ?case using "2.IH" [OF r] "2.prems" r by (simp split: prod.splits) force
next
  case (3 e es p ps d)
  consider "n_key e < n_key p" | "n_key e = n_key p" | "n_key p < n_key e" by linarith
  then show ?case
  proof cases
    case 1
    obtain l1 n1 d1 where r: "merge_prepared es (p # ps) d = (l1, n1, d1)" by (metis prod_cases3)
    then have "l = e # l1" "n = n1" using "3.prems" 1 by simp_all
    then show ?thesis using "3.IH"(1) [OF 1 r] by (simp add: insert_commute)
  next
    case 2
    obtain l1 n1 d1 where r: "merge_prepared es ps (p # d) = (l1, n1, d1)" by (metis prod_cases3)
    then have "l = overwrite e p # l1" "n = n1" using "3.prems" 2 by simp_all
    moreover have "n_key ` set l1 = n_key ` set es \<union> n_key ` set ps \<and> length l1 = length es + n1"
      by (rule "3.IH"(2) [OF _ 2 r]) (use 2 in simp)
    ultimately show ?thesis using 2 by auto
  next
    case 3
    obtain l1 n1 d1 where r: "merge_prepared (e # es) ps d = (l1, n1, d1)" by (metis prod_cases3)
    then have "l = p # l1" "n = n1 + 1" using "3.prems" 3 by simp_all
    moreover have "n_key ` set l1 = n_key ` set (e # es) \<union> n_key ` set ps \<and> length l1 = length (e # es) + n1"
      by (rule "3.IH"(3) [OF _ _ r]) (use 3 in simp_all)
    ultimately show ?thesis by (simp add: insert_commute)
  qed
qed simp

lemma merge_sorted:
  "merge_prepared ex pr d = (l, n, d') \<Longrightarrow> sorted_ok ex \<Longrightarrow> sorted_ok pr \<Longrightarrow> sorted_ok l"
proof (induction ex pr d arbitrary: l n d' rule: merge_prepared.induct)
  case (2 p ps d)
  obtain l1 n1 d1 where r: "merge_prepared [] ps d = (l1, n1, d1)" by (metis prod_cases3)
  then have "l = p # l1" "sorted_ok l1" using 2 by (auto simp: sorted_ok_Cons)
  moreover have "\<forall>x \<in> set l1. n_key p < n_key x" using merge_keys [OF r] "2.prems"(3) by (force simp: sorted_ok_Cons)
  ultimately show ?case by (simp add: sorted_ok_Cons)
next
  case (3 e es p ps d)
  have e: "\<forall>x \<in> set es. n_key e < n_key x" "sorted_ok es" and p: "\<forall>x \<in> set ps. n_key p < n_key x" "sorted_ok ps"
    using "3.prems"(2,3) by (simp_all add: sorted_ok_Cons)
  have key: "\<forall>x \<in> set l1. k < n_key x" if "n_key ` set l1 = n_key ` set a \<union> n_key ` set b" "\<forall>x \<in> set a. k < n_key x" "\<forall>x \<in> set b. k < n_key x"
    for l1 k a b
  proof
    fix x
    assume "x \<in> set l1"
    then have "n_key x \<in> n_key ` set a \<union> n_key ` set b" using that(1) by blast
    then show "k < n_key x" using that(2,3) by auto
  qed
  consider "n_key e < n_key p" | "n_key e = n_key p" | "n_key p < n_key e" by linarith
  then show ?case
  proof cases
    case 1
    obtain l1 n1 d1 where r: "merge_prepared es (p # ps) d = (l1, n1, d1)" by (metis prod_cases3)
    then have "l = e # l1" "sorted_ok l1" using "3.IH"(1) [OF 1 r e(2) "3.prems"(3)] "3.prems"(1) 1 by auto
    moreover have "\<forall>x \<in> set l1. n_key e < n_key x"
      using conjunct1 [OF merge_keys [OF r]] by (rule key) (use e p 1 in \<open>auto intro: less_trans\<close>)
    ultimately show ?thesis by (simp add: sorted_ok_Cons)
  next
    case 2
    obtain l1 n1 d1 where r: "merge_prepared es ps (p # d) = (l1, n1, d1)" by (metis prod_cases3)
    then have "l = overwrite e p # l1" "sorted_ok l1" using "3.IH"(2) [OF _ 2 r e(2) p(2)] "3.prems"(1) 2 by simp_all
    moreover have "\<forall>x \<in> set l1. n_key e < n_key x"
      using conjunct1 [OF merge_keys [OF r]] by (rule key) (use e p 2 in \<open>auto intro: less_trans\<close>)
    ultimately show ?thesis by (simp add: sorted_ok_Cons)
  next
    case 3
    obtain l1 n1 d1 where r: "merge_prepared (e # es) ps d = (l1, n1, d1)" by (metis prod_cases3)
    then have "l = p # l1" "sorted_ok l1" using "3.IH"(3) [OF _ _ r "3.prems"(2) p(2)] "3.prems"(1) 3 by auto
    moreover have "\<forall>x \<in> set l1. n_key p < n_key x"
      using conjunct1 [OF merge_keys [OF r]] by (rule key) (use e p 3 in \<open>auto intro: less_trans\<close>)
    ultimately show ?thesis by (simp add: sorted_ok_Cons)
  qed
qed auto

text \<open>Every node of the result stems from an input, and every input is dominated in the result.\<close>

definition from_inputs :: "imr_lsm_node list \<Rightarrow> imr_lsm_node list \<Rightarrow> imr_lsm_node \<Rightarrow> bool" where
  "from_inputs ex pr x \<longleftrightarrow> x \<in> set ex \<or> (\<exists>p \<in> set pr. n_key p = n_key x \<and> node_version p = node_version x)"

definition dominated :: "imr_lsm_node list \<Rightarrow> imr_lsm_node \<Rightarrow> bool" where
  "dominated l n \<longleftrightarrow> (\<exists>x \<in> set l. n_key x = n_key n \<and> n_timestamp n \<le> n_timestamp x)"

lemma from_inputs_intros:
  "from_inputs (x # ex) pr x" "from_inputs ex pr x \<Longrightarrow> from_inputs (e # ex) pr x" "from_inputs ex (x # pr) x"
  "from_inputs ex pr x \<Longrightarrow> from_inputs ex (p # pr) x"
  by (auto simp: from_inputs_def)

lemma dominated_intros: "dominated (n # l) n" "dominated l n \<Longrightarrow> dominated (x # l) n"
  by (auto simp: dominated_def)

lemma merge_versions:
  "merge_prepared ex pr d = (l, n, d') \<Longrightarrow>
   (\<forall>x \<in> set l. from_inputs ex pr x) \<and> (\<forall>x \<in> set ex. dominated l x) \<and> (\<forall>x \<in> set pr. dominated l x)"
proof (induction ex pr d arbitrary: l n d' rule: merge_prepared.induct)
  case (1 ex d)
  then show ?case by (auto simp: from_inputs_def dominated_def)
next
  case (2 p ps d)
  obtain l1 n1 d1 where r: "merge_prepared [] ps d = (l1, n1, d1)" by (metis prod_cases3)
  then have l: "l = p # l1" using "2.prems" by simp
  show ?case using "2.IH" [OF r] unfolding l by (simp add: from_inputs_intros dominated_intros)
next
  case (3 e es p ps d)
  consider "n_key e < n_key p" | "n_key e = n_key p" | "n_key p < n_key e" by linarith
  then show ?case
  proof cases
    case 1
    obtain l1 n1 d1 where r: "merge_prepared es (p # ps) d = (l1, n1, d1)" by (metis prod_cases3)
    then have l: "l = e # l1" using "3.prems" 1 by simp
    show ?thesis using "3.IH"(1) [OF 1 r] unfolding l by (simp add: from_inputs_intros dominated_intros)
  next
    case 2
    obtain l1 n1 d1 where r: "merge_prepared es ps (p # d) = (l1, n1, d1)" by (metis prod_cases3)
    then have l: "l = overwrite e p # l1" using "3.prems" 2 by simp
    have "(\<forall>x \<in> set l1. from_inputs es ps x) \<and> (\<forall>x \<in> set es. dominated l1 x) \<and> (\<forall>x \<in> set ps. dominated l1 x)"
      by (rule "3.IH"(2) [OF _ 2 r]) (use 2 in simp)
    moreover have "from_inputs (e # es) (p # ps) (overwrite e p)" "dominated l e" "dominated l p"
      using 2 by (auto simp: l overwrite_def from_inputs_def dominated_def node_version_def)
    ultimately show ?thesis unfolding l by (simp add: from_inputs_intros dominated_intros)
  next
    case 3
    obtain l1 n1 d1 where r: "merge_prepared (e # es) ps d = (l1, n1, d1)" by (metis prod_cases3)
    then have l: "l = p # l1" using "3.prems" 3 by simp
    have "(\<forall>x \<in> set l1. from_inputs (e # es) ps x) \<and> (\<forall>x \<in> set (e # es). dominated l1 x) \<and> (\<forall>x \<in> set ps. dominated l1 x)"
      by (rule "3.IH"(3) [OF _ _ r]) (use 3 in simp_all)
    then show ?thesis unfolding l by (simp add: from_inputs_intros dominated_intros)
  qed
qed

section \<open>The result of building\<close>

lemma add_chain_ok:
  "add_chain th k ns b m = (0, b', rest, m') \<Longrightarrow>
   k \<le> length ns \<and> rest = drop k ns \<and> builder_add_list th (take k ns) b m = (0, b', m')"
proof (induction th k ns b m rule: add_chain.induct)
  case (3 th k n ns b m)
  obtain r b1 m1 where a: "imr_lsm_segment_builder_add th n b m = (r, b1, m1)" by (metis prod_cases3)
  then have "r = 0" "add_chain th k ns b1 m1 = (0, b', rest, m')" using "3.prems" by (simp_all split: if_splits)
  then show ?case using "3.IH" [OF a [symmetric] refl] a by simp
qed simp_all

lemma builder_add_list_append:
  "builder_add_list th xs b m = (0, b1, m1) \<Longrightarrow> builder_add_list th (xs @ ys) b m = builder_add_list th ys b1 m1"
proof (induction xs arbitrary: b m)
  case (Cons x xs)
  obtain r b2 m2 where a: "imr_lsm_segment_builder_add th x b m = (r, b2, m2)" by (metis prod_cases3)
  then show ?case using Cons by (simp split: if_splits)
qed simp

lemma build_nodes_ok:
  "build_nodes es plan mem = (0, plan', mem') \<Longrightarrow>
   plan' = plan\<lparr>p_prepared_sorted_head := p_prepared_sorted_head plan @ map entry_node es,
     p_prepared_sorted_count := p_prepared_sorted_count plan + length es\<rparr>"
proof (induction es arbitrary: plan mem)
  case (Cons e es)
  obtain ok mem1 where k: "kalloc mem = (ok, mem1)" by (cases "kalloc mem")
  then have "ok" using Cons.prems by (cases ok) simp_all
  then have "build_nodes es (plan\<lparr>p_prepared_sorted_head := p_prepared_sorted_head plan @ [entry_node e],
      p_prepared_sorted_count := p_prepared_sorted_count plan + 1\<rparr>) mem1 = (0, plan', mem')" using Cons.prems k by simp
  from Cons.IH [OF this] show ?case by simp
qed simp

text \<open>The nodes a plan compacts.\<close>

definition plan_inputs :: "imr_lsm_level_compaction_plan \<Rightarrow> imr_lsm_node list" where
  "plan_inputs plan = take (p_source_unsorted_count plan) (p_source_unsorted_head plan) @ p_source_sorted_head plan"

lemma build_plan_ok:
  assumes "imr_lsm_build_level_compaction_plan c plan mem = (0, plan', mem')" "p_segment_builder plan = zero_builder"
    "p_prepared_sorted_head plan = []" "plan_inputs plan \<noteq> []"
  obtains s b where "p_output_segment plan' = Some s" "seg_ok s" "seg_level s = p_destination_level plan" "\<not> retired s"
    "\<And>k. table_version (seg_block_table s) k = foldl best None (versions_of (plan_inputs plan) k)"
    "plan' = plan\<lparr>p_segment_builder := b, p_output_entries := length (seg_block_table s), p_output_segment := Some s,
       p_prepared_sorted_head := map entry_node (seg_block_table s),
       p_prepared_sorted_count := p_prepared_sorted_count plan + length (seg_block_table s)\<rparr>"
proof -
  let ?th = "imr_lsm_compaction_threshold_locked c"
  obtain r1 b1 rest1 mem1 where 1: "add_chain ?th (p_source_unsorted_count plan) (p_source_unsorted_head plan) (p_segment_builder plan) mem =
      (r1, b1, rest1, mem1)" by (metis prod_cases4)
  have r1: "r1 = 0" using assms(1) 1 by (simp add: imr_lsm_build_level_compaction_plan_def Let_def split: if_splits)
  obtain r2 b2 rest2 mem2 where 2: "add_chain ?th (p_source_sorted_count plan) (p_source_sorted_head plan) b1 mem1 =
      (r2, b2, rest2, mem2)" by (metis prod_cases4)
  have r2: "r2 = 0" "rest2 = []" using assms(1) 1 2 r1
    by (simp_all add: imr_lsm_build_level_compaction_plan_def Let_def split: if_splits)
  define plan2 where "plan2 = plan\<lparr>p_segment_builder := b2, p_output_entries := length (bld_block_table b2)\<rparr>"
  obtain r3 plan3 mem3 where 3: "imr_lsm_build_prepared_sorted_nodes plan2 mem2 = (r3, plan3, mem3)" by (metis prod_cases3)
  have r3: "r3 = 0" using assms(1) 1 2 3 r1 r2
    by (simp add: imr_lsm_build_level_compaction_plan_def Let_def plan2_def split: if_splits)
  obtain r4 sg b4 mem4 where 4: "imr_lsm_prepare_segment (p_destination_level plan3) IMR_LSM_TRACK_BOTTOM
      (p_segment_builder plan3) (p_bloom_bits_per_key plan3) mem3 = (r4, sg, b4, mem4)" by (metis prod_cases4)
  have r4: "r4 = 0" "plan' = plan3\<lparr>p_segment_builder := b4, p_output_segment := sg\<rparr>"
    using assms(1) 1 2 3 4 r1 r2 r3
    by (simp_all add: imr_lsm_build_level_compaction_plan_def Let_def plan2_def split: if_splits)
  have plan3: "plan3 = plan2\<lparr>p_prepared_sorted_head := map entry_node (bld_block_table b2),
     p_prepared_sorted_count := p_prepared_sorted_count plan + length (bld_block_table b2)\<rparr>"
    using build_nodes_ok [of "bld_block_table b2" plan2 mem2 plan3 mem3] 3 r3 assms(3)
    by (simp add: imr_lsm_build_prepared_sorted_nodes_def plan2_def)
  note c1 = add_chain_ok [OF 1 [unfolded r1]] and c2 = add_chain_ok [OF 2 [unfolded r2]]
  have tk: "take (p_source_sorted_count plan) (p_source_sorted_head plan) = p_source_sorted_head plan" using c2 by simp
  have "builder_add_list ?th (p_source_sorted_head plan) b1 mem1 = (0, b2, mem2)" using c2 unfolding tk by blast
  then have "builder_add_list ?th (plan_inputs plan) zero_builder mem = (0, b2, mem2)"
    using builder_add_list_append [OF conjunct2 [OF conjunct2 [OF c1]], of "p_source_sorted_head plan"] assms(2)
    by (simp add: plan_inputs_def)
  note b = builder_add_list_correct [OF builder_ok_zero this]
  have n: "bld_node_count b2 \<noteq> 0" and ok: "builder_ok b2" using b assms(4) by auto
  have tv: "table_version (bld_block_table b2) k = foldl best None (versions_of (plan_inputs plan) k)" for k
    using b by (simp add: zero_builder_def table_version_def table_find_def)
  have p4: "imr_lsm_prepare_segment (p_destination_level plan) IMR_LSM_TRACK_BOTTOM b2 (p_bloom_bits_per_key plan) mem3 = (0, sg, b4, mem4)"
    using 4 r4(1) by (simp add: plan3 plan2_def)
  then obtain s where sg: "sg = Some s" using n
    by (auto simp: imr_lsm_prepare_segment_def split: prod.splits bool.splits if_splits)
  note ps = prepare_segment_correct [OF ok p4 [unfolded sg]]
  show ?thesis
    by (rule that [of s b4]) (use ps tv r4(2) sg in \<open>simp_all add: plan3 plan2_def\<close>)
qed

text \<open>The table holds, for every input key and no other, the newest input.\<close>

lemma versions_of_set: "set (versions_of ns k) = node_versions k ns"
  by (auto simp: versions_of_def node_versions_def)

lemma table_newest:
  assumes "table_ok t" "\<And>k. table_version t k = foldl best None (versions_of ns k)"
  shows "e \<in> set t \<Longrightarrow> is_newest (node_versions (be_key e) ns) (entry_version e)"
    "n \<in> set ns \<Longrightarrow> \<exists>e \<in> set t. be_key e = n_key n \<and> n_timestamp n \<le> be_timestamp e"
proof -
  show "is_newest (node_versions (be_key e) ns) (entry_version e)" if "e \<in> set t"
  proof -
    have "foldl best None (versions_of ns (be_key e)) = Some (entry_version e)"
      using table_version_mem [OF assms(1) that] assms(2) by simp
    then show ?thesis using foldl_best [of None "versions_of ns (be_key e)"] by (simp add: versions_of_set)
  qed
  assume n: "n \<in> set ns"
  then have "node_version n \<in> node_versions (n_key n) ns" by (auto simp: node_versions_def)
  moreover from this have "versions_of ns (n_key n) \<noteq> []" using versions_of_set [of ns "n_key n"] by auto
  then obtain v where v: "foldl best None (versions_of ns (n_key n)) = Some v"
    using foldl_best [of None "versions_of ns (n_key n)"] by (cases "foldl best None (versions_of ns (n_key n))") auto
  ultimately have "fst (node_version n) \<le> fst v"
    using foldl_best [of None "versions_of ns (n_key n)"] by (simp add: versions_of_set is_newest_def)
  moreover have "table_version t (n_key n) = Some v" using v assms(2) by simp
  then obtain e where "e \<in> set t" "be_key e = n_key n" "entry_version e = v" using table_version_Some [OF assms(1)] by blast
  ultimately show "\<exists>e \<in> set t. be_key e = n_key n \<and> n_timestamp n \<le> be_timestamp e"
    by (auto simp: node_version_def entry_version_def)
qed

section \<open>Retiring the segments of a level\<close>

definition rest_core :: "imr_lsm_metadata \<Rightarrow> imr_lsm_metadata" where
  "rest_core m = (acct_core m)\<lparr>segments := []\<rparr>"

lemma rest_core_acct: "acct_core m' = acct_core m \<Longrightarrow> rest_core m' = rest_core m"
  by (simp add: rest_core_def)

lemma retire_segment_core:
  "rest_core (retire_segment zs i m) = rest_core m"
  "map seg_core (segments (retire_segment zs i m)) = (map seg_core (segments m))[i := (seg_core (segments m ! i))\<lparr>retired := True\<rparr>]"
proof -
  let ?f = "\<lambda>s. s\<lparr>retired := True, compaction_candidate := False, compaction_score := 0\<rparr>"
  define m1 where "m1 = imr_lsm_unaccount_segment_invalid_stats_locked i m"
  have c1: "acct_core m1 = acct_core m" by (simp add: m1_def)
  have c2: "acct_core (retire_segment zs i m) = acct_core (upd_seg i ?f m1)" by (simp add: retire_segment_def m1_def)
  have "rest_core (upd_seg i ?f m1) = rest_core m1" by (simp add: rest_core_def acct_core_def upd_seg_def)
  then show "rest_core (retire_segment zs i m) = rest_core m" using rest_core_acct [OF c1] rest_core_acct [OF c2] by simp
  have s1: "map seg_core (segments m1) = map seg_core (segments m)" by (rule acct_coreD(2) [OF c1])
  have "seg_core (?f s) = (seg_core s)\<lparr>retired := True\<rparr>" for s by (simp add: seg_core_def)
  then have "map seg_core (segments (upd_seg i ?f m1)) = (map seg_core (segments m1))[i := (seg_core (segments m1 ! i))\<lparr>retired := True\<rparr>]"
    by (simp add: upd_seg_def map_update)
  also have "\<dots> = (map seg_core (segments m))[i := (seg_core (segments m ! i))\<lparr>retired := True\<rparr>]"
  proof (cases "i < length (segments m)")
    case True
    then have "seg_core (segments m1 ! i) = seg_core (segments m ! i)"
      using s1 by (metis length_map nth_map)
    then show ?thesis unfolding s1 by simp
  qed (simp add: s1 list_update_beyond)
  finally show "map seg_core (segments (retire_segment zs i m)) = (map seg_core (segments m))[i := (seg_core (segments m ! i))\<lparr>retired := True\<rparr>]"
    using acct_coreD(2) [OF c2] by simp
qed

definition retire_at :: "nat \<Rightarrow> imr_lsm_segment \<Rightarrow> imr_lsm_segment" where
  "retire_at level s = (if seg_level s = level then s\<lparr>retired := True\<rparr> else s)"

lemma seg_core_fields [simp]: "seg_level (seg_core s) = seg_level s" "retired (seg_core s) = retired s"
  by (simp_all add: seg_core_def)

lemma retire_level_core:
  "rest_core (snd (imr_lsm_retire_level_segments_locked zs level m)) = rest_core m"
  "map seg_core (segments (snd (imr_lsm_retire_level_segments_locked zs level m))) = map (retire_at level \<circ> seg_core) (segments m)"
proof -
  let ?f = "\<lambda>i (n :: nat, m). if seg_level (segments m ! i) = level \<and> \<not> retired (segments m ! i) then (n + 1, retire_segment zs i m) else (n, m)"
  let ?c = "map seg_core (segments m)"
  have "rest_core (snd (fold ?f [0..<k] (0, m))) = rest_core m \<and>
      map seg_core (segments (snd (fold ?f [0..<k] (0, m)))) = map (retire_at level) (take k ?c) @ drop k ?c"
    if "k \<le> length (segments m)" for k
    using that
  proof (induction k)
    case (Suc k)
    obtain n m1 where st: "fold ?f [0..<k] (0, m) = (n, m1)" by (cases "fold ?f [0..<k] (0, m)")
    have IH: "rest_core m1 = rest_core m" "map seg_core (segments m1) = map (retire_at level) (take k ?c) @ drop k ?c"
      using Suc st by simp_all
    have len: "length (segments m1) = length (segments m)" using arg_cong [OF IH(2), of length] Suc.prems by simp
    have ck: "seg_core (segments m1 ! k) = ?c ! k"
      using arg_cong [OF IH(2), of "\<lambda>l. l ! k"] Suc.prems len by (simp add: nth_append)
    have upd: "(map (retire_at level) (take k ?c) @ drop k ?c)[k := x] = map (retire_at level) (take k ?c) @ x # drop (Suc k) ?c" for x
      using Suc.prems by (simp add: list_update_append upd_conv_take_nth_drop)
    have split: "drop k ?c = ?c ! k # drop (Suc k) ?c" "take (Suc k) ?c = take k ?c @ [?c ! k]"
      using Suc.prems Cons_nth_drop_Suc [of k ?c, symmetric] take_Suc_conv_app_nth [of k ?c] by simp_all
    have lv: "seg_level (segments m1 ! k) = seg_level (?c ! k)" "retired (segments m1 ! k) = retired (?c ! k)"
      using ck by (metis seg_core_fields)+
    have step: "fold ?f [0..<Suc k] (0, m) = ?f k (n, m1)" by (simp add: st)
    show ?case
    proof (cases "seg_level (?c ! k) = level \<and> \<not> retired (?c ! k)")
      case True
      then have "snd (fold ?f [0..<Suc k] (0, m)) = retire_segment zs k m1" unfolding step using lv by simp
      moreover have "map seg_core (segments (retire_segment zs k m1)) = map (retire_at level) (take k ?c) @ retire_at level (?c ! k) # drop (Suc k) ?c"
        unfolding retire_segment_core(2) IH(2) ck upd using True by (simp add: retire_at_def)
      ultimately show ?thesis using retire_segment_core(1) [of zs k m1] IH(1) by (simp add: split)
    next
      case False
      then have "snd (fold ?f [0..<Suc k] (0, m)) = m1" unfolding step using lv by auto
      moreover have "retire_at level (?c ! k) = ?c ! k" using False by (cases "?c ! k") (auto simp: retire_at_def)
      ultimately show ?thesis using IH by (simp add: split)
    qed
  qed simp
  from this [of "length (segments m)"]
  show "rest_core (snd (imr_lsm_retire_level_segments_locked zs level m)) = rest_core m"
    "map seg_core (segments (snd (imr_lsm_retire_level_segments_locked zs level m))) = map (retire_at level \<circ> seg_core) (segments m)"
    by (simp_all add: imr_lsm_retire_level_segments_locked_def)
qed

section \<open>The effect of publishing\<close>

lemma rest_coreD:
  assumes "rest_core m' = rest_core m"
  shows "levels m' = levels m" "lsm_timestamp m' = lsm_timestamp m" "read_lru m' = read_lru m"
    "read_tree_size m' = read_tree_size m" "read_tree_limit m' = read_tree_limit m" "initialized m' = initialized m"
    "metadata_epoch m' = metadata_epoch m"
  using arg_cong [OF assms, of levels] arg_cong [OF assms, of lsm_timestamp] arg_cong [OF assms, of read_lru]
    arg_cong [OF assms, of read_tree_size] arg_cong [OF assms, of read_tree_limit] arg_cong [OF assms, of initialized]
    arg_cong [OF assms, of metadata_epoch]
  by (simp_all add: rest_core_def acct_core_def)

lemma retire_at_core: "retire_at level (seg_core s) = seg_core (retire_at level s)"
  by (simp add: retire_at_def seg_core_def)

lemma lsm_same_stats_level [simp]: "lsm_same (level_compaction_stats plan m) m"
  unfolding level_compaction_stats_def Let_def
  by (rule lsm_same_trans [OF lsm_same_stat(2) lsm_same_trans [OF lsm_same_stat(3) lsm_same_trans [OF lsm_same_stat(2) lsm_same_stat(1)]]])

text \<open>From the state with the new lists, linking the output, retiring and accounting come to this.\<close>

definition with_output :: "imr_lsm_level_compaction_plan \<Rightarrow> imr_lsm_segment \<Rightarrow> imr_lsm_metadata \<Rightarrow> imr_lsm_metadata" where
  "with_output plan s m = m\<lparr>segments :=
     map (if p_retire_source plan then retire_at (p_source_level plan) else id) (segments m) @ [s]\<rparr>"

lemma with_output_same:
  assumes "seg_data s' = seg_data s" "p_retire_source plan \<longrightarrow> seg_level s \<noteq> p_source_level plan"
    "rest_core m' = rest_core m" "map seg_core (segments m3) = map seg_core (segments m @ [s'])"
    "map seg_core (segments m') = map ((if p_retire_source plan then retire_at (p_source_level plan) else id) \<circ> seg_core) (segments m3)"
  shows "lsm_same m' (with_output plan s m)"
proof -
  let ?R = "if p_retire_source plan then retire_at (p_source_level plan) else id"
  have Rc: "?R (seg_core x) = seg_core (?R x)" for x by (simp add: retire_at_core)
  have s': "?R s' = s'" using assms(2) seg_data_cong(4) [OF assms(1)] by (simp add: retire_at_def)
  have "map seg_core (segments m') = map ?R (map seg_core (segments m3))" using assms(5) by simp
  also have "\<dots> = map seg_core (map ?R (segments m) @ [s'])"
    unfolding assms(4) by (simp add: Rc s' comp_def del: if_split)
  finally have "map seg_data (segments m') = map seg_data (map ?R (segments m) @ [s'])" by (rule map_seg_data_core)
  then have "map seg_data (segments m') = map seg_data (segments (with_output plan s m))"
    using assms(1) by (simp add: with_output_def)
  then show ?thesis using rest_coreD [OF assms(3)] by (simp add: lsm_same_def store_eq_def with_output_def)
qed

lemma publish_effect:
  assumes "imr_lsm_validate_level_compaction_plan_locked d plan m = (0, before)" "p_output_segment plan = Some s"
    "p_retire_source plan \<longrightarrow> seg_level s \<noteq> p_source_level plan" "unlink_inputs plan before m = (plan1, m1)"
    "imr_lsm_merge_prepared_sorted_locked plan1 m1 = (plan2, m2)"
    "imr_lsm_publish_level_compaction_locked c d plan m = (ret, plan', m')"
  shows "ret = 0 \<and> lsm_same m' (with_output plan s m2)"
proof -
  let ?zs = "dev_zone_status d"
  have p1: "p_output_segment plan1 = p_output_segment plan" "p_retire_source plan1 = p_retire_source plan"
    "p_source_level plan1 = p_source_level plan"
    using assms(4) by (auto simp: unlink_inputs_def Let_def split: if_splits)
  then have p2: "p_output_segment plan2 = Some s" "p_retire_source plan2 = p_retire_source plan"
    "p_source_level plan2 = p_source_level plan"
    using assms(2,5) by (auto simp: imr_lsm_merge_prepared_sorted_locked_def Let_def split: prod.splits)
  define m3 where "m3 = imr_lsm_publish_prepared_segment_locked ?zs s False m2"
  define m4 where "m4 = (if p_retire_source plan then snd (imr_lsm_retire_level_segments_locked ?zs (p_source_level plan) m3) else m3)"
  obtain acc m5 where a: "imr_lsm_account_new_segment_invalid_stats_locked ?zs (length (segments m2)) m4 = (acc, m5)" by fastforce
  define m6 where "m6 = (if acc then imr_lsm_update_segment_compaction_selection_locked ?zs (imr_lsm_refresh_max_obsolete_ratio_locked m5) else m5)"
  have r: "ret = 0" "m' = imr_lsm_calculate_dynamic_levels_locked c (level_compaction_stats (plan2\<lparr>p_output_segment := None\<rparr>) m6)"
    using assms(6) a by (simp_all add: imr_lsm_publish_level_compaction_locked_def assms(1,4,5) p2 m3_def m4_def m6_def Let_def cong: if_cong)
  obtain s' where s': "seg_data s' = seg_data s" "acct_core m3 = acct_core (linked s' m2)"
    unfolding m3_def by (rule publish_core [of s ?zs False m2]) simp
  have segs3: "map seg_core (segments m3) = map seg_core (segments m2 @ [s'])" using acct_coreD(2) [OF s'(2)] by simp
  have rest3: "levels m3 = levels m2" "lsm_timestamp m3 = lsm_timestamp m2" "read_lru m3 = read_lru m2"
    "read_tree_size m3 = read_tree_size m2" "read_tree_limit m3 = read_tree_limit m2" "initialized m3 = initialized m2"
    using acct_coreD [OF s'(2)] by simp_all
  have rest4: "rest_core m4 = rest_core m3" using retire_level_core(1) by (simp add: m4_def)
  have "map seg_core (segments m4) = map ((if p_retire_source plan then retire_at (p_source_level plan) else id) \<circ> seg_core) (segments m3)"
    using retire_level_core(2) by (simp add: m4_def)
  moreover define m2' where "m2' = m3\<lparr>segments := segments m2\<rparr>"
  ultimately have s4: "lsm_same m4 (with_output plan s m2')"
    using rest4 segs3 by (intro with_output_same [OF s'(1) assms(3)]) (simp_all add: rest_core_def acct_core_def)
  have "lsm_same (with_output plan s m2') (with_output plan s m2)"
    by (rule lsm_same_fields) (simp_all add: with_output_def m2'_def rest3)
  then have s4': "lsm_same m4 (with_output plan s m2)" by (rule lsm_same_trans [OF s4])
  have "idx_core m5 = idx_core m4" using account_new_core [of ?zs "length (segments m2)" m4] a by simp
  then have "idx_core m6 = idx_core m4" by (simp add: m6_def)
  then have "lsm_same m6 m4" by (rule lsm_same_idx)
  then have "lsm_same m6 (with_output plan s m2)" by (rule lsm_same_trans [OF _ s4'])
  then have "lsm_same (level_compaction_stats (plan2\<lparr>p_output_segment := None\<rparr>) m6) (with_output plan s m2)"
    by (rule lsm_same_trans [OF lsm_same_stats_level])
  then have "lsm_same m' (with_output plan s m2)" unfolding r(2) by (rule lsm_same_trans [OF lsm_same_calculate])
  then show ?thesis using r(1) by simp
qed

section \<open>Publishing keeps the newest versions\<close>

lemma scan_union:
  assumes "\<forall>l < IMR_LSM_LEVELS. level_ok (levels m ! l)"
  shows "set (scan_records k m) = consulted k m \<union> (\<Union>l < IMR_LSM_LEVELS. node_versions k (sorted_nodes (levels m ! l)))"
proof -
  have "set (level_records k (levels m ! l)) =
      node_versions k (unsorted_nodes (levels m ! l)) \<union> node_versions k (sorted_nodes (levels m ! l))" if "l < IMR_LSM_LEVELS" for l
    using assms that by (auto simp: level_records_set node_versions_def)
  then show ?thesis unfolding consulted_def by (intro set_eqI) (simp add: scan_records_set, blast)
qed

text \<open>Dropping dominated records changes nothing.\<close>

lemma newest_thin:
  assumes "store_ok m" "store_ok m'" "set (scan_records k m') \<subseteq> set (scan_records k m)"
    "\<forall>v \<in> set (scan_records k m). \<exists>w \<in> set (scan_records k m'). fst v \<le> fst w"
  shows "newest m' k = newest m k"
proof (cases "newest m' k")
  case None
  then have e: "set (scan_records k m') = {}" by (simp add: newest_None)
  have "v \<notin> set (scan_records k m)" for v using assms(4) unfolding e by blast
  from this [of "hd (scan_records k m)"] have "scan_records k m = []" by (cases "scan_records k m") simp_all
  then have "newest m k = None" by (simp add: newest_None)
  then show ?thesis using None by simp
next
  case (Some v)
  then have "is_newest (set (scan_records k m')) v" using newest_iff [OF scan_bounds(3) [OF assms(2)]] by simp
  then have "is_newest (set (scan_records k m)) v" using assms(3,4) unfolding is_newest_def by (meson le_trans subsetD)
  then have "newest m k = Some v" using newest_iff [OF scan_bounds(3) [OF assms(1)]] by simp
  then show ?thesis using Some by simp
qed

text \<open>How the plan lies in the state: the moved nodes are in front of \<open>rest\<close>, and the output
  segment holds the newest of them and of the source's sorted list, when that is moved as well.\<close>

definition moved_sorted :: "imr_lsm_level_compaction_plan \<Rightarrow> imr_lsm_metadata \<Rightarrow> imr_lsm_node list" where
  "moved_sorted plan m = (if p_retire_source plan then sorted_nodes (levels m ! p_source_level plan) else [])"

definition plan_fits ::
  "imr_lsm_level_compaction_plan \<Rightarrow> imr_lsm_segment \<Rightarrow> imr_lsm_node list \<Rightarrow> imr_lsm_node list \<Rightarrow> imr_lsm_node list
    \<Rightarrow> imr_lsm_metadata \<Rightarrow> bool" where
  "plan_fits plan s before moved rest m \<longleftrightarrow>
     p_source_level plan < IMR_LSM_LEVELS \<and> p_destination_level plan < IMR_LSM_LEVELS \<and>
     (p_retire_source plan \<longrightarrow> p_source_level plan < IMR_LSM_MAX_LEVEL \<and> p_source_level plan \<noteq> p_destination_level plan) \<and>
     unsorted_nodes (levels m ! p_source_level plan) = before @ moved @ rest \<and>
     length moved = p_source_unsorted_count plan \<and>
     seg_ok s \<and> seg_level s = p_destination_level plan \<and> \<not> retired s \<and>
     p_prepared_sorted_head plan = map entry_node (seg_block_table s) \<and>
     (\<forall>k. table_version (seg_block_table s) k = foldl best None (versions_of (moved @ moved_sorted plan m) k))"

lemma entry_node_simps [simp]: "n_key (entry_node e) = be_key e" "n_timestamp (entry_node e) = be_timestamp e"
  "node_version (entry_node e) = entry_version e"
  by (simp_all add: entry_node_def node_version_def entry_version_def)

lemma sorted_ok_entries: "table_ok t \<Longrightarrow> sorted_ok (map entry_node t)"
  by (simp add: table_ok_def sorted_ok_def sorted_wrt_map)

text \<open>The lists after unlinking and merging.\<close>

definition source_after :: "bool \<Rightarrow> imr_lsm_node list \<Rightarrow> imr_lsm_level_state \<Rightarrow> imr_lsm_level_state" where
  "source_after retire left source = source\<lparr>unsorted_nodes := left, unsorted_count := length left,
     sorted_nodes := (if retire then [] else sorted_nodes source), sorted_count := (if retire then 0 else sorted_count source)\<rparr>"

lemma unlink_inputs_levels:
  assumes "unsorted_nodes (levels m ! p_source_level plan) = before @ moved @ rest" "length moved = p_source_unsorted_count plan"
    "unsorted_count (levels m ! p_source_level plan) = length (before @ moved @ rest)" "unlink_inputs plan before m = (plan1, m1)"
  shows "m1 = m\<lparr>levels := (levels m)[p_source_level plan := source_after (p_retire_source plan) (before @ rest) (levels m ! p_source_level plan)]\<rparr>"
    "p_destination_level plan1 = p_destination_level plan" "p_prepared_sorted_head plan1 = p_prepared_sorted_head plan"
    "p_discarded_prepared_sorted_head plan1 = p_discarded_prepared_sorted_head plan"
proof -
  obtain source where s: "levels m ! p_source_level plan = source" by simp
  have u: "unsorted_nodes source = before @ moved @ rest" "unsorted_count source = length (before @ moved @ rest)"
    using assms(1,3) s by simp_all
  have zero: "moved = []" if "p_source_unsorted_count plan = 0" using that assms(2) by simp
  have e: "source\<lparr>unsorted_nodes := before @ rest, unsorted_count := length (before @ rest)\<rparr> = source" if "moved = []"
    using u that by (cases source) simp
  show "m1 = m\<lparr>levels := (levels m)[p_source_level plan := source_after (p_retire_source plan) (before @ rest) (levels m ! p_source_level plan)]\<rparr>"
  proof (cases "p_source_unsorted_count plan = 0")
    case True
    then have "snd (unlink_inputs plan before m) =
        m\<lparr>levels := (levels m)[p_source_level plan := source_after (p_retire_source plan) (before @ rest) source]\<rparr>"
      using e [OF zero [OF True]] by (cases "p_retire_source plan") (simp_all add: unlink_inputs_def Let_def s source_after_def)
    then show ?thesis using assms(4) s by simp
  next
    case False
    then have "snd (unlink_inputs plan before m) =
        m\<lparr>levels := (levels m)[p_source_level plan := source_after (p_retire_source plan) (before @ rest) source]\<rparr>"
      using u(2) assms(2) by (cases "p_retire_source plan") (simp_all add: unlink_inputs_def Let_def s u(1) source_after_def)
    then show ?thesis using assms(4) s by simp
  qed
  have "p_destination_level (fst (unlink_inputs plan before m)) = p_destination_level plan \<and>
      p_prepared_sorted_head (fst (unlink_inputs plan before m)) = p_prepared_sorted_head plan \<and>
      p_discarded_prepared_sorted_head (fst (unlink_inputs plan before m)) = p_discarded_prepared_sorted_head plan"
    by (cases "p_source_unsorted_count plan = 0"; cases "p_retire_source plan"; simp add: unlink_inputs_def Let_def)
  then show "p_destination_level plan1 = p_destination_level plan" "p_prepared_sorted_head plan1 = p_prepared_sorted_head plan"
    "p_discarded_prepared_sorted_head plan1 = p_discarded_prepared_sorted_head plan"
    using assms(4) by simp_all
qed

lemma unlink_merge:
  assumes "store_ok m" "plan_fits plan s before moved rest m" "unlink_inputs plan before m = (plan1, m1)"
    "imr_lsm_merge_prepared_sorted_locked plan1 m1 = (plan2, m2)"
  obtains l n d where "merge_prepared (sorted_nodes (levels m ! p_destination_level plan)) (map entry_node (seg_block_table s))
       (p_discarded_prepared_sorted_head plan) = (l, n, d)"
    "\<forall>i < IMR_LSM_LEVELS. unsorted_nodes (levels m2 ! i) =
       (if i = p_source_level plan then before @ rest else unsorted_nodes (levels m ! i))"
    "\<forall>i < IMR_LSM_LEVELS. sorted_nodes (levels m2 ! i) = (if i = p_destination_level plan then l
       else if i = p_source_level plan \<and> p_retire_source plan then [] else sorted_nodes (levels m ! i))"
    "\<forall>i < IMR_LSM_LEVELS. level_ok (levels m2 ! i)" "\<exists>L. m2 = m\<lparr>levels := L\<rparr> \<and> length L = IMR_LSM_LEVELS"
proof -
  let ?src = "p_source_level plan" and ?dst = "p_destination_level plan"
  have len: "length (levels m) = IMR_LSM_LEVELS" and lv: "\<forall>i < IMR_LSM_LEVELS. level_ok (levels m ! i)"
    using assms(1) by (simp_all add: store_ok_def)
  have f: "?src < IMR_LSM_LEVELS" "?dst < IMR_LSM_LEVELS" "p_retire_source plan \<longrightarrow> ?src \<noteq> ?dst"
    "unsorted_nodes (levels m ! ?src) = before @ moved @ rest" "length moved = p_source_unsorted_count plan"
    "p_prepared_sorted_head plan = map entry_node (seg_block_table s)" "table_ok (seg_block_table s)"
    using assms(2) by (auto simp: plan_fits_def seg_ok_def)
  define src' where "src' = source_after (p_retire_source plan) (before @ rest) (levels m ! ?src)"
  have cnt: "unsorted_count (levels m ! ?src) = length (before @ moved @ rest)" using lv f(1,4) by (simp add: level_ok_def)
  note u = unlink_inputs_levels [OF f(4,5) cnt assms(3)]
  have m1: "m1 = m\<lparr>levels := (levels m)[?src := src']\<rparr>" using u(1) by (simp add: src'_def)
  note p1 = u(2-4)
  obtain l n d where mg: "merge_prepared (sorted_nodes (levels m ! ?dst)) (map entry_node (seg_block_table s))
       (p_discarded_prepared_sorted_head plan) = (l, n, d)" by (metis prod_cases3)
  have sd: "sorted_nodes (levels m1 ! ?dst) = sorted_nodes (levels m ! ?dst)"
    "sorted_count (levels m1 ! ?dst) = sorted_count (levels m ! ?dst)"
    using f(1-3) len by (cases "?src = ?dst"; simp add: m1 src'_def source_after_def)+
  define dst' where "dst' = (levels m1 ! ?dst)\<lparr>sorted_nodes := l, sorted_count := sorted_count (levels m1 ! ?dst) + n\<rparr>"
  have m2: "m2 = m\<lparr>levels := (levels m)[?src := src', ?dst := dst']\<rparr>"
    using assms(4) by (simp add: imr_lsm_merge_prepared_sorted_locked_def p1 f(6) sd mg dst'_def Let_def) (simp add: m1 dst'_def)
  have sl: "sorted_ok l"
    using merge_sorted [OF mg] lv f(2) sorted_ok_entries [OF f(7)] by (simp add: level_ok_def)
  have ll: "length l = sorted_count (levels m1 ! ?dst) + n"
    using merge_keys [OF mg] sd lv f(2) by (simp add: level_ok_def)
  have s': "level_ok src'" using lv f(1) by (auto simp: level_ok_def src'_def source_after_def sorted_ok_def)
  have "level_ok (levels m1 ! ?dst)" using lv s' f(2) len by (cases "?src = ?dst") (auto simp: m1)
  then have d': "level_ok dst'" using sl ll by (simp add: level_ok_def dst'_def)
  have nth: "levels m2 ! i = (if i = ?dst then dst' else if i = ?src then src' else levels m ! i)" if "i < IMR_LSM_LEVELS" for i
    using that f(1,2) len by (simp add: m2 nth_list_update)
  have ud: "unsorted_nodes dst' = (if ?src = ?dst then before @ rest else unsorted_nodes (levels m ! ?dst))"
    using f(1,2) len by (simp add: dst'_def m1 src'_def source_after_def nth_list_update)
  show ?thesis
  proof (rule that [OF mg])
    show "\<forall>i < IMR_LSM_LEVELS. unsorted_nodes (levels m2 ! i) = (if i = ?src then before @ rest else unsorted_nodes (levels m ! i))"
      using nth ud by (simp add: src'_def source_after_def)
    show "\<forall>i < IMR_LSM_LEVELS. sorted_nodes (levels m2 ! i) = (if i = ?dst then l
       else if i = ?src \<and> p_retire_source plan then [] else sorted_nodes (levels m ! i))"
      using nth by (simp add: dst'_def src'_def source_after_def)
    show "\<forall>i < IMR_LSM_LEVELS. level_ok (levels m2 ! i)" using nth lv s' d' by simp
    show "\<exists>L. m2 = m\<lparr>levels := L\<rparr> \<and> length L = IMR_LSM_LEVELS" using len by (auto simp: m2)
  qed
qed

text \<open>The output segment: its versions are the newest of the inputs.\<close>

lemma output_records:
  assumes "plan_fits plan s before moved rest m"
  shows "v \<in> set (segment_records k s) \<Longrightarrow> v \<in> node_versions k (moved @ moved_sorted plan m)"
    "n \<in> set (moved @ moved_sorted plan m) \<Longrightarrow> \<exists>v \<in> set (segment_records (n_key n) s). n_timestamp n \<le> fst v"
    "set (segment_records k s) = entry_version ` {e \<in> set (seg_block_table s). be_key e = k}"
    "live_seg_ok s"
proof -
  have ok: "seg_ok s" "\<not> retired s" "seg_level s < IMR_LSM_LEVELS" "table_ok (seg_block_table s)"
    "\<And>k. table_version (seg_block_table s) k = foldl best None (versions_of (moved @ moved_sorted plan m) k)"
    using assms by (simp_all add: plan_fits_def seg_ok_def)
  show live: "live_seg_ok s" using ok by (simp add: live_seg_ok_def)
  show r: "set (segment_records k s) = entry_version ` {e \<in> set (seg_block_table s). be_key e = k}" for k
    using segment_records_set [OF live] ok(2) by simp
  note t = table_newest [OF ok(4,5)]
  show "v \<in> node_versions k (moved @ moved_sorted plan m)" if "v \<in> set (segment_records k s)"
    using that t(1) by (auto simp: r is_newest_def)
  show "\<exists>v \<in> set (segment_records (n_key n) s). n_timestamp n \<le> fst v" if "n \<in> set (moved @ moved_sorted plan m)"
    using t(2) [OF that] by (auto simp: r entry_version_def)
qed

lemma retire_at_records: "segment_records k (retire_at level s) = (if seg_level s = level then [] else segment_records k s)"
  by (simp add: segment_records_def retire_at_def imr_lsm_segment_block_table_find_def)

lemma consulted_after:
  assumes "\<And>i. i < IMR_LSM_LEVELS \<Longrightarrow> unsorted_nodes (levels M ! i) =
       (if i = src then before @ rest else unsorted_nodes (levels m ! i))"
    "src < IMR_LSM_LEVELS" "unsorted_nodes (levels m ! src) = before @ moved @ rest"
    "segments M = map (if r then retire_at src else id) (segments m) @ [s]"
  shows "consulted k M \<subseteq> consulted k m \<union> set (segment_records k s)"
    "consulted k m \<subseteq> consulted k M \<union> node_versions k moved \<union>
       (if r then \<Union>x \<in> {x \<in> set (segments m). seg_level x = src}. set (segment_records k x) else {})"
proof -
  have u: "node_versions k (unsorted_nodes (levels M ! i)) \<subseteq> node_versions k (unsorted_nodes (levels m ! i))"
    "node_versions k (unsorted_nodes (levels m ! i)) \<subseteq> node_versions k (unsorted_nodes (levels M ! i)) \<union> node_versions k moved"
    if "i < IMR_LSM_LEVELS" for i
    using assms(1) [OF that] assms(3) by (auto simp: node_versions_def)
  have s: "(\<Union>x \<in> set (segments M). set (segment_records k x)) =
      (\<Union>x \<in> set (segments m). if r \<and> seg_level x = src then {} else set (segment_records k x)) \<union> set (segment_records k s)"
    unfolding assms(4) by (cases r) (auto simp: retire_at_records split: if_splits)
  show "consulted k M \<subseteq> consulted k m \<union> set (segment_records k s)"
    unfolding consulted_def s using u(1) by (auto split: if_splits)
  show "consulted k m \<subseteq> consulted k M \<union> node_versions k moved \<union>
       (if r then \<Union>x \<in> {x \<in> set (segments m). seg_level x = src}. set (segment_records k x) else {})"
    unfolding consulted_def s using u(2) by (auto split: if_splits) blast+
qed

text \<open>The state after publication, with the facts about it that the invariant needs.\<close>

definition compacted ::
  "imr_lsm_level_compaction_plan \<Rightarrow> imr_lsm_segment \<Rightarrow> imr_lsm_node list \<Rightarrow> imr_lsm_node list \<Rightarrow> imr_lsm_node list
    \<Rightarrow> imr_lsm_metadata \<Rightarrow> imr_lsm_metadata \<Rightarrow> bool" where
  "compacted plan s before rest l m M \<longleftrightarrow>
     (\<forall>i < IMR_LSM_LEVELS. unsorted_nodes (levels M ! i) =
        (if i = p_source_level plan then before @ rest else unsorted_nodes (levels m ! i))) \<and>
     (\<forall>i < IMR_LSM_LEVELS. sorted_nodes (levels M ! i) = (if i = p_destination_level plan then l
        else if i = p_source_level plan \<and> p_retire_source plan then [] else sorted_nodes (levels m ! i))) \<and>
     (\<forall>i < IMR_LSM_LEVELS. level_ok (levels M ! i)) \<and> length (levels M) = IMR_LSM_LEVELS \<and>
     segments M = map (if p_retire_source plan then retire_at (p_source_level plan) else id) (segments m) @ [s] \<and>
     lsm_timestamp M = lsm_timestamp m \<and>
     (\<forall>x \<in> set l. from_inputs (sorted_nodes (levels m ! p_destination_level plan)) (map entry_node (seg_block_table s)) x) \<and>
     (\<forall>x \<in> set (sorted_nodes (levels m ! p_destination_level plan)). dominated l x) \<and>
     (\<forall>x \<in> set (map entry_node (seg_block_table s)). dominated l x)"

lemma input_records:
  assumes "store_ok m" "plan_fits plan s before moved rest m"
  shows "node_versions k (moved @ moved_sorted plan m) \<subseteq> set (scan_records k m)"
    "set (segment_records k s) \<subseteq> set (scan_records k m)"
proof -
  have f: "p_source_level plan < IMR_LSM_LEVELS" "unsorted_nodes (levels m ! p_source_level plan) = before @ moved @ rest"
    using assms(2) by (simp_all add: plan_fits_def)
  have "node_versions k moved \<subseteq> node_versions k (unsorted_nodes (levels m ! p_source_level plan))"
    "node_versions k (moved_sorted plan m) \<subseteq> node_versions k (sorted_nodes (levels m ! p_source_level plan))"
    using f(2) by (auto simp: node_versions_def moved_sorted_def)
  moreover have "node_versions k (moved @ moved_sorted plan m) = node_versions k moved \<union> node_versions k (moved_sorted plan m)"
    by (auto simp: node_versions_def)
  ultimately show sub: "node_versions k (moved @ moved_sorted plan m) \<subseteq> set (scan_records k m)"
    unfolding scan_set [OF assms(1)] using f(1) by blast
  show "set (segment_records k s) \<subseteq> set (scan_records k m)"
    using output_records(1) [OF assms(2)] sub by blast
qed

lemma compacted_subset:
  assumes "store_ok m" "plan_fits plan s before moved rest m" "compacted plan s before rest l m M"
  shows "consulted k M \<subseteq> set (scan_records k m)"
    "i < IMR_LSM_LEVELS \<Longrightarrow> node_versions k (sorted_nodes (levels M ! i)) \<subseteq> set (scan_records k m)"
    "set (scan_records k M) \<subseteq> set (scan_records k m)"
proof -
  have f: "p_source_level plan < IMR_LSM_LEVELS" "unsorted_nodes (levels m ! p_source_level plan) = before @ moved @ rest"
    "p_destination_level plan < IMR_LSM_LEVELS" using assms(2) by (simp_all add: plan_fits_def)
  have c: "\<forall>i < IMR_LSM_LEVELS. level_ok (levels M ! i)"
    "segments M = map (if p_retire_source plan then retire_at (p_source_level plan) else id) (segments m) @ [s]"
    using assms(3) by (simp_all add: compacted_def)
  have su: "\<And>i. i < IMR_LSM_LEVELS \<Longrightarrow> sorted_nodes (levels M ! i) = (if i = p_destination_level plan then l
        else if i = p_source_level plan \<and> p_retire_source plan then [] else sorted_nodes (levels m ! i))"
    using assms(3) by (simp add: compacted_def)
  note lv = scan_union [of m] and out = input_records(2) [OF assms(1,2)]
  have lm: "\<forall>l < IMR_LSM_LEVELS. level_ok (levels m ! l)" using assms(1) by (simp add: store_ok_def)
  have "consulted k M \<subseteq> consulted k m \<union> set (segment_records k s)"
    by (rule consulted_after(1) [OF _ f(1,2) c(2)]) (use assms(3) in \<open>simp add: compacted_def\<close>)
  then show con: "consulted k M \<subseteq> set (scan_records k m)" using out lv [OF lm] by blast
  have old: "node_versions k (sorted_nodes (levels m ! i)) \<subseteq> set (scan_records k m)" if "i < IMR_LSM_LEVELS" for i
    using that lv [OF lm] by blast
  have "node_versions k l \<subseteq> node_versions k (sorted_nodes (levels m ! p_destination_level plan)) \<union> set (segment_records k s)"
  proof
    fix v
    assume "v \<in> node_versions k l"
    then obtain x where x: "x \<in> set l" "n_key x = k" "v = node_version x" by (auto simp: node_versions_def)
    then have "from_inputs (sorted_nodes (levels m ! p_destination_level plan)) (map entry_node (seg_block_table s)) x"
      using assms(3) by (simp add: compacted_def)
    then show "v \<in> node_versions k (sorted_nodes (levels m ! p_destination_level plan)) \<union> set (segment_records k s)"
      using x by (fastforce simp: from_inputs_def node_versions_def output_records(3) [OF assms(2)] image_iff)
  qed
  then have new: "node_versions k l \<subseteq> set (scan_records k m)" using out old [OF f(3)] by blast
  show so: "node_versions k (sorted_nodes (levels M ! i)) \<subseteq> set (scan_records k m)" if "i < IMR_LSM_LEVELS" for i
    using su [OF that] new old [OF that] by (auto simp: node_versions_def)
  show "set (scan_records k M) \<subseteq> set (scan_records k m)" unfolding scan_union [OF c(1)] using con so by blast
qed

lemma compacted_dominates:
  assumes "store_ok m" "plan_fits plan s before moved rest m" "compacted plan s before rest l m M"
    "v \<in> set (scan_records k m)"
  shows "\<exists>w \<in> consulted k M. fst v \<le> fst w"
proof -
  have f: "p_source_level plan < IMR_LSM_LEVELS" "unsorted_nodes (levels m ! p_source_level plan) = before @ moved @ rest"
    "p_retire_source plan \<longrightarrow> p_source_level plan < IMR_LSM_MAX_LEVEL" using assms(2) by (simp_all add: plan_fits_def)
  have c: "segments M = map (if p_retire_source plan then retire_at (p_source_level plan) else id) (segments m) @ [s]"
    using assms(3) by (simp add: compacted_def)
  have lm: "\<forall>l < IMR_LSM_LEVELS. level_ok (levels m ! l)" "covered m" "backed m" using assms(1) by (simp_all add: store_ok_def)
  have out: "set (segment_records k s) \<subseteq> consulted k M" unfolding consulted_def c by auto
  have inp: "\<exists>w \<in> consulted k M. fst (node_version n) \<le> fst w" if "n \<in> set (moved @ moved_sorted plan m)" "n_key n = k" for n
    using output_records(2) [OF assms(2) that(1)] that(2) out by (auto simp: node_version_def)
  have con: "\<exists>w \<in> consulted k M. fst u \<le> fst w" if u: "u \<in> consulted k m" for u
  proof -
    have "consulted k m \<subseteq> consulted k M \<union> node_versions k moved \<union>
       (if p_retire_source plan then \<Union>x \<in> {x \<in> set (segments m). seg_level x = p_source_level plan}. set (segment_records k x) else {})"
      by (rule consulted_after(2) [OF _ f(1,2) c]) (use assms(3) in \<open>simp add: compacted_def\<close>)
    with u consider "u \<in> consulted k M" | "u \<in> node_versions k moved"
      | x where "p_retire_source plan" "x \<in> set (segments m)" "seg_level x = p_source_level plan" "u \<in> set (segment_records k x)"
      by (auto split: if_splits)
    then show ?thesis
    proof cases
      case 1 then show ?thesis by blast
    next
      case 2
      then obtain n where "n \<in> set moved" "n_key n = k" "u = node_version n" by (auto simp: node_versions_def)
      then show ?thesis using inp [of n] by simp
    next
      case 3
      then obtain n where n: "n \<in> set (sorted_nodes (levels m ! p_source_level plan))" "n_key n = k" "fst u \<le> n_timestamp n"
        using lm(3) f(3) unfolding backed_def backed_seg_def by metis
      then have "n \<in> set (moved @ moved_sorted plan m)" using 3(1) by (simp add: moved_sorted_def)
      then show ?thesis using inp [of n] n by (auto simp: node_version_def intro: le_trans)
    qed
  qed
  show ?thesis
  proof (cases "v \<in> consulted k m")
    case True then show ?thesis by (rule con)
  next
    case False
    then obtain i n where "i < IMR_LSM_LEVELS" "n \<in> set (sorted_nodes (levels m ! i))" "n_key n = k" "v = node_version n"
      using assms(4) unfolding scan_union [OF lm(1)] by (auto simp: node_versions_def)
    then obtain u where "u \<in> consulted k m" "fst v \<le> fst u"
      using lm(2) unfolding covered_def by (metis fst_conv node_version_def)
    then show ?thesis using con [of u] by (auto intro: le_trans)
  qed
qed

lemma compacted_backed:
  assumes "store_ok m" "plan_fits plan s before moved rest m" "compacted plan s before rest l m M"
  shows "backed M"
  unfolding backed_def
proof
  fix x
  assume "x \<in> set (segments M)"
  have f: "p_destination_level plan < IMR_LSM_LEVELS" "seg_level s = p_destination_level plan"
    "p_retire_source plan \<longrightarrow> p_source_level plan \<noteq> p_destination_level plan"
    using assms(2) by (simp_all add: plan_fits_def)
  have su: "\<And>i. i < IMR_LSM_LEVELS \<Longrightarrow> sorted_nodes (levels M ! i) = (if i = p_destination_level plan then l
        else if i = p_source_level plan \<and> p_retire_source plan then [] else sorted_nodes (levels m ! i))"
    and segs: "segments M = map (if p_retire_source plan then retire_at (p_source_level plan) else id) (segments m) @ [s]"
    and dom: "\<forall>x \<in> set (sorted_nodes (levels m ! p_destination_level plan)). dominated l x"
    "\<forall>x \<in> set (map entry_node (seg_block_table s)). dominated l x"
    using assms(3) by (simp_all add: compacted_def)
  have b: "backed m" using assms(1) by (simp add: store_ok_def)
  consider "x = s" | y where "y \<in> set (segments m)" "x = (if p_retire_source plan then retire_at (p_source_level plan) y else y)"
    using \<open>x \<in> set (segments M)\<close> segs by (auto split: if_splits)
  then show "backed_seg M x"
  proof cases
    case 1
    show ?thesis unfolding backed_seg_def 1 f(2)
    proof (intro impI allI ballI)
      fix k v
      assume "v \<in> set (segment_records k s)"
      then obtain e where e: "e \<in> set (seg_block_table s)" "be_key e = k" "v = entry_version e"
        using output_records(3) [OF assms(2)] by auto
      then have "dominated l (entry_node e)" using dom(2) by simp
      then show "\<exists>n \<in> set (sorted_nodes (levels M ! p_destination_level plan)). n_key n = k \<and> fst v \<le> n_timestamp n"
        using e su [OF f(1)] by (auto simp: dominated_def entry_version_def)
    qed
  next
    case 2
    show ?thesis unfolding backed_seg_def
    proof (intro impI allI ballI)
      fix k v
      assume lv: "seg_level x < IMR_LSM_MAX_LEVEL" and v: "v \<in> set (segment_records k x)"
      have "seg_level x = seg_level y" using 2(2) by (simp add: retire_at_def)
      moreover have "\<not> (p_retire_source plan \<and> seg_level y = p_source_level plan) \<and> v \<in> set (segment_records k y)"
        using v unfolding 2(2) by (auto simp: retire_at_records split: if_splits)
      ultimately have y: "seg_level x = seg_level y" "\<not> (p_retire_source plan \<and> seg_level y = p_source_level plan)"
        "v \<in> set (segment_records k y)" by simp_all
      then obtain n where n: "n \<in> set (sorted_nodes (levels m ! seg_level y))" "n_key n = k" "fst v \<le> n_timestamp n"
        using b 2(1) lv unfolding backed_def backed_seg_def by metis
      have lt: "seg_level y < IMR_LSM_LEVELS" using lv y(1) by (simp add: lsm_consts)
      show "\<exists>n \<in> set (sorted_nodes (levels M ! seg_level x)). n_key n = k \<and> fst v \<le> n_timestamp n"
      proof (cases "seg_level y = p_destination_level plan")
        case True
        then have "dominated l n" using dom(1) n(1) by simp
        then show ?thesis using n su [OF lt] True y(1) by (auto simp: dominated_def intro: le_trans)
      next
        case False
        then show ?thesis using n su [OF lt] y by auto
      qed
    qed
  qed
qed

lemma compacted_ok:
  assumes "store_ok m" "plan_fits plan s before moved rest m" "compacted plan s before rest l m M"
  shows "store_ok M" "newest M = newest m"
proof -
  have c: "\<forall>i < IMR_LSM_LEVELS. level_ok (levels M ! i)" "length (levels M) = IMR_LSM_LEVELS" "lsm_timestamp M = lsm_timestamp m"
    "segments M = map (if p_retire_source plan then retire_at (p_source_level plan) else id) (segments m) @ [s]"
    using assms(3) by (simp_all add: compacted_def)
  note sub = compacted_subset [OF assms] and dom = compacted_dominates [OF assms]
  have live: "\<forall>x \<in> set (segments M). live_seg_ok x"
    using assms(1) output_records(4) [OF assms(2)] unfolding c(4)
    by (auto simp: store_ok_def retire_at_def live_seg_ok_def)
  have "\<exists>v \<in> consulted (n_key n) M. n_timestamp n \<le> fst v" if n: "i < IMR_LSM_LEVELS" "n \<in> set (sorted_nodes (levels M ! i))" for i n
  proof -
    have "node_version n \<in> set (scan_records (n_key n) m)" using sub(2) [OF n(1)] n(2) by (auto simp: node_versions_def)
    from dom [OF this] show ?thesis by (simp add: node_version_def)
  qed
  then have cov: "covered M" by (auto simp: covered_def)
  have uniq: "versions_unique (set (scan_records k M))" for k
    using scan_bounds(3) [OF assms(1), of k] sub(3) [of k] unfolding versions_unique_def by blast
  have bnd: "0 < fst v \<and> fst v \<le> lsm_timestamp m" if "v \<in> set (scan_records k M)" for v k
    using sub(3) [of k] that scan_bounds(1,2) [OF assms(1), of v k] by blast
  show ok: "store_ok M" unfolding store_ok_def c(3) using c(1,2) live cov compacted_backed [OF assms] uniq bnd by blast
  show "newest M = newest m"
  proof
    fix k
    show "newest M k = newest m k"
      by (rule newest_thin [OF assms(1) ok sub(3)]) (use dom [of _ k] scan_union [OF c(1), of k] in blast)
  qed
qed

text \<open>Publishing a plan that fits: readers see no difference.\<close>

lemma publish_fits_ok:
  assumes "lsm_ok m" "plan_fits plan s before moved rest m" "p_output_segment plan = Some s"
    "imr_lsm_validate_level_compaction_plan_locked d plan m = (0, before)"
    "imr_lsm_publish_level_compaction_locked c d plan m = (ret, plan', m')"
  shows "ret = 0 \<and> lsm_ok m' \<and> newest m' = newest m \<and> initialized m' = initialized m \<and> lsm_timestamp m' = lsm_timestamp m"
proof -
  have so: "store_ok m" using assms(1) by (simp add: lsm_ok_def)
  obtain plan1 m1 where u: "unlink_inputs plan before m = (plan1, m1)" by fastforce
  obtain plan2 m2 where g: "imr_lsm_merge_prepared_sorted_locked plan1 m1 = (plan2, m2)" by fastforce
  have lv: "p_retire_source plan \<longrightarrow> seg_level s \<noteq> p_source_level plan" using assms(2) by (auto simp: plan_fits_def)
  note pe = publish_effect [OF assms(4,3) lv u g assms(5)]
  obtain l n d' where mg: "merge_prepared (sorted_nodes (levels m ! p_destination_level plan)) (map entry_node (seg_block_table s))
       (p_discarded_prepared_sorted_head plan) = (l, n, d')"
    and lists: "\<forall>i < IMR_LSM_LEVELS. unsorted_nodes (levels m2 ! i) =
       (if i = p_source_level plan then before @ rest else unsorted_nodes (levels m ! i))"
    "\<forall>i < IMR_LSM_LEVELS. sorted_nodes (levels m2 ! i) = (if i = p_destination_level plan then l
       else if i = p_source_level plan \<and> p_retire_source plan then [] else sorted_nodes (levels m ! i))"
    "\<forall>i < IMR_LSM_LEVELS. level_ok (levels m2 ! i)" and m2: "\<exists>L. m2 = m\<lparr>levels := L\<rparr> \<and> length L = IMR_LSM_LEVELS"
    by (rule unlink_merge [OF so assms(2) u g])
  obtain L where L: "m2 = m\<lparr>levels := L\<rparr>" "length L = IMR_LSM_LEVELS" using m2 by blast
  define M where "M = with_output plan s m2"
  have flds: "segments M = map (if p_retire_source plan then retire_at (p_source_level plan) else id) (segments m) @ [s]"
    "levels M = levels m2" "lsm_timestamp M = lsm_timestamp m" "length (levels M) = IMR_LSM_LEVELS"
    "read_lru M = read_lru m" "read_tree_size M = read_tree_size m" "read_tree_limit M = read_tree_limit m"
    "initialized M = initialized m"
    unfolding M_def with_output_def L(1) using L(2) by simp_all
  have "compacted plan s before rest l m M"
    unfolding compacted_def flds using lists flds(4) merge_versions [OF mg] by (simp add: flds(2))
  note cm = compacted_ok [OF so assms(2) this]
  have "lsm_ok M" using cm assms(1) cache_ok_cong [of M m] cached_cong [of M m] flds by (simp add: lsm_ok_def)
  then show ?thesis using pe lsm_same_simps [of m' M] cm(2) flds by (simp add: M_def)
qed

section \<open>What the foreground does to the lists\<close>

text \<open>Same records, same epoch.\<close>

definition ext_same :: "imr_lsm_metadata \<Rightarrow> imr_lsm_metadata \<Rightarrow> bool" where
  "ext_same m' m \<longleftrightarrow> store_eq m' m \<and> initialized m' = initialized m \<and> metadata_epoch m' = metadata_epoch m"

lemma ext_same_refl [simp]: "ext_same m m"
  by (simp add: ext_same_def)

lemma ext_same_trans: "ext_same a b \<Longrightarrow> ext_same b c \<Longrightarrow> ext_same a c"
  by (auto simp: ext_same_def intro: store_eq_trans)

lemma ext_same_cache: "cache_core m' = cache_core m \<Longrightarrow> ext_same m' m"
  using store_eq_cache cache_coreD(7,12) unfolding ext_same_def by blast

lemma ext_same_idx: "idx_core m' = idx_core m \<Longrightarrow> ext_same m' m"
  using store_eq_idx idx_coreD(7,8) unfolding ext_same_def by blast

lemma ext_same_stat [simp]: "ext_same (stat_add f i m) m" "ext_same (stat_sets xs m) m" "ext_same (stat_adds xs m) m"
  by (rule ext_same_cache, simp)+

lemma ext_same_calculate [simp]: "ext_same (imr_lsm_calculate_dynamic_levels_locked c m) m"
proof -
  have "lsm_same (imr_lsm_calculate_dynamic_levels_locked c m) m" by simp
  moreover have "metadata_epoch (imr_lsm_calculate_dynamic_levels_locked c m) = metadata_epoch m"
    by (simp add: imr_lsm_calculate_dynamic_levels_locked_def Let_def split: prod.split)
  ultimately show ?thesis by (simp add: ext_same_def lsm_same_def)
qed

lemma ext_same_pending [simp]: "ext_same (imr_lsm_mark_level_compaction_pending_locked c m) m"
proof -
  obtain b m1 where n: "imr_lsm_level_compaction_needed_locked c m = (b, m1)" by (cases "imr_lsm_level_compaction_needed_locked c m")
  let ?c = "imr_lsm_calculate_dynamic_levels_locked c m"
  have "m1 = ?c \<or> m1 = imr_lsm_calculate_dynamic_levels_locked c ?c"
    using n by (auto simp: imr_lsm_level_compaction_needed_locked_def imr_lsm_pick_compaction_level_locked_def Let_def
        split: if_splits prod.splits)
  then have 1: "ext_same m1 m" using ext_same_trans [OF ext_same_calculate ext_same_calculate] ext_same_calculate by blast
  have "ext_same (m1\<lparr>level_compaction_pending := True\<rparr>) m1" by (simp add: ext_same_def store_eq_def)
  then have 2: "ext_same (stat_inc x (m1\<lparr>level_compaction_pending := True\<rparr>)) m1" for x by (rule ext_same_trans [OF ext_same_stat(1)])
  show ?thesis using 1 ext_same_trans [OF 2 1]
    by (simp add: imr_lsm_mark_level_compaction_pending_locked_def n)
qed

lemma append_ext:
  assumes "imr_lsm_append_unsorted_node_locked c level key pba zone_idx valid m = (ret, m')"
  shows "ext_same m' m \<or> (\<exists>node. n_timestamp node = lsm_timestamp m + 1 \<and> ext_same m' (pushed level node m))"
proof -
  obtain ok mem where k: "kalloc (kmem m) = (ok, mem)" by (cases "kalloc (kmem m)")
  let ?m0 = "m\<lparr>kmem := mem\<rparr>"
  show ?thesis
  proof (cases ok)
    case False
    then have "m' = ?m0" using assms k by (simp add: imr_lsm_append_unsorted_node_locked_def)
    then show ?thesis by (simp add: ext_same_def store_eq_def)
  next
    case True
    define node where "node = \<lparr>n_key = key, n_pba = pba, n_zone_idx = zone_idx, n_valid = valid, n_timestamp = lsm_timestamp m + 1\<rparr>"
    define m2 where "m2 = snd (imr_lsm_newest_index_update_locked key (lsm_timestamp m + 1) valid (pushed level node ?m0))"
    define m3 where "m3 = imr_lsm_tree_update_locked key pba valid (lsm_timestamp m + 1) m2"
    have "m' = imr_lsm_mark_level_compaction_pending_locked c m3"
      using assms k True by (simp add: imr_lsm_append_unsorted_node_locked_def Let_def m3_def m2_def pushed_def node_def)
    then have 3: "ext_same m' m3" by simp
    have 2: "ext_same m3 m2" unfolding m3_def by (rule ext_same_cache) simp
    have 1: "ext_same m2 (pushed level node ?m0)" unfolding m2_def by (rule ext_same_idx) simp
    have 0: "ext_same (pushed level node ?m0) (pushed level node m)" by (simp add: ext_same_def store_eq_def pushed_def)
    have "ext_same m' (pushed level node m)"
      using ext_same_trans [OF 3 ext_same_trans [OF 2 ext_same_trans [OF 1 0]]] .
    moreover have "n_timestamp node = lsm_timestamp m + 1" by (simp add: node_def)
    ultimately show ?thesis by blast
  qed
qed

lemma read_ext:
  assumes "store_ok m0" "imr_lsm_read key m0 = (r, p, m')"
  shows "ext_same m' m0"
proof (cases "initialized m0")
  case False
  then have "m' = stat_inc ''read_miss_count'' (stat_inc ''read_lookup_count'' m0)"
    using assms(2) by (simp add: imr_lsm_read_def stat_add_def)
  then show ?thesis using ext_same_trans [OF ext_same_stat(1) ext_same_stat(1)] by simp
next
  case True
  define m where "m = stat_inc ''read_lookup_count'' m0"
  obtain r1 p1 t1 m1 where l: "imr_lsm_tree_lookup_locked key m = (r1, p1, t1, m1)" by (metis prod_cases4)
  have "cache_core m1 = cache_core m" using cache_ops_core(1) [of key m] l by simp
  then have e1: "ext_same m1 m0" using ext_same_trans [OF ext_same_cache ext_same_stat(1)] unfolding m_def by blast
  then have so1: "store_ok m1" using assms(1) store_eq_ok [of m1 m0] by (simp add: ext_same_def)
  note alt = read_alt [OF True m_def l]
  show ?thesis
  proof (cases "r1 = IMR_LSM_LOOKUP_MISS")
    case False
    then obtain x where "m' = stat_inc x m1" using assms(2) alt by (cases r1) auto
    then show ?thesis using ext_same_trans [OF ext_same_stat(1) e1] by simp
  next
    case miss: True
    obtain st f m2 where fold: "fold (read_level key) [0..<IMR_LSM_LEVELS]
          (read_unsorted key m1 (IMR_LSM_LOOKUP_MISS, 0, False, IMR_LSM_READ_SOURCE_NONE, 0), zero_filter, m1) = (st, f, m2)"
      by (metis prod_cases3)
    obtain segs where "m2 = m1\<lparr>segments := segs\<rparr>" "map seg_core segs = map seg_core (segments m1)"
      using read_scan_ok [OF so1 fold] by blast
    then have "ext_same m2 m1" using store_eq_segs [of segs m1] by (simp add: ext_same_def)
    then have e2: "ext_same m2 m0" by (rule ext_same_trans [OF _ e1])
    have fin: "(r, p, m') = read_finish key (st, f, m2)" using assms(2) alt miss fold by simp
    obtain r2 t2 v2 src2 p2 where st: "st = (r2, t2, v2, src2, p2)" by (metis prod_cases5)
    have m3: "ext_same (record_filter_stats key f m2) m0"
      unfolding record_filter_stats_def using ext_same_trans [OF ext_same_stat(2) ext_same_trans [OF ext_same_stat(3) e2]] .
    have up: "ext_same (imr_lsm_tree_update_locked key p2 v2 t2 (record_filter_stats key f m2)) m0"
      by (rule ext_same_trans [OF ext_same_cache m3]) simp
    have "ext_same (stat_inc x (imr_lsm_tree_update_locked key p2 v2 t2 (record_filter_stats key f m2))) m0"
      "ext_same (stat_inc x (record_filter_stats key f m2)) m0" for x
      using ext_same_trans [OF ext_same_stat(1) up] ext_same_trans [OF ext_same_stat(1) m3] by blast+
    then show ?thesis using fin up unfolding st read_finish_def by (cases r2; cases v2) (simp_all add: Let_def)
  qed
qed

lemma ext_same_timestamp: "ext_same m' m \<Longrightarrow> lsm_timestamp m' = lsm_timestamp m"
  by (simp add: ext_same_def store_eq_def)

lemma pushed_ext: "ext_same m' m \<Longrightarrow> ext_same (pushed level node m') (pushed level node m)"
  by (simp add: ext_same_def store_eq_def pushed_def)

lemma append_ext_trans:
  assumes "imr_lsm_append_unsorted_node_locked c level key pba zone_idx valid m1 = (ret, m2)" "ext_same m1 m" "ext_same m' m2"
  shows "ext_same m' m \<or> (\<exists>node. n_timestamp node = lsm_timestamp m + 1 \<and> ext_same m' (pushed level node m))"
  using append_ext [OF assms(1)]
proof
  assume "ext_same m2 m1"
  then show ?thesis using ext_same_trans [OF assms(3) ext_same_trans [OF _ assms(2)]] by blast
next
  assume "\<exists>node. n_timestamp node = lsm_timestamp m1 + 1 \<and> ext_same m2 (pushed level node m1)"
  then obtain node where "n_timestamp node = lsm_timestamp m1 + 1" "ext_same m2 (pushed level node m1)" by blast
  then show ?thesis
    using ext_same_trans [OF assms(3) ext_same_trans [OF _ pushed_ext [OF assms(2)]]] ext_same_timestamp [OF assms(2)] by metis
qed

text \<open>One operation of the foreground on an initialised LSM.\<close>

inductive foreground :: "imr_lsm_config \<Rightarrow> imr_lsm_metadata \<Rightarrow> imr_lsm_metadata \<Rightarrow> bool" for c where
  fg_read: "imr_lsm_read key m = (result, pba, m') \<Longrightarrow> foreground c m m'"
| fg_write: "imr_lsm_record_insert c zone_idx logical_lba physical_lba m = (ret, m') \<Longrightarrow> foreground c m m'"
| fg_delete: "imr_lsm_delete_locked c key m = (ret, m') \<Longrightarrow> foreground c m m'"
| fg_count: "m' = imr_lsm_record_logical_write m \<Longrightarrow> foreground c m m'"
| fg_fallback: "m' = imr_lsm_record_fallback m \<Longrightarrow> foreground c m m'"

lemma ext_same_lookup [simp]: "ext_same (imr_lsm_tree_remove_locked key m) m"
  by (rule ext_same_cache) simp

lemma foreground_ext:
  assumes "store_ok m" "initialized m" "foreground c m m'"
  shows "ext_same m' m \<or> (\<exists>level node. level < IMR_LSM_LEVELS \<and> n_timestamp node = lsm_timestamp m + 1 \<and> ext_same m' (pushed level node m))"
  using assms(3)
proof cases
  case (fg_read key r p)
  then show ?thesis using read_ext [OF assms(1)] by blast
next
  case (fg_write z lba pba ret)
  define m1 where "m1 = imr_lsm_calculate_dynamic_levels_locked c (stat_inc ''lsm_record_insert_count'' m)"
  have e1: "ext_same m1 m" unfolding m1_def by (rule ext_same_trans [OF ext_same_calculate ext_same_stat(1)])
  obtain r2 m2 where a: "imr_lsm_append_unsorted_node_locked c 0 (lba div 2 ^ IMR_BLOCK_SIZE_SHIFT) pba z True m1 = (r2, m2)"
    by (metis prod.exhaust)
  have "m' = (if r2 = 0 then stat_inc ''lsm_write_count'' m2 else m2)"
    using fg_write assms(2) a
    by (auto simp: imr_lsm_record_insert_def imr_lsm_insert_def imr_lsm_unsorted_write_def imr_lsm_append_unsorting_node_def
        Let_def m1_def stat_add_def lsm_consts)
  then have "ext_same m' m2" by simp
  moreover have "0 < IMR_LSM_LEVELS" by (simp add: lsm_consts)
  ultimately show ?thesis using append_ext_trans [OF a e1, of m'] by blast
next
  case (fg_delete key ret)
  define m1 where "m1 = imr_lsm_tree_remove_locked key (imr_lsm_calculate_dynamic_levels_locked c m)"
  have e1: "ext_same m1 m" unfolding m1_def by (rule ext_same_trans [OF ext_same_lookup ext_same_calculate])
  have "active_write_level m1 = 0" unfolding m1_def by (simp add: cache_coreD(8) [OF cache_ops_core(2)])
  moreover obtain r2 m2 where a: "imr_lsm_append_unsorted_node_locked c (active_write_level m1) key 0 0 False m1 = (r2, m2)"
    by (metis prod.exhaust)
  moreover have "m' = (if r2 = 0 then stat_inc ''delete_count'' m2 else m2)"
    using fg_delete assms(2) a by (auto simp: imr_lsm_delete_locked_def Let_def m1_def [symmetric])
  then have "ext_same m' m2" by simp
  moreover have "0 < IMR_LSM_LEVELS" by (simp add: lsm_consts)
  ultimately show ?thesis using append_ext_trans [OF a e1, of m'] by metis
next
  case fg_count
  then show ?thesis using assms(2) by (simp add: imr_lsm_record_logical_write_def)
next
  case fg_fallback
  then show ?thesis using assms(2) by (simp add: imr_lsm_record_fallback_def)
qed

text \<open>The state after any number of foreground operations: the lists of the levels have only grown at
  the front of the unsorted ones.\<close>

definition extends :: "imr_lsm_metadata \<Rightarrow> imr_lsm_metadata \<Rightarrow> bool" where
  "extends m0 m \<longleftrightarrow> lsm_ok m \<and> initialized m \<and> metadata_epoch m = metadata_epoch m0 \<and>
     lsm_timestamp m0 \<le> lsm_timestamp m \<and>
     (\<forall>l < IMR_LSM_LEVELS. sorted_nodes (levels m ! l) = sorted_nodes (levels m0 ! l) \<and>
        (\<exists>new. unsorted_nodes (levels m ! l) = new @ unsorted_nodes (levels m0 ! l) \<and>
           (\<forall>n \<in> set new. lsm_timestamp m0 < n_timestamp n)))"

lemma extends_refl: "lsm_ok m \<Longrightarrow> initialized m \<Longrightarrow> extends m m"
  by (auto simp: extends_def)

lemma extends_same:
  assumes "extends m0 m" "ext_same m' m" "lsm_ok m'"
  shows "extends m0 m'"
  using assms by (simp add: extends_def ext_same_def store_eq_def)

lemma extends_pushed:
  assumes "extends m0 m" "level < IMR_LSM_LEVELS" "n_timestamp node = lsm_timestamp m + 1" "ext_same m' (pushed level node m)" "lsm_ok m'"
  shows "extends m0 m'"
proof -
  have len: "length (levels m) = IMR_LSM_LEVELS" using assms(1) by (simp add: extends_def lsm_ok_def store_ok_def)
  have lv: "levels m' = levels (pushed level node m)" "lsm_timestamp m' = lsm_timestamp m + 1" "initialized m'"
    "metadata_epoch m' = metadata_epoch m0"
    using assms(1,3,4) by (simp_all add: ext_same_def store_eq_def pushed_def extends_def)
  have so: "sorted_nodes (levels m' ! l) = sorted_nodes (levels m ! l)"
    "unsorted_nodes (levels m' ! l) = (if l = level then [node] else []) @ unsorted_nodes (levels m ! l)" for l
    using assms(2) len by (cases "l = level"; simp add: lv(1) pushed_def)+
  have ts: "lsm_timestamp m0 \<le> lsm_timestamp m" using assms(1) by (simp add: extends_def)
  have "\<exists>new. unsorted_nodes (levels m' ! l) = new @ unsorted_nodes (levels m0 ! l) \<and> (\<forall>n \<in> set new. lsm_timestamp m0 < n_timestamp n)"
    if l: "l < IMR_LSM_LEVELS" for l
  proof -
    obtain new where "unsorted_nodes (levels m ! l) = new @ unsorted_nodes (levels m0 ! l)" "\<forall>n \<in> set new. lsm_timestamp m0 < n_timestamp n"
      using assms(1) l by (auto simp: extends_def)
    then show ?thesis using so(2) [of l] assms(3) ts
      by (intro exI [of _ "(if l = level then [node] else []) @ new"]) auto
  qed
  then show ?thesis using assms(1,5) lv so(1) ts by (simp add: extends_def)
qed

lemma foreground_lsm_ok:
  assumes "lsm_ok m" "initialized m" "foreground c m m'"
  shows "lsm_ok m' \<and> initialized m'"
proof -
  have inv: "lsm_inv m" using assms(1) by (simp add: lsm_inv_def)
  from assms(3) show ?thesis
  proof cases
    case (fg_read key r p)
    then show ?thesis using read_ok [OF assms(1,2), of key] assms(2) by (simp add: read_result_ok_def)
  next
    case (fg_write z lba pba ret)
    then show ?thesis using record_insert_writes [OF inv, of lba pba c z] by (simp add: writes_def)
  next
    case (fg_delete key ret)
    then show ?thesis using delete_writes [OF inv, of key c] by (simp add: writes_def)
  next
    case fg_count
    then show ?thesis using assms lsm_same_simps [OF lsm_same_stat(1), of "''logical_write_count''" 1 m]
      by (simp add: imr_lsm_record_logical_write_def)
  next
    case fg_fallback
    then show ?thesis using assms lsm_same_simps [OF lsm_same_stat(1), of "''fallback_count''" 1 m]
      by (simp add: imr_lsm_record_fallback_def)
  qed
qed

lemma foreground_extends:
  assumes "(foreground c)\<^sup>*\<^sup>* m m'" "lsm_ok m" "initialized m"
  shows "extends m m'"
  using assms(1)
proof (induction rule: rtranclp_induct)
  case base
  show ?case by (rule extends_refl [OF assms(2,3)])
next
  case (step m1 m2)
  have ok: "lsm_ok m1" "store_ok m1" "initialized m1" using step.IH by (simp_all add: extends_def lsm_ok_def)
  note ok2 = conjunct1 [OF foreground_lsm_ok [OF ok(1,3) step.hyps(2)]]
  show ?case using foreground_ext [OF ok(2,3) step.hyps(2)] extends_same [OF step.IH _ ok2] extends_pushed [OF step.IH _ _ _ ok2]
    by blast
qed

section \<open>A prepared plan still fits after foreground operations\<close>

lemma dst_level_bounds:
  assumes "imr_lsm_compaction_dst_level_locked c level m = (dst, m')" "level < IMR_LSM_LEVELS"
  shows "dst < IMR_LSM_LEVELS" "dst \<noteq> level \<Longrightarrow> level < IMR_LSM_MAX_LEVEL" "lsm_same m' m" "metadata_epoch m' = metadata_epoch m"
    "kmem m' = kmem m"
proof -
  have c: "ext_same (imr_lsm_calculate_dynamic_levels_locked c m) m" by simp
  have "dst \<le> IMR_LSM_MAX_LEVEL \<and> (dst \<noteq> level \<longrightarrow> level < IMR_LSM_MAX_LEVEL) \<and> (m' = m \<or> m' = imr_lsm_calculate_dynamic_levels_locked c m)"
    using assms by (auto simp: imr_lsm_compaction_dst_level_locked_def Let_def find_Some_iff lsm_consts split: if_splits option.splits)
  then show "dst < IMR_LSM_LEVELS" "dst \<noteq> level \<Longrightarrow> level < IMR_LSM_MAX_LEVEL" "lsm_same m' m" "metadata_epoch m' = metadata_epoch m"
    "kmem m' = kmem m"
    using c by (auto simp: lsm_consts ext_same_def)
qed

text \<open>What preparation puts into a plan.\<close>

definition plan_of :: "imr_lsm_level_compaction_plan \<Rightarrow> nat option \<Rightarrow> imr_lsm_metadata \<Rightarrow> bool" where
  "plan_of plan bdev m \<longleftrightarrow>
     p_source_level plan < IMR_LSM_LEVELS \<and> p_destination_level plan < IMR_LSM_LEVELS \<and>
     (p_retire_source plan \<longrightarrow> p_source_level plan < IMR_LSM_MAX_LEVEL \<and> p_source_level plan \<noteq> p_destination_level plan) \<and>
     p_source_unsorted_head plan = unsorted_nodes (levels m ! p_source_level plan) \<and>
     p_source_unsorted_count plan \<le> length (p_source_unsorted_head plan) \<and>
     (p_source_unsorted_head plan \<noteq> [] \<longrightarrow> p_source_unsorted_count plan \<noteq> 0) \<and>
     (p_source_unsorted_count plan \<noteq> 0 \<longrightarrow>
        p_source_unsorted_tail plan = drop (p_source_unsorted_count plan - 1) (p_source_unsorted_head plan)) \<and>
     p_source_unsorted_after plan = drop (p_source_unsorted_count plan) (p_source_unsorted_head plan) \<and>
     p_source_sorted_head plan = moved_sorted plan m \<and> p_source_sorted_count plan = length (p_source_sorted_head plan) \<and>
     p_destination_sorted_head plan = sorted_nodes (levels m ! p_destination_level plan) \<and>
     p_destination_sorted_count plan = length (p_destination_sorted_head plan) \<and>
     p_metadata_epoch plan = metadata_epoch m \<and> p_output_bdev plan = bdev \<and> p_prepared plan \<and> \<not> p_published plan \<and>
     plan_inputs plan \<noteq> [] \<and> p_segment_builder plan = zero_builder \<and> p_prepared_sorted_head plan = []"

lemma prepare_plan_of:
  assumes "store_ok m" "0 < max_unsorted" "imr_lsm_prepare_level_compaction_locked c bdev level max_unsorted m = (ret, plan, m1)"
    "level < IMR_LSM_LEVELS"
  shows "lsm_same m1 m" "metadata_epoch m1 = metadata_epoch m" "kmem m1 = kmem m"
    "ret = 0" "p_prepared plan \<Longrightarrow> plan_of plan bdev m1 \<and> p_source_level plan = level"
proof -
  obtain dst m2 where d: "imr_lsm_compaction_dst_level_locked c level m = (dst, m2)" by fastforce
  note db = dst_level_bounds [OF d assms(4)]
  have lv: "levels m2 = levels m" using db(3) by (simp add: lsm_same_def store_eq_def)
  have ok: "unsorted_count (levels m2 ! i) = length (unsorted_nodes (levels m2 ! i))"
    "sorted_count (levels m2 ! i) = length (sorted_nodes (levels m2 ! i))" if "i < IMR_LSM_LEVELS" for i
    using assms(1) that by (simp_all add: lv store_ok_def level_ok_def)
  define chain where "chain = unsorted_nodes (levels m2 ! level)"
  define cnt where "cnt = min (length chain) max_unsorted"
  define mv where "mv \<longleftrightarrow> cnt = length chain"
  define retire where "retire \<longleftrightarrow> dst \<noteq> level \<and> mv"
  define sc where "sc = (if retire then sorted_count (levels m2 ! level) else 0)"
  define plan0 where "plan0 = zero_plan\<lparr>p_source_level := level, p_destination_level := dst, p_source_unsorted_count := cnt,
      p_move_sorted := mv, p_retire_source := retire, p_source_sorted_count := sc\<rparr>"
  define plan1 where "plan1 = plan0\<lparr>p_source_unsorted_head := chain,
      p_source_unsorted_tail := (if cnt = 0 then [] else drop (cnt - 1) chain), p_source_unsorted_after := drop cnt chain,
      p_source_sorted_head := (if retire then sorted_nodes (levels m2 ! level) else []),
      p_destination_sorted_head := sorted_nodes (levels m2 ! dst), p_destination_sorted_count := sorted_count (levels m2 ! dst),
      p_input_entries := cnt + sc, p_bloom_bits_per_key := imr_lsm_bloom_bits_per_key_locked c,
      p_metadata_epoch := metadata_epoch m2, p_output_bdev := bdev, p_prepared := True\<rparr>"
  have uc: "unsorted_count (levels m ! level) = length chain" using ok(1) [OF assms(4)] by (simp add: chain_def lv)
  have le: "\<not> length chain < cnt" by (simp add: cnt_def)
  have eq: "imr_lsm_prepare_level_compaction_locked c bdev level max_unsorted m = (if cnt = 0 \<and> sc = 0 then (0, plan0, m2) else (0, plan1, m2))"
    unfolding imr_lsm_prepare_level_compaction_locked_def Let_def d prod.case uc chain_def [symmetric] cnt_def [symmetric]
      mv_def [symmetric] retire_def [symmetric] sc_def [symmetric] plan0_def [symmetric]
    using assms(4) le by (simp add: plan1_def)
  then have r: "ret = 0" "m1 = m2" "plan = (if cnt = 0 \<and> sc = 0 then plan0 else plan1)" using assms(3) by (auto split: if_splits)
  show "lsm_same m1 m" "metadata_epoch m1 = metadata_epoch m" "kmem m1 = kmem m" "ret = 0" using r db by simp_all
  assume "p_prepared plan"
  then have ne: "\<not> (cnt = 0 \<and> sc = 0)" and plan: "plan = plan1" using r(3) by (auto simp: plan0_def zero_plan_def split: if_splits)
  have "retire \<longrightarrow> level < IMR_LSM_MAX_LEVEL \<and> level \<noteq> dst" using db(2) by (auto simp: retire_def)
  moreover have "cnt \<le> length chain" "chain \<noteq> [] \<longrightarrow> cnt \<noteq> 0" using assms(2) by (auto simp: cnt_def)
  moreover have "take cnt chain @ (if retire then sorted_nodes (levels m2 ! level) else []) \<noteq> []"
    using ne ok(2) [OF assms(4)] by (auto simp: sc_def cnt_def split: if_splits)
  moreover have "sc = length (if retire then sorted_nodes (levels m2 ! level) else [])" using ok(2) [OF assms(4)] by (simp add: sc_def)
  ultimately show "plan_of plan bdev m1 \<and> p_source_level plan = level"
    unfolding plan r(2) plan_of_def plan_inputs_def moved_sorted_def using assms(4) db(1) ok(2) [OF db(1)]
    by (simp add: plan1_def plan0_def zero_plan_def chain_def)
qed

lemma unsorted_timestamps:
  assumes "store_ok m" "l < IMR_LSM_LEVELS" "n \<in> set (unsorted_nodes (levels m ! l))"
  shows "n_timestamp n \<le> lsm_timestamp m"
proof -
  have "node_version n \<in> set (scan_records (n_key n) m)" using assms by (auto simp: scan_set node_versions_def)
  from scan_bounds(2) [OF assms(1) this] show ?thesis by (simp add: node_version_def)
qed

lemma takeWhile_new:
  assumes "\<forall>n \<in> set new. t < n_timestamp n" "\<forall>n \<in> set chain. n_timestamp n \<le> t"
  shows "takeWhile (\<lambda>n. \<not> same_unsorted [n] chain) (new @ chain) = new"
proof (cases chain)
  case Nil
  then show ?thesis by (simp add: same_unsorted_def)
next
  case (Cons h rest)
  have "\<not> same_unsorted [n] chain" if "n \<in> set new" for n using assms that Cons by (fastforce simp: same_unsorted_def)
  moreover have "same_unsorted [h] chain" by (simp add: same_unsorted_def Cons)
  ultimately show ?thesis using Cons by (simp add: takeWhile_tail)
qed

text \<open>The plan is validated after foreground operations, and fits.\<close>

lemma extended_plan:
  assumes "lsm_ok m1" "plan_of plan bdev m1" "imr_lsm_build_level_compaction_plan c plan mem = (0, plan', mem')" "extends m1 m2"
  obtains s before moved rest where "plan_fits plan' s before moved rest m2" "p_output_segment plan' = Some s"
    "imrsim_target_ready_locked d \<Longrightarrow> dev_output_bdev d = bdev \<Longrightarrow> imr_lsm_validate_level_compaction_plan_locked d plan' m2 = (0, before)"
proof -
  note po = assms(2) [unfolded plan_of_def]
  obtain s b where s: "p_output_segment plan' = Some s" "seg_ok s" "seg_level s = p_destination_level plan" "\<not> retired s"
    "\<And>k. table_version (seg_block_table s) k = foldl best None (versions_of (plan_inputs plan) k)"
    and plan': "plan' = plan\<lparr>p_segment_builder := b, p_output_entries := length (seg_block_table s), p_output_segment := Some s,
       p_prepared_sorted_head := map entry_node (seg_block_table s),
       p_prepared_sorted_count := p_prepared_sorted_count plan + length (seg_block_table s)\<rparr>"
    using build_plan_ok [OF assms(3)] po by metis
  let ?src = "p_source_level plan" and ?cnt = "p_source_unsorted_count plan"
  define chain where "chain = unsorted_nodes (levels m1 ! ?src)"
  have src: "?src < IMR_LSM_LEVELS" "p_destination_level plan < IMR_LSM_LEVELS" using po by simp_all
  have so: "store_ok m1" "store_ok m2" using assms(1,4) by (simp_all add: lsm_ok_def extends_def)
  obtain new where new: "unsorted_nodes (levels m2 ! ?src) = new @ chain" "\<forall>n \<in> set new. lsm_timestamp m1 < n_timestamp n"
    using assms(4) src(1) by (auto simp: extends_def chain_def)
  have sorted: "\<And>l. l < IMR_LSM_LEVELS \<Longrightarrow> sorted_nodes (levels m2 ! l) = sorted_nodes (levels m1 ! l)"
    using assms(4) by (simp add: extends_def)
  have ep: "metadata_epoch m2 = metadata_epoch m1" "initialized m2" using assms(4) by (simp_all add: extends_def)
  have ms: "moved_sorted plan' m2 = p_source_sorted_head plan" using po sorted [OF src(1)] by (simp add: moved_sorted_def plan')
  have inp: "plan_inputs plan = take ?cnt chain @ moved_sorted plan' m2" using po ms by (simp add: plan_inputs_def chain_def)
  have mn: "length (take ?cnt chain) = ?cnt" using po by (auto simp: chain_def min_def)
  have fits: "plan_fits plan' s new (take ?cnt chain) (drop ?cnt chain) m2"
    unfolding plan_fits_def using po new(1) s(2-4) s(5) [unfolded inp] mn by (simp add: plan')
  have tw: "takeWhile (\<lambda>n. \<not> same_unsorted [n] chain) (new @ chain) = new"
    using takeWhile_new [OF new(2)] unsorted_timestamps [OF so(1) src(1)] by (simp add: chain_def)
  have cnts: "unsorted_count (levels m2 ! ?src) = length (new @ chain)"
    "sorted_count (levels m2 ! ?src) = length (sorted_nodes (levels m1 ! ?src))"
    "sorted_count (levels m2 ! p_destination_level plan) = length (sorted_nodes (levels m1 ! p_destination_level plan))"
    using so(2) src new(1) sorted by (auto simp: store_ok_def level_ok_def)
  have "imr_lsm_validate_level_compaction_plan_locked d plan' m2 = (0, new)"
    if "imrsim_target_ready_locked d" "dev_output_bdev d = bdev"
  proof -
    have head: "p_source_unsorted_head plan = chain" "p_source_unsorted_after plan = drop ?cnt chain" "?cnt \<le> length chain"
      "?cnt \<noteq> 0 \<longrightarrow> p_source_unsorted_tail plan = drop (?cnt - 1) chain" "?cnt \<noteq> 0 \<longrightarrow> chain \<noteq> []"
      using po by (auto simp: chain_def)
    have ss: "same_unsorted xs xs" "same_sorted xs xs" for xs by (simp_all add: same_unsorted_def same_sorted_def)
    have sr: "p_retire_source plan \<longrightarrow> p_source_sorted_head plan = sorted_nodes (levels m1 ! ?src)"
      using po by (simp add: moved_sorted_def)
    have pf: "p_prepared plan" "\<not> p_published plan" "p_metadata_epoch plan = metadata_epoch m1" "p_output_bdev plan = bdev"
      "p_destination_sorted_head plan = sorted_nodes (levels m1 ! p_destination_level plan)"
      "p_destination_sorted_count plan = length (sorted_nodes (levels m1 ! p_destination_level plan))"
      "p_retire_source plan \<longrightarrow> p_source_sorted_count plan = length (sorted_nodes (levels m1 ! ?src))"
      using po sr by auto
    show ?thesis
      unfolding imr_lsm_validate_level_compaction_plan_locked_def Let_def plan'
      using pf that ep head sr by (cases "?cnt = 0") (simp_all add: new(1) tw cnts sorted src ss)
  qed
  then show ?thesis using that [OF fits s(1)] by blast
qed

section \<open>A compaction beside foreground operations\<close>

lemma window_state:
  assumes "lsm_same m1 m" "metadata_epoch m1 = metadata_epoch m" "lsm_ok m"
  shows "lsm_ok (m1\<lparr>kmem := mem\<rparr>)" "newest (m1\<lparr>kmem := mem\<rparr>) = newest m" "initialized (m1\<lparr>kmem := mem\<rparr>) = initialized m"
    "lsm_timestamp (m1\<lparr>kmem := mem\<rparr>) = lsm_timestamp m"
  using lsm_same_simps [OF lsm_same_trans [OF lsm_same_stat(4) assms(1)], of mem] assms(3) by simp_all

text \<open>After the first critical section: an error, no work, or a plan.\<close>

lemma prepare_section_ok:
  assumes "lsm_inv m" "config_ok c" "prepare_section c d automatic requested_level m = (ret, level, plan, m1)"
  shows "lsm_inv m1 \<and> contents m1 = contents m \<and> clock m1 = clock m"
    "ret = 0 \<Longrightarrow> p_prepared plan \<Longrightarrow> lsm_ok m1 \<and> initialized m1 \<and> plan_of plan (dev_output_bdev d) m1"
proof -
  define m0 where "m0 = (if initialized m then m else imr_lsm_initialize_metadata_locked m)"
  note e = ensure_initialized [OF assms(1) m0_def]
  define ma where "ma = imr_lsm_calculate_dynamic_levels_locked c m0"
  have sa: "lsm_same ma m0" by (simp add: ma_def)
  obtain lvl mb where pk: "imr_lsm_pick_compaction_level_locked c ma = (lvl, mb)" by fastforce
  have "mb = imr_lsm_calculate_dynamic_levels_locked c ma"
    using pk by (auto simp: imr_lsm_pick_compaction_level_locked_def Let_def split: prod.splits)
  then have sb: "lsm_same mb m0" using lsm_same_trans [OF lsm_same_calculate sa] by simp
  have good: "lsm_inv x \<and> contents x = contents m \<and> clock x = clock m" if "lsm_same x m0" for x
    using lsm_same_simps [OF that] e by (simp add: lsm_inv_def contents_def clock_def)
  have prep: "(lsm_inv m1 \<and> contents m1 = contents m \<and> clock m1 = clock m) \<and>
      (ret = 0 \<longrightarrow> p_prepared plan \<longrightarrow> lsm_ok m1 \<and> initialized m1 \<and> plan_of plan (dev_output_bdev d) m1)"
    if s: "lsm_same x m0" and p: "imr_lsm_prepare_level_compaction_locked c (dev_output_bdev d) l mx x = (ret, plan, m1)" "0 < mx" "l < IMR_LSM_LEVELS" for x l mx
  proof -
    have ok: "lsm_ok x" "store_ok x" "initialized x" using lsm_same_simps [OF s] e by (simp_all add: lsm_ok_def)
    note pp = prepare_plan_of [OF ok(2) p(2,1,3)]
    show ?thesis using good [OF lsm_same_trans [OF pp(1) s]] lsm_same_simps [OF pp(1)] ok pp(5) by simp
  qed
  have none: "\<not> p_prepared zero_plan" by (simp add: zero_plan_def)
  have pos: "0 < u32_max" "0 < imr_lsm_compaction_threshold_locked c" "IMR_LSM_MAX_LEVEL < IMR_LSM_LEVELS"
    using assms(2) by (simp_all add: u32_max_def config_ok_def lsm_consts)
  have same: "lsm_inv m \<and> contents m = contents m \<and> clock m = clock m" using assms(1) by simp
  have "(lsm_inv m1 \<and> contents m1 = contents m \<and> clock m1 = clock m) \<and>
      (ret = 0 \<longrightarrow> p_prepared plan \<longrightarrow> lsm_ok m1 \<and> initialized m1 \<and> plan_of plan (dev_output_bdev d) m1)"
  proof (cases "\<not> imrsim_target_ready_locked d \<or> dev_output_bdev d = None \<or> \<not> initialized m \<and> automatic")
    case True
    then have "prepare_section c d automatic requested_level m = (K_ENODEV, requested_level, zero_plan, m)"
      unfolding prepare_section_def by (elim disjE) simp_all
    then have "ret = K_ENODEV" "m1 = m" using assms(3) by simp_all
    then show ?thesis using same by simp
  next
    case False
    note def = assms(3) [unfolded prepare_section_def Let_def, folded m0_def, folded ma_def]
    show ?thesis
    proof (cases automatic)
      case True
      show ?thesis
      proof (cases "base_level ma < IMR_LSM_MAX_LEVEL \<and> unsorted_count (levels ma ! IMR_LSM_MAX_LEVEL) \<noteq> 0")
        case t: True
        then have "imr_lsm_prepare_level_compaction_locked c (dev_output_bdev d) IMR_LSM_MAX_LEVEL u32_max ma = (ret, plan, m1)"
          using def False True by (auto split: prod.splits)
        then show ?thesis using prep [OF sa _ pos(1,3)] by blast
      next
        case f: False
        show ?thesis
        proof (cases "lvl < IMR_LSM_LEVELS")
          case lt: True
          let ?mx = "if lvl = IMR_LSM_DEFAULT_UNSORTED_LEVEL then imr_lsm_compaction_threshold_locked c else u32_max"
          have "imr_lsm_prepare_level_compaction_locked c (dev_output_bdev d) lvl ?mx mb = (ret, plan, m1)"
            using def False True f lt pk by (auto split: prod.splits)
          moreover have "0 < ?mx" using pos by simp
          ultimately show ?thesis using prep [OF sb _ _ lt] by blast
        next
          case ge: False
          then have "plan = zero_plan" "m1 = mb" using def False True f pk by auto
          then show ?thesis using good [OF sb] none by simp
        qed
      qed
    next
      case man: False
      show ?thesis
      proof (cases "requested_level < IMR_LSM_LEVELS")
        case True
        then have "imr_lsm_prepare_level_compaction_locked c (dev_output_bdev d) requested_level u32_max m0 = (ret, plan, m1)"
          using def False man by (auto split: prod.splits)
        then show ?thesis using prep [OF lsm_same_refl _ pos(1) True] by blast
      next
        case f: False
        then have "plan = zero_plan" "m1 = m0" using def False man by auto
        then show ?thesis using good [OF lsm_same_refl] none by simp
      qed
    qed
  qed
  then show "lsm_inv m1 \<and> contents m1 = contents m \<and> clock m1 = clock m"
    "ret = 0 \<Longrightarrow> p_prepared plan \<Longrightarrow> lsm_ok m1 \<and> initialized m1 \<and> plan_of plan (dev_output_bdev d) m1" by simp_all
qed

text \<open>The build of a prepared plan can only run out of memory.\<close>

lemma reserve_ret: "fst (imr_lsm_segment_builder_reserve_block_table th b m) \<in> {0, K_ENOMEM}"
  by (auto simp: imr_lsm_segment_builder_reserve_block_table_def Let_def split: prod.splits bool.splits)

lemma add_block_entry_ret: "fst (imr_lsm_segment_builder_add_block_entry th n b m) \<in> {0, K_ENOMEM}"
  using reserve_ret [of th b m] by (auto simp: imr_lsm_segment_builder_add_block_entry_def Let_def split: prod.splits)

lemma builder_add_ret: "fst (imr_lsm_segment_builder_add th n b m) \<in> {0, K_ENOMEM}"
  using add_block_entry_ret [of th n b m] by (auto simp: imr_lsm_segment_builder_add_def Let_def split: prod.splits)

lemma add_chain_ret:
  "k \<le> length ns \<Longrightarrow> add_chain th k ns b m = (r, b', rest, m') \<Longrightarrow> r = K_ENOMEM \<or> r = 0 \<and> rest = drop k ns"
proof (induction th k ns b m rule: add_chain.induct)
  case (3 th k n ns b m)
  obtain r1 b1 m1 where a: "imr_lsm_segment_builder_add th n b m = (r1, b1, m1)" by (metis prod_cases3)
  have r1: "r1 \<in> {0, K_ENOMEM}" using builder_add_ret [of th n b m] a by simp
  show ?case
  proof (cases "r1 = 0")
    case True
    then show ?thesis using "3.IH" [OF a [symmetric] refl] "3.prems" a by simp
  next
    case False
    then show ?thesis using "3.prems"(2) a r1 by auto
  qed
qed simp_all

lemma build_nodes_ret: "fst (build_nodes es plan mem) \<in> {0, K_ENOMEM}"
  by (induction es arbitrary: plan mem) (auto split: prod.splits bool.splits)

lemma prepare_segment_ret: "fst (imr_lsm_prepare_segment level t b bits m) \<in> {0, K_ENOMEM}"
  by (auto simp: imr_lsm_prepare_segment_def imr_lsm_segment_build_bloom_def Let_def split: prod.splits bool.splits)

lemma build_plan_ret:
  assumes "plan_of plan bdev m" "imr_lsm_build_level_compaction_plan c plan mem = (r, plan', mem')"
  shows "r = 0 \<or> r = K_ENOMEM"
proof -
  let ?th = "imr_lsm_compaction_threshold_locked c"
  have len: "p_source_unsorted_count plan \<le> length (p_source_unsorted_head plan)"
    "p_source_sorted_count plan = length (p_source_sorted_head plan)"
    "p_source_unsorted_after plan = drop (p_source_unsorted_count plan) (p_source_unsorted_head plan)"
    using assms(1) unfolding plan_of_def by blast+
  obtain r1 b1 rest1 mem1 where 1: "add_chain ?th (p_source_unsorted_count plan) (p_source_unsorted_head plan) (p_segment_builder plan) mem =
      (r1, b1, rest1, mem1)" by (metis prod_cases4)
  obtain r2 b2 rest2 mem2 where 2: "add_chain ?th (p_source_sorted_count plan) (p_source_sorted_head plan) b1 mem1 =
      (r2, b2, rest2, mem2)" by (metis prod_cases4)
  note c1 = add_chain_ret [OF len(1) 1] and c2 = add_chain_ret [OF eq_refl [OF len(2)] 2]
  define plan2 where "plan2 = plan\<lparr>p_segment_builder := b2, p_output_entries := length (bld_block_table b2)\<rparr>"
  obtain r3 plan3 mem3 where 3: "imr_lsm_build_prepared_sorted_nodes plan2 mem2 = (r3, plan3, mem3)" by (metis prod_cases3)
  have r3: "r3 = 0 \<or> r3 = K_ENOMEM" using build_nodes_ret [of "bld_block_table (p_segment_builder plan2)" plan2 mem2] 3
    by (simp add: imr_lsm_build_prepared_sorted_nodes_def)
  obtain r4 sg b4 mem4 where 4: "imr_lsm_prepare_segment (p_destination_level plan3) IMR_LSM_TRACK_BOTTOM
      (p_segment_builder plan3) (p_bloom_bits_per_key plan3) mem3 = (r4, sg, b4, mem4)" by (metis prod_cases4)
  have r4: "r4 = 0 \<or> r4 = K_ENOMEM"
    using prepare_segment_ret [of "p_destination_level plan3" IMR_LSM_TRACK_BOTTOM "p_segment_builder plan3" "p_bloom_bits_per_key plan3" mem3] 4 by simp
  have "same_unsorted x x" for x by (simp add: same_unsorted_def)
  then have "r = r1 \<and> r1 \<noteq> 0 \<or> r = r2 \<and> r2 \<noteq> 0 \<or> r = r3 \<or> r = r4"
    using assms(2) c1 c2 1 2 3 4 len by (auto simp: imr_lsm_build_level_compaction_plan_def Let_def plan2_def [symmetric] split: if_splits)
  then show ?thesis using c1 c2 r3 r4 by auto
qed

text \<open>The execution after a first section that prepared a plan.\<close>

lemma execute_unfold:
  assumes "prepare_section c d automatic lvl m = (0, level, plan, m1)" "p_prepared plan"
    "imr_lsm_build_level_compaction_plan c plan (kmem m1) = (r, plan1, mem)"
    "imr_lsm_publish_level_compaction_locked c d' plan1 (window (m1\<lparr>kmem := mem\<rparr>)) = (ret', plan2, m3)"
    "imr_lsm_execute_level_compaction c d window d' automatic lvl m = (ret, out, m')"
  shows "did_work out" "ret = (if r = 0 then ret' else r)" "m' = (if r = 0 then m3 else window (m1\<lparr>kmem := mem\<rparr>))"
  using assms by (simp_all add: imr_lsm_execute_level_compaction_def Let_def split: if_splits)
    (auto split: if_splits)

lemma execute_idle:
  assumes "prepare_section c d automatic lvl m = (r, level, plan, m1)" "r \<noteq> 0 \<or> \<not> p_prepared plan"
    "imr_lsm_execute_level_compaction c d window d' automatic lvl m = (ret, out, m')"
  shows "\<not> did_work out" "ret = r" "m' = m1"
  using assms by (auto simp: imr_lsm_execute_level_compaction_def Let_def)

lemma build_plan_frame:
  assumes "imr_lsm_build_level_compaction_plan c plan mem = (0, plan', mem')" "plan_of plan bdev m"
  shows "p_output_bdev plan' = bdev"
proof -
  have z: "p_segment_builder plan = zero_builder" "p_prepared_sorted_head plan = []" "plan_inputs plan \<noteq> []"
    "p_output_bdev plan = bdev" using assms(2) unfolding plan_of_def by blast+
  show ?thesis by (rule build_plan_ok [OF assms(1) z(1-3)]) (simp add: z(4))
qed

lemma plan_of_memory: "plan_of plan bdev (m\<lparr>kmem := mem\<rparr>) \<longleftrightarrow> plan_of plan bdev m"
  by (simp add: plan_of_def moved_sorted_def)

text \<open>What an execution did, and what the store was when it did it.\<close>

definition compaction_result :: "imr_lsm_metadata \<Rightarrow> imr_lsm_metadata \<Rightarrow> bool" where
  "compaction_result m' m \<longleftrightarrow> lsm_inv m' \<and> contents m' = contents m \<and> clock m' = clock m"

lemma compaction_resultI:
  "lsm_ok m' \<Longrightarrow> newest m' = newest m \<Longrightarrow> initialized m' = initialized m \<Longrightarrow> lsm_timestamp m' = lsm_timestamp m \<Longrightarrow> compaction_result m' m"
  by (simp add: compaction_result_def lsm_inv_def contents_def clock_def)

lemma memory_result:
  assumes "lsm_ok m"
  shows "lsm_ok (m\<lparr>kmem := mem\<rparr>) \<and> compaction_result (m\<lparr>kmem := mem\<rparr>) m"
proof -
  note s = lsm_same_simps [OF lsm_same_stat(4) [of mem m]]
  show ?thesis using s assms compaction_resultI [of "m\<lparr>kmem := mem\<rparr>" m] by simp
qed

lemma publish_beside_foreground:
  assumes "lsm_ok m1" "initialized m1" "plan_of plan bdev m1"
    "imr_lsm_build_level_compaction_plan c plan mem0 = (0, plan1, mem)"
    "(foreground c)\<^sup>*\<^sup>* (m1\<lparr>kmem := mem\<rparr>) m2"
    "imr_lsm_publish_level_compaction_locked c d plan1 m2 = (ret, plan2, m3)"
  shows "compaction_result m3 m2" "imrsim_target_ready_locked d \<Longrightarrow> dev_output_bdev d = bdev \<Longrightarrow> ret = 0"
proof -
  let ?m = "m1\<lparr>kmem := mem\<rparr>"
  have ok: "lsm_ok ?m" "initialized ?m" "plan_of plan bdev ?m"
    using memory_result [OF assms(1)] assms(2) assms(3) plan_of_memory [of plan bdev mem m1] by simp_all
  note ex = foreground_extends [OF assms(5) ok(1,2)]
  have ok2: "lsm_ok m2" "initialized m2" using ex by (simp_all add: extends_def)
  obtain s before moved rest where p: "plan_fits plan1 s before moved rest m2" "p_output_segment plan1 = Some s"
    "imrsim_target_ready_locked d \<Longrightarrow> dev_output_bdev d = bdev \<Longrightarrow> imr_lsm_validate_level_compaction_plan_locked d plan1 m2 = (0, before)"
    by (rule extended_plan [OF ok(1,3) assms(4) ex, of d]) blast
  obtain r b where v: "imr_lsm_validate_level_compaction_plan_locked d plan1 m2 = (r, b)" by fastforce
  have fits: "imrsim_target_ready_locked d \<and> dev_output_bdev d = p_output_bdev plan1" if "r = 0"
    using v that by (auto simp: imr_lsm_validate_level_compaction_plan_locked_def Let_def split: if_splits)
  have bd: "p_output_bdev plan1 = bdev" by (rule build_plan_frame [OF assms(4,3)])
  have good: "ret = 0 \<and> compaction_result m3 m2" if "imr_lsm_validate_level_compaction_plan_locked d plan1 m2 = (0, before)"
    using publish_fits_ok [OF ok2(1) p(1,2) that assms(6)] compaction_resultI [of m3 m2] by blast
  show "ret = 0" if "imrsim_target_ready_locked d" "dev_output_bdev d = bdev" using good [OF p(3) [OF that]] by blast
  show "compaction_result m3 m2"
  proof (cases "r = 0")
    case True
    then show ?thesis using good p(3) fits bd by simp
  next
    case False
    then have "m3 = m2" using assms(6) v by (simp add: imr_lsm_publish_level_compaction_locked_def)
    then show ?thesis using compaction_resultI [OF ok2(1)] by simp
  qed
qed

text \<open>C4. A level compaction is invisible to readers.  It runs in two critical sections with the plan built
  between them without the locks; whatever sequence of reads, writes and deletions the foreground completes in
  between, the compaction keeps the invariant of the store and leaves exactly the newest versions that the
  foreground left: no write is lost, no deletion undone, no old version resurrected.\<close>

theorem level_compaction_invisible:
  assumes "lsm_inv m" "config_ok c" "\<forall>x. (foreground c)\<^sup>*\<^sup>* x (window x)"
    "imr_lsm_execute_level_compaction c d window d' automatic requested_level m = (ret, out, m')"
  shows "\<exists>mw. contents mw = contents m \<and> clock mw = clock m \<and> lsm_inv mw \<and>
     lsm_inv m' \<and> contents m' = contents (if did_work out then window mw else mw) \<and>
     clock m' = clock (if did_work out then window mw else mw)"
proof -
  obtain r level plan m1 where 1: "prepare_section c d automatic requested_level m = (r, level, plan, m1)" by (metis prod_cases4)
  note p = prepare_section_ok [OF assms(1,2) 1]
  show ?thesis
  proof (cases "r \<noteq> 0 \<or> \<not> p_prepared plan")
    case True
    show ?thesis using execute_idle [OF 1 True assms(4)] p(1) by auto
  next
    case False
    then have ok: "lsm_ok m1" "initialized m1" "plan_of plan (dev_output_bdev d) m1" and r: "r = 0" "p_prepared plan" using p(2) by simp_all
    obtain r2 plan1 mem where 2: "imr_lsm_build_level_compaction_plan c plan (kmem m1) = (r2, plan1, mem)" by (metis prod_cases3)
    define mw where "mw = m1\<lparr>kmem := mem\<rparr>"
    obtain r3 plan2 m3 where 3: "imr_lsm_publish_level_compaction_locked c d' plan1 (window mw) = (r3, plan2, m3)" by (metis prod_cases3)
    note e = execute_unfold [OF 1 [unfolded r] r(2) 2 3 [unfolded mw_def] assms(4)]
    have w: "(foreground c)\<^sup>*\<^sup>* mw (window mw)" using assms(3) by blast
    have mw: "lsm_ok mw" "initialized mw" "compaction_result mw m1" using memory_result [OF ok(1), of mem] ok(2) by (simp_all add: mw_def)
    have "extends mw (window mw)" by (rule foreground_extends [OF w mw(1,2)])
    then have "compaction_result (window mw) (window mw)" by (simp add: extends_def compaction_result_def lsm_inv_def)
    moreover have "compaction_result m3 (window mw)" if "r2 = 0"
      using publish_beside_foreground(1) [OF ok 2 [unfolded that] w [unfolded mw_def] 3 [unfolded mw_def]] by (simp add: mw_def)
    ultimately have "compaction_result m' (window mw)" using e(3) by (simp add: mw_def)
    then show ?thesis using e(1) mw(3) p(1) by (intro exI [of _ mw]) (simp add: compaction_result_def)
  qed
qed

text \<open>A target with no zones, and a foreground that overwrites a key in the window.\<close>

definition demo_device :: lsm_device where
  "demo_device = \<lparr>dev_active = True, dev_zone_state = True, dev_zone_status = Some [], dev_output_bdev = Some 7\<rparr>"

definition demo_window :: "imr_lsm_metadata \<Rightarrow> imr_lsm_metadata" where
  "demo_window m = snd (imr_lsm_record_insert imr_lsm_reset_validation_overrides_locked 0 80 8192 m)"

lemma demo_window_foreground: "\<forall>x. (foreground imr_lsm_reset_validation_overrides_locked)\<^sup>*\<^sup>* x (demo_window x)"
proof
  show "(foreground imr_lsm_reset_validation_overrides_locked)\<^sup>*\<^sup>* x (demo_window x)" for x
    unfolding demo_window_def
    by (rule r_into_rtranclp, rule fg_write [where zone_idx = 0 and logical_lba = 80 and physical_lba = 8192
        and ret = "fst (imr_lsm_record_insert imr_lsm_reset_validation_overrides_locked 0 80 8192 x)"]) simp
qed

lemma demo_window_contents:
  assumes "lsm_inv m" "contents m = [10 \<mapsto> (1, 4096, True)]" "clock m = 1"
  shows "contents (demo_window m) 10 \<in> {Some (1, 4096, True), Some (2, 8192, True)}"
  using record_insert_writes [OF assms(1), of 80 8192 imr_lsm_reset_validation_overrides_locked 0] assms(2,3)
  by (auto simp: demo_window_def writes_def IMR_BLOCK_SIZE_SHIFT_def split: prod.splits if_splits)

theorem level_compaction_invisible_witness:
  "lsm_inv demo_lsm \<and> config_ok imr_lsm_reset_validation_overrides_locked \<and>
   (\<forall>x. (foreground imr_lsm_reset_validation_overrides_locked)\<^sup>*\<^sup>* x (demo_window x)) \<and>
   contents (snd (snd (imr_lsm_execute_level_compaction imr_lsm_reset_validation_overrides_locked
     demo_device demo_window demo_device False 0 demo_lsm))) 10 \<in> {Some (1, 4096, True), Some (2, 8192, True)}"
proof -
  obtain ret out m' where x: "imr_lsm_execute_level_compaction imr_lsm_reset_validation_overrides_locked
     demo_device demo_window demo_device False 0 demo_lsm = (ret, out, m')" by (metis prod_cases3)
  obtain mw where mw: "contents mw = contents demo_lsm" "clock mw = clock demo_lsm" "lsm_inv mw"
    "contents m' = contents (if did_work out then demo_window mw else mw)"
    using level_compaction_invisible [OF demo_lsm_inv(1) config_ok_default demo_window_foreground x] by blast
  have "contents (demo_window mw) 10 \<in> {Some (1, 4096, True), Some (2, 8192, True)}"
    using demo_window_contents [OF mw(3)] mw(1,2) demo_lsm_inv(2,3) by simp
  moreover have "contents mw 10 = Some (1, 4096, True)" using mw(1) demo_lsm_inv(2) by simp
  ultimately have "contents m' 10 \<in> {Some (1, 4096, True), Some (2, 8192, True)}" using mw(4) by simp
  then show ?thesis using demo_lsm_inv(1) config_ok_default demo_window_foreground by (simp add: x)
qed

text \<open>C17. No foreground operation can starve a manual level compaction: on a ready target it returns
  success or \<open>-ENOMEM\<close>, never \<open>-EAGAIN\<close>, whatever completes while its plan is built.\<close>

theorem level_compaction_not_starved:
  assumes "lsm_inv m" "config_ok c" "\<forall>x. (foreground c)\<^sup>*\<^sup>* x (window x)" "requested_level < IMR_LSM_LEVELS"
    "imrsim_target_ready_locked d" "dev_output_bdev d \<noteq> None" "imrsim_target_ready_locked d'" "dev_output_bdev d' = dev_output_bdev d"
  shows "fst (imr_lsm_execute_level_compaction c d window d' False requested_level m) \<in> {0, K_ENOMEM}"
proof -
  obtain r level plan m1 where 1: "prepare_section c d False requested_level m = (r, level, plan, m1)" by (metis prod_cases4)
  obtain ret out m' where x: "imr_lsm_execute_level_compaction c d window d' False requested_level m = (ret, out, m')" by (metis prod_cases3)
  note p = prepare_section_ok [OF assms(1,2) 1]
  define m0 where "m0 = (if initialized m then m else imr_lsm_initialize_metadata_locked m)"
  have so: "store_ok m0" using ensure_initialized(1) [OF assms(1) m0_def] by (simp add: lsm_ok_def)
  have u: "0 < u32_max" by (simp add: u32_max_def)
  have "imr_lsm_prepare_level_compaction_locked c (dev_output_bdev d) requested_level u32_max m0 = (r, plan, m1)"
    using 1 assms(4-6) by (auto simp: prepare_section_def m0_def [symmetric] Let_def split: prod.splits)
  then have r: "r = 0" using prepare_plan_of(4) [OF so u _ assms(4)] by blast
  show ?thesis
  proof (cases "p_prepared plan")
    case False
    then show ?thesis using execute_idle [OF 1 _ x] r x by simp
  next
    case True
    then have ok: "lsm_ok m1" "initialized m1" "plan_of plan (dev_output_bdev d) m1" using p(2) r by simp_all
    obtain r2 plan1 mem where 2: "imr_lsm_build_level_compaction_plan c plan (kmem m1) = (r2, plan1, mem)" by (metis prod_cases3)
    let ?mw = "m1\<lparr>kmem := mem\<rparr>"
    obtain r3 plan2 m3 where 3: "imr_lsm_publish_level_compaction_locked c d' plan1 (window ?mw) = (r3, plan2, m3)" by (metis prod_cases3)
    have w: "(foreground c)\<^sup>*\<^sup>* ?mw (window ?mw)" using assms(3) by blast
    have "r3 = 0" if "r2 = 0" by (rule publish_beside_foreground(2) [OF ok 2 [unfolded that] w 3 assms(7,8)])
    then show ?thesis using execute_unfold(2) [OF 1 [unfolded r] True 2 3 x] build_plan_ret [OF ok(3) 2] x by auto
  qed
qed

theorem level_compaction_not_starved_witness:
  "fst (imr_lsm_execute_level_compaction imr_lsm_reset_validation_overrides_locked demo_device demo_window demo_device False 0 demo_lsm)
     \<in> {0, K_ENOMEM}"
  by (rule level_compaction_not_starved [OF demo_lsm_inv(1) config_ok_default demo_window_foreground])
    (simp_all add: demo_device_def imrsim_target_ready_locked_def lsm_consts)

end
