(* ===== verification/Spec2Isabelle.thy ===== *)
theory Spec2Isabelle
  imports Kvimr_Recovery Imr_Compaction
begin

text \<open>
  Header.
\<close>

end
